(* ===== verification/Prelude.thy ===== *)
theory Prelude
  imports "HOL-Library.Word" "HOL-Library.Code_Target_Numeral"
begin

text \<open>
  Shared vocabulary of the development.

  \<^item> The error taxonomy of \<^verbatim>\<open>crates/types/src/error.rs\<close> and the \<open>Result\<close> type as a sum, with
    Rust's \<open>?\<close> operator as \<open>and_then\<close>.
  \<^item> The integer, float and byte types of the source as words, \<open>usize\<close> as \<open>nat\<close> with the
    64-bit bound written out in the checked operations.
  \<^item> \<open>std::cmp::Ordering\<close>, its combinators, and the lexicographic comparison of slices.
  \<^item> Ordered maps (\<open>BTreeMap\<close>) as strictly sorted association lists.

  The collections \<open>result_simps\<close> and \<open>ordering_simps\<close> carry the component proofs.
\<close>

named_theorems result_simps "unfolding rules for Result-valued code"
named_theorems ordering_simps "rules for Ordering and its combinators"

subsection \<open>Types of the source language\<close>

type_synonym u8 = "8 word"
type_synonym u16 = "16 word"
type_synonym u32 = "32 word"
type_synonym u64 = "64 word"
type_synonym u128 = "128 word"
type_synonym i32 = "32 word"
type_synonym i64 = "64 word"
type_synonym i128 = "128 word"

text \<open>An \<open>f64\<close> or \<open>f32\<close> is its IEEE-754 bit pattern.\<close>

type_synonym f64 = "64 word"
type_synonym f32 = "32 word"

type_synonym bytes = "u8 list"

text \<open>A Rust \<open>str\<close> is its UTF-8 byte sequence; validity is a separate predicate.\<close>

type_synonym str = "u8 list"

text \<open>A host \<open>usize\<close> is 64 bits wide.\<close>

abbreviation usize_limit :: nat where
  "usize_limit \<equiv> 2 ^ 64"

text \<open>
  A fallible vector growth (\<open>try_reserve\<close>) asks the allocator for room for a total number of
  elements; the allocator is a parameter that grants or refuses it.
\<close>

type_synonym allocator = "nat \<Rightarrow> bool"

definition granting :: "allocator \<Rightarrow> bool" where
  "granting alloc \<longleftrightarrow> (\<forall>n. alloc n)"

subsection \<open>Errors and results\<close>

datatype ErrorCode =
    StaleLocalRead
  | CorruptStorage
  | GpuAdmissionFailure
  | ProjectNotFound
  | ProjectFenced
  | LayerNotAllowed
  | QuerySyntax
  | QueryType
  | TransactionConflict
  | TransactionExpired
  | TransactionSequencerChanged
  | WriteAdmissionFull
  | TemporalRange
  | EmbeddingProfileMismatch
  | EmbeddingProfileImmutable
  | IndexUnavailable
  | ResultBudgetExceeded
  | EmbeddingUnavailable
  | AuthenticationFailed
  | AuthorizationDenied
  | Backpressure
  | RetentionExpired
  | ProtocolViolation
  | Cancelled
  | DeadlineExceeded
  | InvalidData
  | Io
  | Internal

record Error =
  err_code :: ErrorCode
  err_message :: string
  err_retryable :: bool
  err_retry_after_ms :: "u64 option"

definition new_error :: "ErrorCode \<Rightarrow> string \<Rightarrow> Error" where
  "new_error c m =
     \<lparr>err_code = c, err_message = m, err_retryable = False, err_retry_after_ms = None\<rparr>"

definition retryable_error :: "ErrorCode \<Rightarrow> string \<Rightarrow> u64 option \<Rightarrow> Error" where
  "retryable_error c m after =
     \<lparr>err_code = c, err_message = m, err_retryable = True, err_retry_after_ms = after\<rparr>"

definition invalid_data :: "string \<Rightarrow> Error" where
  "invalid_data m = new_error InvalidData m"

definition internal_error :: "string \<Rightarrow> Error" where
  "internal_error m = new_error Internal m"

lemma err_code_new_error [simp]: "err_code (new_error c m) = c"
  by (simp add: new_error_def)

lemma new_error_eq_iff [simp]: "new_error c m = new_error c' m' \<longleftrightarrow> c = c' \<and> m = m'"
  by (auto simp: new_error_def)

type_synonym 'a result = "Error + 'a"

abbreviation Ok :: "'a \<Rightarrow> 'a result" where
  "Ok \<equiv> Inr"

abbreviation Err :: "Error \<Rightarrow> 'a result" where
  "Err \<equiv> Inl"

definition and_then :: "'a result \<Rightarrow> ('a \<Rightarrow> 'b result) \<Rightarrow> 'b result" where
  "and_then r f = (case r of Inl e \<Rightarrow> Inl e | Inr x \<Rightarrow> f x)"

lemma and_then_simps [simp, result_simps]:
  "and_then (Inl e) f = Inl e"
  "and_then (Inr x) f = f x"
  by (simp_all add: and_then_def)

lemma and_then_cong [fundef_cong]:
  "r = r' \<Longrightarrow> (\<And>x. r' = Inr x \<Longrightarrow> f x = g x) \<Longrightarrow> and_then r f = and_then r' g"
  by (cases r') (auto simp: and_then_def)

lemma and_then_eq_Inr_iff:
  "and_then r f = Inr y \<longleftrightarrow> (\<exists>x. r = Inr x \<and> f x = Inr y)"
  by (cases r) auto

lemma and_then_eq_Inl_iff:
  "and_then r f = Inl e \<longleftrightarrow> r = Inl e \<or> (\<exists>x. r = Inr x \<and> f x = Inl e)"
  by (cases r) auto

lemma and_then_assoc: "and_then (and_then r f) g = and_then r (\<lambda>x. and_then (f x) g)"
  by (cases r) auto

lemmas and_then_iffs = and_then_eq_Inr_iff and_then_eq_Inl_iff

definition ok_or :: "'a option \<Rightarrow> Error \<Rightarrow> 'a result" where
  "ok_or v e = (case v of None \<Rightarrow> Inl e | Some x \<Rightarrow> Inr x)"

lemma ok_or_simps [simp, result_simps]:
  "ok_or None e = Inl e"
  "ok_or (Some x) e = Inr x"
  by (simp_all add: ok_or_def)

lemma ok_or_eq_Inr_iff [simp]: "ok_or v e = Inr x \<longleftrightarrow> v = Some x"
  by (cases v) auto

fun collect_results :: "'a result list \<Rightarrow> 'a list result" where
  "collect_results [] = Ok []"
| "collect_results (r # rs) =
     and_then r (\<lambda>x. and_then (collect_results rs) (\<lambda>xs. Ok (x # xs)))"

lemma collect_results_map_Inr [simp]: "collect_results (map Inr xs) = Inr xs"
  by (induction xs) auto

lemma collect_results_map_Inr_iff:
  "collect_results (map f xs) = Inr ys \<longleftrightarrow> list_all2 (\<lambda>x y. f x = Inr y) xs ys"
  by (induction xs arbitrary: ys) (auto simp: and_then_eq_Inr_iff list_all2_Cons1)

lemma collect_results_fields_Inr_iff:
  "collect_results (map (\<lambda>(n, x). and_then (f x) (\<lambda>y. Ok (n, y))) kxs) = Inr kys \<longleftrightarrow>
   list_all2 (\<lambda>(n, x) (m, y). m = n \<and> f x = Inr y) kxs kys"
  by (induction kxs arbitrary: kys) (auto simp: and_then_eq_Inr_iff list_all2_Cons1)

lemma list_all2_member2:
  "list_all2 P xs ys \<Longrightarrow> y \<in> set ys \<Longrightarrow> \<exists>x\<in>set xs. P x y"
  by (induction rule: list_all2_induct) auto

text \<open>\<open>Iterator::try_fold\<close>, and a \<open>for\<close> loop whose body uses \<open>?\<close>.\<close>

fun try_fold :: "('s \<Rightarrow> 'a \<Rightarrow> 's result) \<Rightarrow> 's \<Rightarrow> 'a list \<Rightarrow> 's result" where
  "try_fold f s [] = Ok s"
| "try_fold f s (x # xs) = and_then (f s x) (\<lambda>s. try_fold f s xs)"

lemma try_fold_cong [fundef_cong]:
  "xs = ys \<Longrightarrow> s = t \<Longrightarrow> (\<And>x s. x \<in> set ys \<Longrightarrow> f s x = g s x) \<Longrightarrow> try_fold f s xs = try_fold g t ys"
proof -
  have "(\<And>x s. x \<in> set ys \<Longrightarrow> f s x = g s x) \<Longrightarrow> try_fold f t ys = try_fold g t ys"
    by (induction ys arbitrary: t) (auto intro: and_then_cong)
  then show "xs = ys \<Longrightarrow> s = t \<Longrightarrow> (\<And>x s. x \<in> set ys \<Longrightarrow> f s x = g s x) \<Longrightarrow>
    try_fold f s xs = try_fold g t ys" by simp
qed

text \<open>A loop whose body may panic; a panic is \<open>None\<close>.\<close>

fun fold_panics :: "('s \<Rightarrow> 'a \<Rightarrow> 's option) \<Rightarrow> 's \<Rightarrow> 'a list \<Rightarrow> 's option" where
  "fold_panics f s [] = Some s"
| "fold_panics f s (x # xs) = (case f s x of None \<Rightarrow> None | Some s \<Rightarrow> fold_panics f s xs)"

lemma fold_panics_cong [fundef_cong]:
  "xs = ys \<Longrightarrow> s = t \<Longrightarrow> (\<And>s x. x \<in> set ys \<Longrightarrow> f s x = g s x) \<Longrightarrow> fold_panics f s xs = fold_panics g t ys"
proof -
  have "(\<And>s x. x \<in> set ys \<Longrightarrow> f s x = g s x) \<Longrightarrow> fold_panics f t ys = fold_panics g t ys"
    by (induction ys arbitrary: t) (auto split: option.split)
  then show "xs = ys \<Longrightarrow> s = t \<Longrightarrow> (\<And>s x. x \<in> set ys \<Longrightarrow> f s x = g s x) \<Longrightarrow>
    fold_panics f s xs = fold_panics g t ys" by simp
qed

text \<open>A computation that may panic (\<open>None\<close>) or return an error, and \<open>?\<close> on it.\<close>

type_synonym 'a outcome = "'a result option"

definition and_try :: "'a outcome \<Rightarrow> ('a \<Rightarrow> 'b outcome) \<Rightarrow> 'b outcome" where
  "and_try m f = (case m of None \<Rightarrow> None | Some (Inl e) \<Rightarrow> Some (Err e) | Some (Inr x) \<Rightarrow> f x)"

lemma and_try_simps [simp]:
  "and_try None f = None" "and_try (Some (Inl e)) f = Some (Inl e)" "and_try (Some (Inr x)) f = f x"
  by (simp_all add: and_try_def)

lemma and_try_cong [fundef_cong]:
  "m = n \<Longrightarrow> (\<And>x. n = Some (Inr x) \<Longrightarrow> f x = g x) \<Longrightarrow> and_try m f = and_try n g"
  by (auto simp: and_try_def split: option.split sum.split)

fun fold_outcome :: "('s \<Rightarrow> 'a \<Rightarrow> 's outcome) \<Rightarrow> 's \<Rightarrow> 'a list \<Rightarrow> 's outcome" where
  "fold_outcome f s [] = Some (Ok s)"
| "fold_outcome f s (x # xs) = and_try (f s x) (\<lambda>s. fold_outcome f s xs)"

subsection \<open>Checked and saturating arithmetic\<close>

definition checked_add_usize :: "nat \<Rightarrow> nat \<Rightarrow> nat option" where
  "checked_add_usize a b = (if a + b < usize_limit then Some (a + b) else None)"

definition checked_mul_usize :: "nat \<Rightarrow> nat \<Rightarrow> nat option" where
  "checked_mul_usize a b = (if a * b < usize_limit then Some (a * b) else None)"

definition checked_sub_usize :: "nat \<Rightarrow> nat \<Rightarrow> nat option" where
  "checked_sub_usize a b = (if b \<le> a then Some (a - b) else None)"

definition saturating_add_usize :: "nat \<Rightarrow> nat \<Rightarrow> nat" where
  "saturating_add_usize a b = min (a + b) (usize_limit - 1)"

definition checked_add_u32 :: "u32 \<Rightarrow> u32 \<Rightarrow> u32 option" where
  "checked_add_u32 a b = (if unat a + unat b < 2 ^ 32 then Some (a + b) else None)"

definition saturating_inc :: "u32 \<Rightarrow> u32" where
  "saturating_inc n = (if n = 0xFFFFFFFF then n else n + 1)"

text \<open>Decimal rendering of an unsigned integer.\<close>

fun decimal :: "nat \<Rightarrow> string" where
  "decimal n = (if n < 10 then [char_of (48 + n)] else decimal (n div 10) @ [char_of (48 + n mod 10)])"

declare decimal.simps [simp del]

subsection \<open>Orderings\<close>

datatype Ordering = Less | Equal | Greater

definition cmp :: "'a::linorder \<Rightarrow> 'a \<Rightarrow> Ordering" where
  "cmp x y = (if x < y then Less else if x = y then Equal else Greater)"

fun then_with :: "Ordering \<Rightarrow> Ordering \<Rightarrow> Ordering" where
  "then_with Equal r = r"
| "then_with l r = l"

fun reverse_ordering :: "Ordering \<Rightarrow> Ordering" where
  "reverse_ordering Less = Greater"
| "reverse_ordering Equal = Equal"
| "reverse_ordering Greater = Less"

lemma cmp_refl [simp]: "cmp x x = Equal"
  by (simp add: cmp_def)

lemma cmp_iffs [simp, ordering_simps]:
  "cmp x y = Less \<longleftrightarrow> x < y"
  "cmp x y = Equal \<longleftrightarrow> x = y"
  "cmp x y = Greater \<longleftrightarrow> y < x"
  by (auto simp: cmp_def)

lemma cmp_flip: "cmp y x = reverse_ordering (cmp x y)"
  by (auto simp: cmp_def)

lemma then_with_iffs [ordering_simps]:
  "then_with a b = Equal \<longleftrightarrow> a = Equal \<and> b = Equal"
  "then_with a b = Less \<longleftrightarrow> a = Less \<or> a = Equal \<and> b = Less"
  "then_with a b = Greater \<longleftrightarrow> a = Greater \<or> a = Equal \<and> b = Greater"
  by (cases a; simp)+

lemma then_with_Equal_right [simp]: "then_with a Equal = a"
  by (cases a) auto

lemma then_with_assoc [ordering_simps]:
  "then_with (then_with a b) c = then_with a (then_with b c)"
  by (cases a) auto

lemma reverse_then_with:
  "reverse_ordering (then_with a b) = then_with (reverse_ordering a) (reverse_ordering b)"
  by (cases a) auto

lemma reverse_reverse [simp]: "reverse_ordering (reverse_ordering a) = a"
  by (cases a) auto

lemma reverse_ordering_iffs [simp]:
  "reverse_ordering a = Less \<longleftrightarrow> a = Greater"
  "reverse_ordering a = Equal \<longleftrightarrow> a = Equal"
  "reverse_ordering a = Greater \<longleftrightarrow> a = Less"
  by (cases a; simp)+

text \<open>Element-wise comparison of two slices; a proper prefix is smaller.\<close>

fun slice_cmp :: "('a \<Rightarrow> 'b \<Rightarrow> Ordering) \<Rightarrow> 'a list \<Rightarrow> 'b list \<Rightarrow> Ordering" where
  "slice_cmp c [] [] = Equal"
| "slice_cmp c [] (y # ys) = Less"
| "slice_cmp c (x # xs) [] = Greater"
| "slice_cmp c (x # xs) (y # ys) = then_with (c x y) (slice_cmp c xs ys)"

lemma slice_cmp_cong [fundef_cong]:
  "xs = xs' \<Longrightarrow> ys = ys' \<Longrightarrow>
   (\<And>x y. x \<in> set xs' \<Longrightarrow> y \<in> set ys' \<Longrightarrow> c x y = d x y) \<Longrightarrow>
   slice_cmp c xs ys = slice_cmp d xs' ys'"
proof -
  have "(\<And>x y. x \<in> set xs' \<Longrightarrow> y \<in> set ys' \<Longrightarrow> c x y = d x y) \<Longrightarrow>
    slice_cmp c xs' ys' = slice_cmp d xs' ys'"
    by (induction c xs' ys' rule: slice_cmp.induct) auto
  then show "xs = xs' \<Longrightarrow> ys = ys' \<Longrightarrow>
   (\<And>x y. x \<in> set xs' \<Longrightarrow> y \<in> set ys' \<Longrightarrow> c x y = d x y) \<Longrightarrow>
   slice_cmp c xs ys = slice_cmp d xs' ys'" by simp
qed

abbreviation bytes_cmp :: "bytes \<Rightarrow> bytes \<Rightarrow> Ordering" where
  "bytes_cmp \<equiv> slice_cmp cmp"

lemma slice_cmp_Equal_iff [simp]:
  "slice_cmp cmp xs ys = Equal \<longleftrightarrow> xs = ys" for xs ys :: "'a::linorder list"
  by (induction "cmp :: 'a \<Rightarrow> 'a \<Rightarrow> Ordering" xs ys rule: slice_cmp.induct)
    (auto simp: ordering_simps)

lemma slice_cmp_flip:
  "(\<And>x y. x \<in> set xs \<Longrightarrow> y \<in> set ys \<Longrightarrow> d y x = reverse_ordering (c x y)) \<Longrightarrow>
   slice_cmp d ys xs = reverse_ordering (slice_cmp c xs ys)"
  by (induction c xs ys rule: slice_cmp.induct) (auto simp: reverse_then_with)

subsection \<open>Ordered maps\<close>

text \<open>\<open>BTreeMap<str, V>\<close>: an association list whose keys increase strictly in byte order.\<close>

type_synonym 'v btree_map = "(str \<times> 'v) list"

fun strictly_sorted :: "str list \<Rightarrow> bool" where
  "strictly_sorted [] = True"
| "strictly_sorted [k] = True"
| "strictly_sorted (k # l # ks) = (bytes_cmp k l = Less \<and> strictly_sorted (l # ks))"

definition btree_ok :: "'v btree_map \<Rightarrow> bool" where
  "btree_ok m = strictly_sorted (map fst m)"

text \<open>\<open>BTreeMap::insert\<close> returns the displaced value, if any.\<close>

fun btree_insert :: "'v btree_map \<Rightarrow> str \<Rightarrow> 'v \<Rightarrow> 'v btree_map \<times> 'v option" where
  "btree_insert [] k v = ([(k, v)], None)"
| "btree_insert ((k', v') # m) k v =
     (case bytes_cmp k k' of
        Less \<Rightarrow> ((k, v) # (k', v') # m, None)
      | Equal \<Rightarrow> ((k, v) # m, Some v')
      | Greater \<Rightarrow> (case btree_insert m k v of (m', old) \<Rightarrow> ((k', v') # m', old)))"

lemma slice_cmp_Less_trans:
  "slice_cmp cmp xs ys = Less \<Longrightarrow> slice_cmp cmp ys zs = Less \<Longrightarrow> slice_cmp cmp xs zs = Less"
  for xs ys zs :: "'a::linorder list"
proof (induction xs arbitrary: ys zs)
  case Nil
  then show ?case by (cases ys; cases zs) auto
next
  case (Cons x xs)
  then show ?case by (cases ys; cases zs) (auto simp: ordering_simps dest: less_trans)
qed

lemma strictly_sorted_append_one:
  "strictly_sorted (ks @ [k]) \<longleftrightarrow>
   strictly_sorted ks \<and> (ks \<noteq> [] \<longrightarrow> bytes_cmp (last ks) k = Less)"
  by (induction ks rule: strictly_sorted.induct) auto

lemma strictly_sorted_less_last:
  "strictly_sorted ks \<Longrightarrow> ks \<noteq> [] \<Longrightarrow> bytes_cmp (last ks) k = Less \<Longrightarrow> l \<in> set ks \<Longrightarrow>
   bytes_cmp l k = Less"
proof (induction ks arbitrary: l rule: strictly_sorted.induct)
  case (3 a b ks)
  have tl: "bytes_cmp m k = Less" if "m \<in> set (b # ks)" for m
    using "3.IH"[OF _ _ _ that] "3.prems" by simp
  have "bytes_cmp a b = Less" using "3.prems" by simp
  then have "bytes_cmp a k = Less"
    using tl[of b] slice_cmp_Less_trans by (metis list.set_intros(1))
  with tl "3.prems"(4) show ?case by (metis set_ConsD)
qed simp_all

lemma btree_insert_append:
  "(\<And>l. l \<in> fst ` set m \<Longrightarrow> bytes_cmp l k = Less) \<Longrightarrow>
   btree_insert m k v = (m @ [(k, v)], None)"
proof (induction m)
  case (Cons kv m)
  obtain k' v' where kv: "kv = (k', v')" by (cases kv)
  have "bytes_cmp k k' = reverse_ordering (bytes_cmp k' k)"
    by (rule slice_cmp_flip) (rule cmp_flip)
  moreover have "bytes_cmp k' k = Less" using Cons.prems kv by simp
  ultimately show ?case using Cons kv by simp
qed simp

end
