(* ===== verification/Byte_Codec.thy ===== *)
theory Byte_Codec
  imports Prelude
begin

unbundle bit_operations_syntax

text \<open>
  What the source uses of the standard library on bytes: \<open>to_le_bytes\<close>, \<open>from_le_bytes\<close> and
  \<open>to_be_bytes\<close> at every width, \<open>std::str::from_utf8\<close> as the predicate \<open>valid_utf8\<close>, and the
  classification of \<open>f64\<close> bit patterns.
\<close>

subsection \<open>Fixed-width integers as bytes\<close>

fun le_bytes :: "nat \<Rightarrow> nat \<Rightarrow> bytes" where
  "le_bytes 0 x = []"
| "le_bytes (Suc n) x = word_of_nat (x mod 256) # le_bytes n (x div 256)"

fun nat_of_le :: "bytes \<Rightarrow> nat" where
  "nat_of_le [] = 0"
| "nat_of_le (b # bs) = unat b + 256 * nat_of_le bs"

definition to_le_bytes :: "'a::len word \<Rightarrow> bytes" where
  "to_le_bytes w = le_bytes (LENGTH('a) div 8) (unat w)"

definition from_le_bytes :: "bytes \<Rightarrow> 'a::len word" where
  "from_le_bytes bs = word_of_nat (nat_of_le bs)"

definition to_be_bytes :: "'a::len word \<Rightarrow> bytes" where
  "to_be_bytes w = rev (to_le_bytes w)"

definition from_be_bytes :: "bytes \<Rightarrow> 'a::len word" where
  "from_be_bytes bs = from_le_bytes (rev bs)"

lemma unat_byte_of_nat_mod [simp]: "unat (word_of_nat (x mod 256) :: u8) = x mod 256"
  by (simp add: unat_of_nat)

lemma unat_u8_less: "unat (b :: u8) < 256"
  using unsigned_less[of b, where ?'a = nat] by simp

lemma length_le_bytes [simp]: "length (le_bytes n x) = n"
  by (induction n arbitrary: x) auto

lemma nat_of_le_le_bytes: "nat_of_le (le_bytes n x) = x mod 256 ^ n"
proof (induction n arbitrary: x)
  case (Suc n)
  have "x mod 256 + 256 * (x div 256 mod 256 ^ n) = x mod (256 * 256 ^ n)"
    by (simp add: mod_mult2_eq)
  with Suc show ?case by simp
qed simp

lemma nat_of_le_bound: "nat_of_le bs < 256 ^ length bs"
proof (induction bs)
  case (Cons b bs)
  have "unat b < 256" by (rule unat_u8_less)
  with Cons show ?case by simp
qed simp

lemma le_bytes_nat_of_le: "le_bytes (length bs) (nat_of_le bs) = bs"
proof (induction bs)
  case (Cons b bs)
  have b: "unat b < 256" by (rule unat_u8_less)
  then have "(unat b + 256 * nat_of_le bs) mod 256 = unat b"
    "(unat b + 256 * nat_of_le bs) div 256 = nat_of_le bs" by simp_all
  with Cons show ?case by simp
qed simp

lemma nat_of_le_append:
  "nat_of_le (xs @ ys) = nat_of_le xs + 256 ^ length xs * nat_of_le ys"
  by (induction xs) (auto simp: algebra_simps)

lemma length_to_le_bytes [simp]: "length (to_le_bytes (w :: 'a::len word)) = LENGTH('a) div 8"
  by (simp add: to_le_bytes_def)

lemma pow_256_div8: "8 dvd n \<Longrightarrow> (256::nat) ^ (n div 8) = 2 ^ n"
proof -
  assume "8 dvd n"
  then have "(256::nat) ^ (n div 8) = (2 ^ 8) ^ (n div 8)" by simp
  also have "\<dots> = 2 ^ (8 * (n div 8))" by (simp only: power_mult)
  finally show ?thesis using \<open>8 dvd n\<close> by simp
qed

lemma nat_of_le_to_le_bytes [simp]:
  "8 dvd LENGTH('a) \<Longrightarrow> nat_of_le (to_le_bytes (w :: 'a::len word)) = unat w"
  by (simp add: to_le_bytes_def nat_of_le_le_bytes pow_256_div8)

lemma from_to_le_bytes [simp]:
  "8 dvd LENGTH('a) \<Longrightarrow> from_le_bytes (to_le_bytes (w :: 'a::len word)) = w"
  by (simp add: from_le_bytes_def)

lemma to_from_le_bytes:
  "length bs * 8 = LENGTH('a) \<Longrightarrow> to_le_bytes (from_le_bytes bs :: 'a::len word) = bs"
proof -
  assume len: "length bs * 8 = LENGTH('a)"
  then have "8 dvd LENGTH('a)" by (metis dvd_triv_right)
  then have "nat_of_le bs < 2 ^ LENGTH('a)"
    using nat_of_le_bound[of bs] pow_256_div8[of "LENGTH('a)"] len by (metis nonzero_mult_div_cancel_right zero_neq_numeral)
  then have "unat (from_le_bytes bs :: 'a word) = nat_of_le bs"
    by (simp add: from_le_bytes_def unat_of_nat)
  with len show ?thesis
    by (metis le_bytes_nat_of_le nonzero_mult_div_cancel_right to_le_bytes_def zero_neq_numeral)
qed

lemma to_le_bytes_inject [simp]:
  "8 dvd LENGTH('a) \<Longrightarrow> to_le_bytes (v :: 'a::len word) = to_le_bytes w \<longleftrightarrow> v = w"
  by (metis from_to_le_bytes)

subsection \<open>Big-endian byte order is numeric order\<close>

lemma bytes_cmp_append_same_length:
  "length xs = length ys \<Longrightarrow>
   slice_cmp c (xs @ us) (ys @ vs) = then_with (slice_cmp c xs ys) (slice_cmp c us vs)"
  by (induction xs ys rule: list_induct2) (auto simp: ordering_simps)

lemma cmp_base_split:
  fixes a b c d :: nat
  assumes "a < m" "b < m"
  shows "cmp (a + m * c) (b + m * d) = then_with (cmp c d) (cmp a b)"
proof -
  have step: "a + m * c < b + m * d" if "a < m" "c < d" for a b c d :: nat
  proof -
    from that(2) have "m * (c + 1) \<le> m * d" by (intro mult_le_mono2) simp
    with that(1) show ?thesis by simp
  qed
  show ?thesis
    using assms step[of a c d b] step[of b d c a] by (cases c d rule: linorder_cases) (auto simp: cmp_def)
qed

lemma cmp_unat: "cmp (unat v) (unat w) = cmp v w"
  by (auto simp: cmp_def word_less_nat_alt intro: unsigned_word_eqI)

lemma bytes_cmp_rev_le_bytes:
  "length xs = length ys \<Longrightarrow>
   bytes_cmp (rev xs) (rev ys) = cmp (nat_of_le xs) (nat_of_le ys)"
proof (induction xs ys rule: list_induct2)
  case (Cons x xs y ys)
  then show ?case
    by (simp add: bytes_cmp_append_same_length cmp_base_split unat_u8_less cmp_unat)
qed simp

lemma bytes_cmp_to_be_bytes:
  "8 dvd LENGTH('a) \<Longrightarrow> bytes_cmp (to_be_bytes (v :: 'a::len word)) (to_be_bytes w) = cmp v w"
  by (simp add: to_be_bytes_def bytes_cmp_rev_le_bytes cmp_unat)

lemma length_to_be_bytes [simp]: "length (to_be_bytes (w :: 'a::len word)) = LENGTH('a) div 8"
  by (simp add: to_be_bytes_def)

lemma to_be_bytes_inject [simp]:
  "8 dvd LENGTH('a) \<Longrightarrow> to_be_bytes (v :: 'a::len word) = to_be_bytes w \<longleftrightarrow> v = w"
  by (simp add: to_be_bytes_def)

text \<open>A length written as eight big-endian bytes, before whatever follows.\<close>

lemma be_length_inject:
  assumes "m < 2 ^ 64" "n < 2 ^ 64"
  shows "to_be_bytes (word_of_nat m :: u64) @ x = to_be_bytes (word_of_nat n :: u64) @ y \<longleftrightarrow> m = n \<and> x = y"
proof -
  have "unat (word_of_nat k :: u64) = k" if "k < 2 ^ 64" for k
    using that by (simp add: unat_of_nat)
  with assms have "(word_of_nat m :: u64) = word_of_nat n \<longleftrightarrow> m = n"
    by metis
  then show ?thesis by simp
qed

subsection \<open>UTF-8\<close>

definition utf8_continuation :: "u8 \<Rightarrow> bool" where
  "utf8_continuation b = (0x80 \<le> b \<and> b \<le> 0xBF)"

text \<open>The second byte of a three-byte and of a four-byte sequence, by its first byte.\<close>

definition utf8_second3 :: "u8 \<Rightarrow> u8 \<Rightarrow> bool" where
  "utf8_second3 b c =
     (if b = 0xE0 then 0xA0 \<le> c \<and> c \<le> 0xBF
      else if b = 0xED then 0x80 \<le> c \<and> c \<le> 0x9F
      else utf8_continuation c)"

definition utf8_second4 :: "u8 \<Rightarrow> u8 \<Rightarrow> bool" where
  "utf8_second4 b c =
     (if b = 0xF0 then 0x90 \<le> c \<and> c \<le> 0xBF
      else if b = 0xF4 then 0x80 \<le> c \<and> c \<le> 0x8F
      else utf8_continuation c)"

fun valid_utf8 :: "bytes \<Rightarrow> bool" where
  "valid_utf8 [] = True"
| "valid_utf8 (b # bs) =
     (if b < 0x80 then valid_utf8 bs
      else if 0xC2 \<le> b \<and> b \<le> 0xDF then
        (case bs of c # r \<Rightarrow> utf8_continuation c \<and> valid_utf8 r | _ \<Rightarrow> False)
      else if 0xE0 \<le> b \<and> b \<le> 0xEF then
        (case bs of c # d # r \<Rightarrow> utf8_second3 b c \<and> utf8_continuation d \<and> valid_utf8 r
         | _ \<Rightarrow> False)
      else if 0xF0 \<le> b \<and> b \<le> 0xF4 then
        (case bs of c # d # e # r \<Rightarrow>
           utf8_second4 b c \<and> utf8_continuation d \<and> utf8_continuation e \<and> valid_utf8 r
         | _ \<Rightarrow> False)
      else False)"

subsection \<open>Floating-point bit patterns\<close>

definition f64_exponent_bits :: "f64 \<Rightarrow> u64" where
  "f64_exponent_bits b = drop_bit 52 b AND 0x7FF"

definition f64_fraction :: "f64 \<Rightarrow> u64" where
  "f64_fraction b = b AND (push_bit 52 1 - 1)"

definition f64_is_nan :: "f64 \<Rightarrow> bool" where
  "f64_is_nan b = (f64_exponent_bits b = 0x7FF \<and> f64_fraction b \<noteq> 0)"

definition f64_positive_infinity :: f64 where
  "f64_positive_infinity = 0x7FF0000000000000"

definition f64_negative_infinity :: f64 where
  "f64_negative_infinity = 0xFFF0000000000000"

definition f64_nan :: f64 where
  "f64_nan = 0x7FF8000000000000"

definition f64_is_finite :: "f64 \<Rightarrow> bool" where
  "f64_is_finite b = (f64_exponent_bits b \<noteq> 0x7FF)"

text \<open>The comparison \<open>value == 0.0\<close>, true of both zeros.\<close>

definition f64_is_zero :: "f64 \<Rightarrow> bool" where
  "f64_is_zero b = (b = 0 \<or> b = 0x8000000000000000)"

end
