(* ===== verification/Scalar_Value.thy ===== *)
theory Scalar_Value
  imports Byte_Codec
begin

text \<open>
  The value types of \<^verbatim>\<open>crates/types/src/types.rs\<close>: layers, bookmarks, entity kinds and
  \<open>ScalarValue\<close>, with document properties carried as their flat canonical bytes, and the
  transient \<open>DocumentItem\<close> tree of \<^verbatim>\<open>crates/types/src/document.rs\<close>.
\<close>

record Bookmark =
  bm_term :: u64
  bm_index :: u64

datatype Layer = Observed | Knowledge | Workspace

definition layer_byte :: "Layer \<Rightarrow> u8" where
  "layer_byte l = (case l of Observed \<Rightarrow> 0 | Knowledge \<Rightarrow> 1 | Workspace \<Rightarrow> 2)"

definition ALL_layers :: "Layer list" where
  "ALL_layers = [Observed, Knowledge, Workspace]"

definition layer_try_from :: "u8 \<Rightarrow> Layer result" where
  "layer_try_from v =
     (if v = 0 then Ok Observed
      else if v = 1 then Ok Knowledge
      else if v = 2 then Ok Workspace
      else Err (invalid_data ''invalid layer byte''))"

datatype EntityKind = Node | Relationship

type_synonym DocumentList = bytes
type_synonym DocumentMap = bytes

datatype ScalarValue =
    SNull
  | SBoolean bool
  | SInteger i64
  | SFloat f64
  | SString str
  | SBytes bytes
  | SDate i64
  | SLocalTime i64
  | SZonedTime i64 i32
  | SLocalDateTime i64 u32
  | SZonedDateTime i64 u32 str
  | SDuration i64 i64 i64 i32
  | SList DocumentList
  | SMap DocumentMap

definition type_name :: "ScalarValue \<Rightarrow> string" where
  "type_name v = (case v of
       SNull \<Rightarrow> ''NULL''
     | SBoolean _ \<Rightarrow> ''BOOLEAN''
     | SInteger _ \<Rightarrow> ''INTEGER''
     | SFloat _ \<Rightarrow> ''FLOAT''
     | SString _ \<Rightarrow> ''STRING''
     | SBytes _ \<Rightarrow> ''BYTES''
     | SDate _ \<Rightarrow> ''DATE''
     | SLocalTime _ \<Rightarrow> ''LOCAL TIME''
     | SZonedTime _ _ \<Rightarrow> ''ZONED TIME''
     | SLocalDateTime _ _ \<Rightarrow> ''LOCAL DATETIME''
     | SZonedDateTime _ _ _ \<Rightarrow> ''ZONED DATETIME''
     | SDuration _ _ _ _ \<Rightarrow> ''DURATION''
     | SList _ \<Rightarrow> ''LIST''
     | SMap _ \<Rightarrow> ''MAP'')"

definition is_document :: "ScalarValue \<Rightarrow> bool" where
  "is_document v = (case v of SList _ \<Rightarrow> True | SMap _ \<Rightarrow> True | _ \<Rightarrow> False)"

lemma is_document_simps [simp]:
  "\<not> is_document SNull" "\<not> is_document (SBoolean b)" "\<not> is_document (SInteger i)"
  "\<not> is_document (SFloat f)" "\<not> is_document (SString s)" "\<not> is_document (SBytes bs)"
  "\<not> is_document (SDate d)" "\<not> is_document (SLocalTime t)" "\<not> is_document (SZonedTime n s')"
  "\<not> is_document (SLocalDateTime s'' n')" "\<not> is_document (SZonedDateTime s3 n3 z)"
  "\<not> is_document (SDuration a b' c d')"
  "is_document (SList l)" "is_document (SMap m)"
  by (simp_all add: is_document_def)

lemma layer_try_from_byte [simp]: "layer_try_from (layer_byte l) = Ok l"
  by (cases l) (simp_all add: layer_try_from_def layer_byte_def)

text \<open>Strings of the model are Rust strings when they are valid UTF-8.\<close>

fun scalar_utf8 :: "ScalarValue \<Rightarrow> bool" where
  "scalar_utf8 (SString s) = valid_utf8 s"
| "scalar_utf8 (SZonedDateTime _ _ z) = valid_utf8 z"
| "scalar_utf8 _ = True"

datatype DocumentItem =
    DScalar ScalarValue
  | DList "DocumentItem list"
  | DMap "(str \<times> DocumentItem) list"

datatype DocumentRoot = RootList | RootMap

end
