(* ===== verification/Ordered_Number.thy ===== *)
theory Ordered_Number
  imports Scalar_Value Complex_Main
begin

text \<open>
  Exact comparison of integers and floats, \<^verbatim>\<open>crates/execution/src/ordering.rs\<close> and
  \<^verbatim>\<open>order_key.rs\<close>: both number kinds are mapped to a triple of category, biased exponent and
  left-aligned significand whose lexicographic order is the order of the numbers. The reference is
  the real number an \<open>i64\<close> or \<open>f64\<close> denotes.
\<close>

unbundle bit_operations_syntax

subsection \<open>Reading floats as numbers\<close>

text \<open>
  Every finite \<open>f64\<close> is a multiple of \<open>2 ^ -1074\<close>; \<open>f64_scaled\<close> is that multiple by the IEEE-754
  interchange format.
\<close>

definition f64_negative :: "f64 \<Rightarrow> bool" where
  "f64_negative b = (drop_bit 63 b \<noteq> 0)"

definition f64_magnitude :: "f64 \<Rightarrow> nat" where
  "f64_magnitude b =
     (let e = unat (f64_exponent_bits b); f = unat (f64_fraction b)
      in if e = 0 then f else (2 ^ 52 + f) * 2 ^ (e - 1))"

definition f64_scaled :: "f64 \<Rightarrow> int" where
  "f64_scaled b = (if f64_negative b then - int (f64_magnitude b) else int (f64_magnitude b))"

definition f64_real :: "f64 \<Rightarrow> real" where
  "f64_real b = real_of_int (f64_scaled b) / 2 ^ 1074"

text \<open>\<open>PartialOrd\<close> of \<open>f64\<close>: NaN is unordered, infinities bound the finite numbers.\<close>

definition f64_level :: "f64 \<Rightarrow> int" where
  "f64_level b =
     (if f64_is_finite b then 0 else if f64_negative b then - 1 else 1)"

definition f64_partial_cmp :: "f64 \<Rightarrow> f64 \<Rightarrow> Ordering option" where
  "f64_partial_cmp a b =
     (if f64_is_nan a \<or> f64_is_nan b then None
      else Some (then_with (cmp (f64_level a) (f64_level b))
        (if f64_is_finite a then cmp (f64_scaled a) (f64_scaled b) else Equal)))"

text \<open>
  \<open>OrderedFloat<f64>\<close> comes from a library. Its documentation fixes its order: the float order,
  with NaN equal to itself and greater than every number.
\<close>

type_synonym float_order = "f64 \<Rightarrow> f64 \<Rightarrow> Ordering"

definition ordered_float_law :: "float_order \<Rightarrow> bool" where
  "ordered_float_law fo \<longleftrightarrow> (\<forall>a b. fo a b =
     (case f64_partial_cmp a b of
        Some o' \<Rightarrow> o'
      | None \<Rightarrow> cmp (f64_is_nan a) (f64_is_nan b)))"

definition reference_float_order :: float_order where
  "reference_float_order a b =
     (case f64_partial_cmp a b of Some o' \<Rightarrow> o' | None \<Rightarrow> cmp (f64_is_nan a) (f64_is_nan b))"

lemma reference_float_order_law: "ordered_float_law reference_float_order"
  by (simp add: ordered_float_law_def reference_float_order_def)

subsection \<open>The comparison triple\<close>

datatype OrderedNumber =
  OrderedNumber (category: u8) (exponent: u16) (significand: u64)

text \<open>The derived \<open>Ord\<close> is lexicographic in field order.\<close>

instantiation OrderedNumber :: linorder
begin

definition less_OrderedNumber :: "OrderedNumber \<Rightarrow> OrderedNumber \<Rightarrow> bool" where
  "less_OrderedNumber x y \<longleftrightarrow>
     category x < category y \<or> category x = category y \<and>
      (exponent x < exponent y \<or> exponent x = exponent y \<and> significand x < significand y)"

definition less_eq_OrderedNumber :: "OrderedNumber \<Rightarrow> OrderedNumber \<Rightarrow> bool" where
  "less_eq_OrderedNumber x y \<longleftrightarrow> x < y \<or> x = y"

instance
  by intro_classes
    (auto simp: less_OrderedNumber_def less_eq_OrderedNumber_def intro: OrderedNumber.expand)

end

lemma cmp_OrderedNumber:
  "cmp (OrderedNumber a b c) (OrderedNumber d e f) = then_with (cmp a d) (then_with (cmp b e) (cmp c f))"
  by (auto simp: cmp_def less_OrderedNumber_def)

abbreviation NEGATIVE_INFINITY :: u8 where "NEGATIVE_INFINITY \<equiv> 1"
abbreviation NEGATIVE_FINITE :: u8 where "NEGATIVE_FINITE \<equiv> 2"
abbreviation ZERO :: u8 where "ZERO \<equiv> 3"
abbreviation POSITIVE_FINITE :: u8 where "POSITIVE_FINITE \<equiv> 4"
abbreviation POSITIVE_INFINITY :: u8 where "POSITIVE_INFINITY \<equiv> 5"
abbreviation NAN :: u8 where "NAN \<equiv> 6"
abbreviation MIN_BINARY_EXPONENT :: int where "MIN_BINARY_EXPONENT \<equiv> - 1074"

definition number_category :: "u8 \<Rightarrow> OrderedNumber" where
  "number_category c = OrderedNumber c 0 0"

definition number_zero :: OrderedNumber where
  "number_zero = number_category ZERO"

definition ordered_finite :: "bool \<Rightarrow> int \<Rightarrow> u64 \<Rightarrow> OrderedNumber" where
  "ordered_finite neg e s =
     (let biased = word_of_int (e - MIN_BINARY_EXPONENT) :: u16
      in if neg then OrderedNumber NEGATIVE_FINITE (NOT biased) (NOT s)
         else OrderedNumber POSITIVE_FINITE biased s)"

fun bit_width :: "nat \<Rightarrow> nat" where
  "bit_width n = (if n = 0 then 0 else Suc (bit_width (n div 2)))"

declare bit_width.simps [simp del]

definition leading_zeros :: "u64 \<Rightarrow> nat" where
  "leading_zeros w = 64 - bit_width (unat w)"

definition unsigned_abs :: "i64 \<Rightarrow> u64" where
  "unsigned_abs v = (if sint v < 0 then - v else v)"

definition ordered_integer :: "i64 \<Rightarrow> OrderedNumber" where
  "ordered_integer v =
     (if v = 0 then number_zero
      else
        let magnitude = unsigned_abs v;
            width = 64 - leading_zeros magnitude
        in ordered_finite (sint v < 0) (int width - 1) (push_bit (64 - width) magnitude))"

definition ordered_float :: "f64 \<Rightarrow> OrderedNumber" where
  "ordered_float b =
     (if f64_is_nan b then number_category NAN
      else if b = f64_negative_infinity then number_category NEGATIVE_INFINITY
      else if b = f64_positive_infinity then number_category POSITIVE_INFINITY
      else if f64_is_zero b then number_zero
      else
        let negative = (drop_bit 63 b \<noteq> 0);
            stored_exponent = uint (drop_bit 52 b AND 0x7FF);
            fraction = b AND (push_bit 52 1 - 1);
            (e, s) =
              (if stored_exponent = 0 then
                 let width = 64 - leading_zeros fraction
                 in (MIN_BINARY_EXPONENT + int width - 1, push_bit (64 - width) fraction)
               else (stored_exponent - 1023, push_bit 11 (push_bit 52 1 OR fraction)))
        in ordered_finite negative e s)"

definition compare_i64_f64 :: "i64 \<Rightarrow> f64 \<Rightarrow> Ordering" where
  "compare_i64_f64 i f = cmp (ordered_integer i) (ordered_float f)"

subsection \<open>Aligned numbers compare as integers\<close>

lemma bit_width_bounds: "0 < n \<Longrightarrow> 2 ^ (bit_width n - 1) \<le> n \<and> n < 2 ^ bit_width n \<and> 0 < bit_width n"
proof (induction n rule: bit_width.induct)
  case (1 n)
  show ?case
  proof (cases "n div 2 = 0")
    case True
    with "1.prems" have "n = 1" by linarith
    then show ?thesis by (simp add: bit_width.simps)
  next
    case False
    with 1 have IH: "2 ^ (bit_width (n div 2) - 1) \<le> n div 2" "n div 2 < 2 ^ bit_width (n div 2)"
      "0 < bit_width (n div 2)" by auto
    have b: "bit_width n = Suc (bit_width (n div 2))" using "1.prems" by (simp add: bit_width.simps)
    have "(2::nat) ^ bit_width (n div 2) = 2 * 2 ^ (bit_width (n div 2) - 1)"
      using IH(3) by (metis Suc_diff_1 power_Suc)
    with IH b show ?thesis by simp linarith
  qed
qed

lemma bit_width_le: "0 < n \<Longrightarrow> n < 2 ^ k \<Longrightarrow> bit_width n \<le> k"
  using bit_width_bounds[of n] power_strict_increasing_iff[of "2::nat" "bit_width n - 1" k]
  by (metis Suc_diff_1 Suc_leI le_less_trans numeral_One numeral_less_iff semiring_norm(76))

lemma unat_push_bit: "unat m * 2 ^ k < 2 ^ LENGTH('a) \<Longrightarrow> unat (push_bit k (m :: 'a::len word)) = unat m * 2 ^ k"
  unfolding unsigned_push_bit_eq by (simp add: push_bit_eq_mult take_bit_eq_mod)

lemma align_left:
  fixes m :: u64
  assumes "m \<noteq> 0"
  defines "w \<equiv> 64 - leading_zeros m"
  shows "unat (push_bit (64 - w) m) = unat m * 2 ^ (64 - w)" "2 ^ 63 \<le> unat (push_bit (64 - w) m)"
    "0 < w" "w \<le> 64" "unat m < 2 ^ w"
proof -
  have m: "0 < unat m" using assms(1) by (simp add: unat_gt_0)
  have lt: "unat m < 2 ^ 64" using unsigned_less[of m, where ?'a = nat] by simp
  have w: "w = bit_width (unat m)" using bit_width_le[OF m lt] by (simp add: w_def leading_zeros_def)
  note b = bit_width_bounds[OF m, folded w]
  show w64: "w \<le> 64" using bit_width_le[OF m lt] w by simp
  have "unat m * 2 ^ (64 - w) < 2 ^ w * 2 ^ (64 - w)" using b by simp
  also have "\<dots> = 2 ^ 64" using w64 by (simp flip: power_add)
  finally show u: "unat (push_bit (64 - w) m) = unat m * 2 ^ (64 - w)"
    by (intro unat_push_bit) simp
  have "(2::nat) ^ 63 = 2 ^ (w - 1) * 2 ^ (64 - w)" using w64 b by (simp flip: power_add)
  also have "\<dots> \<le> unat m * 2 ^ (64 - w)" using b by simp
  finally show "2 ^ 63 \<le> unat (push_bit (64 - w) m)" using u by simp
  show "0 < w" "unat m < 2 ^ w" using b by auto
qed

lemma cmp_aligned:
  fixes s t a b :: nat
  assumes "2 ^ 63 \<le> s" "s < 2 ^ 64" "2 ^ 63 \<le> t" "t < 2 ^ 64"
  shows "cmp (s * 2 ^ a) (t * 2 ^ b) = then_with (cmp a b) (cmp s t)"
proof -
  have step: "s * 2 ^ a < t * 2 ^ b"
    if "s < 2 ^ 64" "2 ^ 63 \<le> t" "a < b" for s t a b :: nat
  proof -
    have "s * 2 ^ a < 2 ^ 64 * 2 ^ a" using that by simp
    also have "\<dots> = 2 ^ 63 * 2 ^ Suc a" by simp
    also have "\<dots> \<le> 2 ^ 63 * 2 ^ b" using that by (intro mult_le_mono2 power_increasing) auto
    also have "\<dots> \<le> t * 2 ^ b" using that by simp
    finally show ?thesis .
  qed
  show ?thesis
    using assms step[of s t a b] step[of t s b a]
    by (cases a b rule: linorder_cases) (auto simp: cmp_def)
qed

lemma uint_NOT: "uint (NOT v) = 2 ^ LENGTH('a) - 1 - uint v" for v :: "'a::len word"
proof -
  have "uint (NOT v) = (- uint v - 1) mod 2 ^ LENGTH('a)"
    by (subst unsigned_not_eq) (simp add: not_int_def take_bit_eq_mod)
  also have "- uint v - 1 = (2 ^ LENGTH('a) - 1 - uint v) + (- 1) * 2 ^ LENGTH('a)" by simp
  also have "\<dots> mod 2 ^ LENGTH('a) = (2 ^ LENGTH('a) - 1 - uint v) mod 2 ^ LENGTH('a)"
    by (rule mod_mult_self1)
  also have "\<dots> = 2 ^ LENGTH('a) - 1 - uint v"
    using unsigned_less[of v, where ?'a = int] unsigned_greater_eq[of v, where ?'a = int]
    by (intro mod_pos_pos_trivial) linarith+
  finally show ?thesis .
qed

lemma cmp_NOT: "cmp (NOT v) (NOT w) = cmp w v" for v w :: "'a::len word"
  by (simp add: cmp_def word_less_def uint_NOT)

definition aligned_value :: "u64 \<Rightarrow> u16 \<Rightarrow> nat" where
  "aligned_value s e = unat s * 2 ^ unat e"

lemma aligned_value_pos: "2 ^ 63 \<le> unat s \<Longrightarrow> 0 < aligned_value s e"
  by (simp add: aligned_value_def)

lemma cmp_aligned_value:
  "2 ^ 63 \<le> unat s \<Longrightarrow> 2 ^ 63 \<le> unat t \<Longrightarrow>
   cmp (aligned_value s e) (aligned_value t f) = then_with (cmp e f) (cmp s t)"
  using cmp_aligned[of "unat s" "unat t" "unat e" "unat f"]
    unsigned_less[of s, where ?'a = nat] unsigned_less[of t, where ?'a = nat]
  by (simp add: aligned_value_def cmp_unat)

definition number_scaled :: "OrderedNumber \<Rightarrow> int" where
  "number_scaled n =
     (if category n = POSITIVE_FINITE then int (aligned_value (significand n) (exponent n))
      else if category n = NEGATIVE_FINITE then
        - int (aligned_value (NOT (significand n)) (NOT (exponent n)))
      else 0)"

definition number_aligned :: "OrderedNumber \<Rightarrow> bool" where
  "number_aligned n \<longleftrightarrow>
     n = number_zero \<or>
     category n = POSITIVE_FINITE \<and> 2 ^ 63 \<le> unat (significand n) \<or>
     category n = NEGATIVE_FINITE \<and> 2 ^ 63 \<le> unat (NOT (significand n))"

lemma cmp_signed_nat:
  "cmp (- int a) (- int b) = cmp b a"
  "cmp (int a) (int b) = cmp a b"
  "0 < a \<Longrightarrow> cmp (- int a) (int b) = Less"
  "0 < a \<Longrightarrow> cmp (int b) (- int a) = Greater"
  "0 < a \<Longrightarrow> cmp (int a) 0 = Greater"
  "0 < a \<Longrightarrow> cmp 0 (int a) = Less"
  "0 < a \<Longrightarrow> cmp (- int a) 0 = Less"
  "0 < a \<Longrightarrow> cmp 0 (- int a) = Greater"
  by (auto simp: cmp_def)

lemma cmp_number_scaled:
  assumes "number_aligned m" "number_aligned n"
  shows "cmp m n = cmp (number_scaled m) (number_scaled n)"
proof -
  obtain c e s d f t where mn: "m = OrderedNumber c e s" "n = OrderedNumber d f t"
    by (cases m; cases n)
  have "cmp (x :: u8) y = (if x < y then Less else Greater)" if "x \<noteq> y" for x y
    using that by (simp add: cmp_def)
  note * = cmp_signed_nat aligned_value_pos cmp_aligned_value cmp_NOT this
  show ?thesis
    using assms unfolding number_aligned_def mn number_scaled_def
    by (auto simp: cmp_OrderedNumber * number_zero_def number_category_def)
qed

lemma ordered_finite_scaled:
  assumes "- 1074 \<le> e" "e < 64000" "2 ^ 63 \<le> unat s"
  shows "number_aligned (ordered_finite neg e s)"
    "number_scaled (ordered_finite neg e s) =
       (if neg then - 1 else 1) * int (unat s * 2 ^ nat (e + 1074))"
proof -
  define b where "b = (word_of_int (e + 1074) :: u16)"
  have "uint b = (e + 1074) mod 2 ^ 16" by (simp only: b_def uint_word_of_int len_bit0 len_num1) simp
  also have "\<dots> = e + 1074" using assms by (intro mod_pos_pos_trivial) simp_all
  finally have ub: "unat b = nat (e + 1074)" by (simp only: unat_eq_nat_uint)
  have f: "ordered_finite neg e s = (if neg then OrderedNumber NEGATIVE_FINITE (NOT b) (NOT s)
      else OrderedNumber POSITIVE_FINITE b s)" by (simp add: ordered_finite_def Let_def b_def)
  show "number_aligned (ordered_finite neg e s)"
    using assms(3) by (simp add: f number_aligned_def)
  show "number_scaled (ordered_finite neg e s) =
       (if neg then - 1 else 1) * int (unat s * 2 ^ nat (e + 1074))"
    by (simp add: f number_scaled_def aligned_value_def ub)
qed

lemma sint_range_i64: "- (2 ^ 63) \<le> sint (v :: i64)" "sint v < 2 ^ 63"
  using sint_ge[of v] sint_lt[of v] by simp_all

lemma unat_unsigned_abs: "int (unat (unsigned_abs v)) = \<bar>sint v\<bar>"
proof -
  have "unsigned_abs v = word_of_int \<bar>sint v\<bar>" by (simp add: unsigned_abs_def)
  then have "uint (unsigned_abs v) = \<bar>sint v\<bar> mod 2 ^ 64" by (simp add: uint_word_of_int)
  also have "\<dots> = \<bar>sint v\<bar>" using sint_range_i64[of v] by (intro mod_pos_pos_trivial) auto
  finally show ?thesis by simp
qed

lemma sign_times_abs: "(if x < 0 then - 1 else 1) * (\<bar>x\<bar> * k) = x * k" for x k :: int
  by simp

lemma ordered_integer_scaled:
  "number_aligned (ordered_integer v)" "number_scaled (ordered_integer v) = sint v * 2 ^ 1137"
proof -
  have "number_aligned (ordered_integer v) \<and> number_scaled (ordered_integer v) = sint v * 2 ^ 1137"
  proof (cases "v = 0")
    case True
    then show ?thesis
      by (simp add: ordered_integer_def number_aligned_def number_scaled_def number_zero_def number_category_def)
  next
    case False
    let ?m = "unsigned_abs v"
    define w where "w = 64 - leading_zeros ?m"
    have m: "?m \<noteq> 0" using False unat_unsigned_abs[of v] signed_eq_0_iff[of v] by force
    note al = align_left[OF m, folded w_def]
    have o: "ordered_integer v = ordered_finite (sint v < 0) (int w - 1) (push_bit (64 - w) ?m)"
      using False by (simp add: ordered_integer_def w_def Let_def)
    have e: "- 1074 \<le> int w - 1" "int w - 1 < 64000" using al by auto
    have n: "nat (int w - 1 + 1074) = w + 1073" by simp
    have m2: "unat ?m * 2 ^ (64 - w) * 2 ^ (w + 1073) = unat ?m * 2 ^ (64 - w + (w + 1073))"
      by (simp only: power_add mult.assoc)
    have k: "64 - w + (w + 1073) = 1137" using al(4) by simp
    have "number_scaled (ordered_integer v) =
        (if sint v < 0 then - 1 else 1) * (int (unat ?m) * 2 ^ 1137)"
      unfolding o ordered_finite_scaled(2)[OF e al(2)] al(1) n m2 k of_nat_mult of_nat_power of_nat_numeral
      by (rule refl)
    then have "number_scaled (ordered_integer v) = sint v * 2 ^ 1137"
      unfolding unat_unsigned_abs sign_times_abs .
    with ordered_finite_scaled(1)[OF e al(2), of "sint v < 0"] o show ?thesis by (simp only: simp_thms)
  qed
  then show "number_aligned (ordered_integer v)" "number_scaled (ordered_integer v) = sint v * 2 ^ 1137" by auto
qed

lemma push_one_AND_take_bit: "push_bit n 1 AND take_bit n w = 0" for w :: "'a::len word"
  by (rule bit_word_eqI) (auto simp: bit_simps)

lemma f64_fraction_take_bit: "f64_fraction b = take_bit 52 b"
  by (simp add: f64_fraction_def take_bit_eq_mask mask_eq_exp_minus_1 push_bit_eq_mult)

lemma unat_f64_fraction: "unat (f64_fraction b) < 2 ^ 52"
  using take_bit_nat_less_exp[of 52 "unat b"] by (simp add: f64_fraction_take_bit unsigned_take_bit_eq)

lemma f64_leading_bit:
  "unat (push_bit 11 (push_bit 52 1 OR f64_fraction b)) = (2 ^ 52 + unat (f64_fraction b)) * 2 ^ 11"
proof -
  have "push_bit 52 1 OR f64_fraction b = push_bit 52 1 + f64_fraction b"
    by (rule disjunctive_add_eq_or[symmetric])
      (simp only: f64_fraction_take_bit push_one_AND_take_bit)
  moreover have "unat (push_bit 52 1 + f64_fraction b :: u64) = 2 ^ 52 + unat (f64_fraction b)"
    using unat_f64_fraction[of b] by (simp add: unat_word_ariths)
  ultimately show ?thesis using unat_f64_fraction[of b] by (subst unat_push_bit) simp_all
qed

lemma unat_f64_fields:
  "unat (f64_fraction b) = unat b mod 2 ^ 52"
  "unat (f64_exponent_bits b) = unat b div 2 ^ 52 mod 2 ^ 11"
proof -
  show "unat (f64_fraction b) = unat b mod 2 ^ 52"
    unfolding f64_fraction_take_bit unsigned_take_bit_eq by (simp add: take_bit_eq_mod)
  have "f64_exponent_bits b = take_bit 11 (drop_bit 52 b)"
    by (simp add: f64_exponent_bits_def take_bit_eq_mask mask_eq_exp_minus_1)
  then show "unat (f64_exponent_bits b) = unat b div 2 ^ 52 mod 2 ^ 11"
    by (simp only: unsigned_take_bit_eq unat_drop_bit_eq)
      (simp add: take_bit_eq_mod drop_bit_eq_div)
qed

lemma f64_zero_fields:
  assumes "f64_exponent_bits b = 0" "f64_fraction b = 0"
  shows "f64_is_zero b"
proof -
  have m: "unat b mod 2 ^ 52 = 0" "unat b div 2 ^ 52 mod 2 ^ 11 = 0"
    using assms unat_f64_fields[of b] by simp_all
  have "unat b < 2 ^ 64" using unsigned_less[of b, where ?'a = nat] by simp
  moreover obtain q where "unat b = 2 ^ 52 * (2 ^ 11 * q)"
    using m by (metis mod_0_imp_dvd dvdE dvd_mult_div_cancel)
  ultimately have "unat b = 2 ^ 63 * q" "q < 2" by simp_all
  then have "unat b = 0 \<or> unat b = 2 ^ 63" by (cases q) simp_all
  moreover have "unat (0x8000000000000000 :: u64) = 2 ^ 63" by simp
  ultimately show ?thesis unfolding f64_is_zero_def by (metis unsigned_0 unsigned_word_eqI)
qed

lemma f64_infinite_fields [simp]:
  "f64_exponent_bits f64_negative_infinity = 0x7FF" "f64_exponent_bits f64_positive_infinity = 0x7FF"
  by code_simp+

lemma ordered_float_nonzero:
  assumes "f64_is_finite b" "\<not> f64_is_zero b"
  shows "ordered_float b =
    (let w = 64 - leading_zeros (f64_fraction b)
     in if f64_exponent_bits b = 0
        then ordered_finite (f64_negative b) (- 1074 + int w - 1) (push_bit (64 - w) (f64_fraction b))
        else ordered_finite (f64_negative b) (uint (f64_exponent_bits b) - 1023)
          (push_bit 11 (push_bit 52 1 OR f64_fraction b)))"
proof -
  have nn: "\<not> f64_is_nan b" "b \<noteq> f64_negative_infinity" "b \<noteq> f64_positive_infinity"
    using assms by (auto simp: f64_is_finite_def f64_is_nan_def)
  have z: "uint (f64_exponent_bits b) = 0 \<longleftrightarrow> f64_exponent_bits b = 0" by (metis unsigned_0 unsigned_word_eqI)
  show ?thesis
    unfolding ordered_float_def Let_def f64_exponent_bits_def[symmetric] f64_fraction_def[symmetric]
      f64_negative_def[symmetric] z
    by (cases "f64_exponent_bits b = 0") (simp_all only: nn assms if_True if_False prod.case simp_thms)
qed

lemma f64_zero_scaled: "f64_is_zero b \<Longrightarrow> f64_scaled b = 0"
proof -
  have "f64_magnitude 0 = 0" "f64_magnitude 0x8000000000000000 = 0"
    by (simp_all add: f64_magnitude_def f64_exponent_bits_def f64_fraction_def)
  then show "f64_is_zero b \<Longrightarrow> f64_scaled b = 0" by (auto simp: f64_is_zero_def f64_scaled_def)
qed

lemma ordered_float_subnormal:
  assumes "f64_is_finite b" "\<not> f64_is_zero b" "f64_exponent_bits b = 0"
  shows "number_aligned (ordered_float b) \<and> number_scaled (ordered_float b) = f64_scaled b * 2 ^ 63"
proof -
  let ?f = "f64_fraction b"
  define w where "w = 64 - leading_zeros ?f"
  have f: "?f \<noteq> 0" using f64_zero_fields assms by auto
  note al = align_left[OF f, folded w_def]
  have o: "ordered_float b = ordered_finite (f64_negative b) (- 1074 + int w - 1) (push_bit (64 - w) ?f)"
    using assms(3) unfolding ordered_float_nonzero[OF assms(1,2)] w_def Let_def by simp
  have e: "- 1074 \<le> - 1074 + int w - 1" "- 1074 + int w - 1 < 64000" using al by auto
  have n: "nat (- 1074 + int w - 1 + 1074) = w - 1" by simp
  have "64 - w + (w - 1) = 63" using al(3,4) by simp
  then have m: "unat ?f * 2 ^ (64 - w) * 2 ^ (w - 1) = unat ?f * 2 ^ 63"
    by (metis mult.assoc power_add)
  have g: "f64_magnitude b = unat ?f" using assms(3) by (simp add: f64_magnitude_def Let_def)
  show ?thesis
    using ordered_finite_scaled[OF e al(2), of "f64_negative b"]
    unfolding o f64_scaled_def g al(1) n m by simp
qed

lemma ordered_float_normal:
  assumes "f64_is_finite b" "\<not> f64_is_zero b" "f64_exponent_bits b \<noteq> 0"
  shows "number_aligned (ordered_float b) \<and> number_scaled (ordered_float b) = f64_scaled b * 2 ^ 63"
proof -
  let ?f = "f64_fraction b" and ?e = "f64_exponent_bits b"
  define s where "s = push_bit 11 (push_bit 52 1 OR ?f)"
  have us: "unat s = (2 ^ 52 + unat ?f) * 2 ^ 11" unfolding s_def by (rule f64_leading_bit)
  have s: "2 ^ 63 \<le> unat s" unfolding us by simp
  have o: "ordered_float b = ordered_finite (f64_negative b) (uint ?e - 1023) s"
    using assms(3) unfolding ordered_float_nonzero[OF assms(1,2)] s_def Let_def by simp
  have ue: "unat ?e < 2048" using unat_f64_fields(2)[of b] by simp
  have ue0: "0 < unat ?e" using assms(3) by (simp add: unat_gt_0)
  have ui: "uint ?e = int (unat ?e)" by simp
  have e: "- 1074 \<le> uint ?e - 1023" "uint ?e - 1023 < 64000" unfolding ui using ue by linarith+
  have n: "nat (uint ?e - 1023 + 1074) = unat ?e + 51" unfolding ui by linarith
  have k: "(11::nat) + (unat ?e + 51) = (unat ?e - 1) + 63" using ue0 by simp
  have m: "k * 2 ^ 11 * 2 ^ (unat ?e + 51) = k * 2 ^ (unat ?e - 1) * 2 ^ 63" for k :: nat
    by (simp only: mult.assoc power_add[symmetric] k)
  have g: "f64_magnitude b = (2 ^ 52 + unat ?f) * 2 ^ (unat ?e - 1)"
    using ue0 by (simp add: f64_magnitude_def Let_def)
  have "int (unat s * 2 ^ nat (uint ?e - 1023 + 1074)) = int (f64_magnitude b) * 2 ^ 63"
    unfolding us n m g of_nat_mult of_nat_power by simp
  then show ?thesis
    using ordered_finite_scaled[OF e s, of "f64_negative b"] unfolding o f64_scaled_def by simp
qed

lemma number_zero_scaled [simp]: "number_aligned number_zero" "number_scaled number_zero = 0"
  by (simp_all add: number_aligned_def number_scaled_def number_zero_def number_category_def)

lemma ordered_float_scaled:
  assumes "f64_is_finite b"
  shows "number_aligned (ordered_float b)" "number_scaled (ordered_float b) = f64_scaled b * 2 ^ 63"
proof -
  have "\<not> f64_is_nan b" "b \<noteq> f64_negative_infinity" "b \<noteq> f64_positive_infinity"
    using assms by (auto simp: f64_is_finite_def f64_is_nan_def)
  then have "ordered_float b = number_zero" if "f64_is_zero b"
    using that by (simp add: ordered_float_def)
  then show "number_aligned (ordered_float b)" "number_scaled (ordered_float b) = f64_scaled b * 2 ^ 63"
    using ordered_float_subnormal[OF assms] ordered_float_normal[OF assms] f64_zero_scaled[of b]
    by (cases "f64_is_zero b"; cases "f64_exponent_bits b = 0"; simp)+
qed

lemma f64_infinite_cases:
  assumes "\<not> f64_is_finite b" "\<not> f64_is_nan b"
  shows "b = f64_negative_infinity \<or> b = f64_positive_infinity"
proof -
  have "unat (f64_exponent_bits b) = 2047" "unat (f64_fraction b) = 0"
    using assms by (simp_all add: f64_is_finite_def f64_is_nan_def)
  then have m: "unat b mod 2 ^ 52 = 0" "unat b div 2 ^ 52 mod 2 ^ 11 = 2047"
    unfolding unat_f64_fields by simp_all
  have "unat b < 2 ^ 64" using unsigned_less[of b, where ?'a = nat] by simp
  moreover have "unat b = 2 ^ 52 * (2 ^ 11 * (unat b div 2 ^ 52 div 2 ^ 11) + 2047)"
    using m mult_div_mod_eq[of "2 ^ 52" "unat b"] mult_div_mod_eq[of "2 ^ 11" "unat b div 2 ^ 52"] by simp
  moreover obtain q where "q = unat b div 2 ^ 52 div 2 ^ 11" by blast
  ultimately have "unat b = 2 ^ 52 * (2 ^ 11 * q + 2047)" "q < 2" by simp_all
  then have "unat b = 2 ^ 52 * 2047 \<or> unat b = 2 ^ 52 * 4095" by (cases q) simp_all
  moreover have "unat f64_positive_infinity = 2 ^ 52 * 2047" "unat f64_negative_infinity = 2 ^ 52 * 4095"
    by (simp_all add: f64_positive_infinity_def f64_negative_infinity_def)
  ultimately show ?thesis by (metis unsigned_word_eqI)
qed

lemma f64_infinite_simps [simp]:
  "\<not> f64_is_nan f64_negative_infinity" "\<not> f64_is_nan f64_positive_infinity"
  "\<not> f64_is_finite f64_negative_infinity" "\<not> f64_is_finite f64_positive_infinity"
  "f64_negative f64_negative_infinity" "\<not> f64_negative f64_positive_infinity"
  "f64_negative_infinity \<noteq> f64_positive_infinity" "f64_positive_infinity \<noteq> f64_negative_infinity"
  by (simp_all add: f64_is_nan_def f64_is_finite_def f64_fraction_def f64_negative_def)
    (simp_all add: f64_negative_infinity_def f64_positive_infinity_def)

lemma ordered_float_special [simp]:
  "f64_is_nan b \<Longrightarrow> ordered_float b = number_category NAN"
  "ordered_float f64_negative_infinity = number_category NEGATIVE_INFINITY"
  "ordered_float f64_positive_infinity = number_category POSITIVE_INFINITY"
  by (simp_all add: ordered_float_def)

lemma aligned_category:
  "number_aligned n \<Longrightarrow> cmp (number_category NAN) n = Greater"
  "number_aligned n \<Longrightarrow> cmp n (number_category NAN) = Less"
  "number_aligned n \<Longrightarrow> cmp (number_category NEGATIVE_INFINITY) n = Less"
  "number_aligned n \<Longrightarrow> cmp n (number_category NEGATIVE_INFINITY) = Greater"
  "number_aligned n \<Longrightarrow> cmp (number_category POSITIVE_INFINITY) n = Greater"
  "number_aligned n \<Longrightarrow> cmp n (number_category POSITIVE_INFINITY) = Less"
  by (cases n; auto simp: number_aligned_def number_category_def number_zero_def
      less_OrderedNumber_def)+

lemma nan_not_finite: "f64_is_nan b \<Longrightarrow> \<not> f64_is_finite b"
  by (simp add: f64_is_nan_def f64_is_finite_def)

lemma cmp_scale: "0 < k \<Longrightarrow> cmp (a * k) (b * k) = cmp a b" for a b k :: int
  by (simp add: cmp_def)

lemma f64_class_cases:
  obtains (nan) "f64_is_nan b" | (neg) "b = f64_negative_infinity" | (pos) "b = f64_positive_infinity"
    | (finite) "f64_is_finite b" "\<not> f64_is_nan b"
  using f64_infinite_cases nan_not_finite by blast

lemma cmp_category: "cmp (number_category c) (number_category d) = cmp c d"
  by (simp add: number_category_def cmp_OrderedNumber)

lemma cmp_concrete:
  "cmp True False = Greater" "cmp False True = Less"
  "cmp (- 1) (1::int) = Less" "cmp (1::int) (- 1) = Greater"
  "cmp (- 1) (0::int) = Less" "cmp (0::int) (- 1) = Greater"
  "cmp (1::int) 0 = Greater" "cmp (0::int) 1 = Less"
  by simp_all

lemma cmp_ordered_float:
  assumes "ordered_float_law fo"
  shows "cmp (ordered_float a) (ordered_float b) = fo a b"
proof -
  have fo: "fo a b = (case f64_partial_cmp a b of Some o' \<Rightarrow> o' | None \<Rightarrow> cmp (f64_is_nan a) (f64_is_nan b))"
    using assms by (simp add: ordered_float_law_def)
  have fin: "cmp (ordered_float a) (ordered_float b) = cmp (f64_scaled a) (f64_scaled b)"
    if "f64_is_finite a" "f64_is_finite b"
    using that by (simp add: cmp_number_scaled ordered_float_scaled cmp_scale)
  show ?thesis
    unfolding fo
    by (cases a rule: f64_class_cases; cases b rule: f64_class_cases)
      (simp_all add: f64_partial_cmp_def f64_level_def fin aligned_category ordered_float_scaled
        nan_not_finite cmp_category cmp_concrete)
qed

lemma real_as_quotient: "real_of_int a = real_of_int (a * 2 ^ n) / 2 ^ n"
  by simp

lemma cmp_quotients: "cmp a b = cmp (real_of_int a / 2 ^ n) (real_of_int b / 2 ^ n)"
  by (simp add: cmp_def divide_less_cancel)

lemma compare_i64_f64_finite:
  assumes "f64_is_finite f"
  shows "compare_i64_f64 i f = cmp (real_of_int (sint i)) (f64_real f)"
proof -
  have "compare_i64_f64 i f = cmp (sint i * 2 ^ 1137) (f64_scaled f * 2 ^ 63)"
    unfolding compare_i64_f64_def
    by (simp only: cmp_number_scaled ordered_float_scaled[OF assms] ordered_integer_scaled)
  also have "\<dots> = cmp (sint i * 2 ^ 1074) (f64_scaled f)"
    using cmp_scale[of "2 ^ 63" "sint i * 2 ^ 1074" "f64_scaled f"]
    by (simp only: mult.assoc power_add[symmetric]) simp
  also have "\<dots> = cmp (real_of_int (sint i)) (f64_real f)"
    unfolding f64_real_def real_as_quotient[of "sint i" 1074] by (rule cmp_quotients)
  finally show ?thesis .
qed

text \<open>
  C7. Integers and floats compare exactly. The comparison of an \<open>i64\<close> with an \<open>f64\<close> is the order
  of the two real numbers, without rounding either of them; NaN and the infinities take their
  places at the ends.
\<close>

theorem integer_float_exact:
  "compare_i64_f64 i f =
     (if f64_is_nan f \<or> f = f64_positive_infinity then Less
      else if f = f64_negative_infinity then Greater
      else cmp (real_of_int (sint i)) (f64_real f))"
  by (cases f rule: f64_class_cases)
    (auto simp: compare_i64_f64_finite nan_not_finite,
     simp_all add: compare_i64_f64_def aligned_category ordered_integer_scaled)

end
