(* ===== verification/Document_Encode.thy ===== *)
theory Document_Encode
  imports Scalar_Value
begin

text \<open>
  The encoder half of \<^verbatim>\<open>crates/types/src/document.rs\<close>. \<open>encode_item\<close> is the explicit-stack loop of
  the source, \<open>encode_loop\<close> one turn of it per equation; allocation is asked of an allocator
  parameter at every point where the source calls \<open>try_reserve\<close>. The reference encoder
  \<open>enc_item\<close> is plain structural recursion; the loop is shown to compute it.
\<close>

subsection \<open>Wire constants and errors\<close>

abbreviation FORMAT_VERSION :: u8 where "FORMAT_VERSION \<equiv> 3"
abbreviation ENCODED_LENGTH_BYTES :: nat where "ENCODED_LENGTH_BYTES \<equiv> 8"

abbreviation DOC_NULL :: u8 where "DOC_NULL \<equiv> 0"
abbreviation DOC_FALSE :: u8 where "DOC_FALSE \<equiv> 1"
abbreviation DOC_TRUE :: u8 where "DOC_TRUE \<equiv> 2"
abbreviation DOC_INTEGER :: u8 where "DOC_INTEGER \<equiv> 3"
abbreviation DOC_FLOAT :: u8 where "DOC_FLOAT \<equiv> 4"
abbreviation DOC_STRING :: u8 where "DOC_STRING \<equiv> 5"
abbreviation DOC_BYTES :: u8 where "DOC_BYTES \<equiv> 6"
abbreviation DOC_DATE :: u8 where "DOC_DATE \<equiv> 7"
abbreviation DOC_LOCAL_TIME :: u8 where "DOC_LOCAL_TIME \<equiv> 8"
abbreviation DOC_ZONED_TIME :: u8 where "DOC_ZONED_TIME \<equiv> 9"
abbreviation DOC_LOCAL_DATETIME :: u8 where "DOC_LOCAL_DATETIME \<equiv> 10"
abbreviation DOC_ZONED_DATETIME :: u8 where "DOC_ZONED_DATETIME \<equiv> 11"
abbreviation DOC_DURATION :: u8 where "DOC_DURATION \<equiv> 12"
abbreviation DOC_LIST :: u8 where "DOC_LIST \<equiv> 13"
abbreviation DOC_MAP :: u8 where "DOC_MAP \<equiv> 14"

definition root_tag :: "DocumentRoot \<Rightarrow> u8" where
  "root_tag r = (case r of RootList \<Rightarrow> DOC_LIST | RootMap \<Rightarrow> DOC_MAP)"

definition document_address_space_exhausted :: Error where
  "document_address_space_exhausted =
     new_error ResultBudgetExceeded ''document length exceeds the canonical u64 address space''"

definition document_allocation_failed :: Error where
  "document_allocation_failed =
     new_error ResultBudgetExceeded
       ''document bytes or traversal state cannot be allocated in the host address space''"

definition corrupt :: "string \<Rightarrow> Error" where
  "corrupt m = new_error CorruptStorage m"

subsection \<open>Output primitives\<close>

definition push_byte :: "allocator \<Rightarrow> bytes \<Rightarrow> u8 \<Rightarrow> bytes result" where
  "push_byte alloc out v =
     (if alloc (length out + 1) then Ok (out @ [v]) else Err document_allocation_failed)"

definition extend_output :: "allocator \<Rightarrow> bytes \<Rightarrow> bytes \<Rightarrow> bytes result" where
  "extend_output alloc out bs =
     (if alloc (length out + length bs) then Ok (out @ bs) else Err document_allocation_failed)"

definition push_len :: "allocator \<Rightarrow> bytes \<Rightarrow> nat \<Rightarrow> bytes result" where
  "push_len alloc out n =
     (if n < 2 ^ 64 then extend_output alloc out (to_le_bytes (word_of_nat n :: u64))
      else Err document_address_space_exhausted)"

definition push_bytes :: "allocator \<Rightarrow> bytes \<Rightarrow> bytes \<Rightarrow> bytes result" where
  "push_bytes alloc out bs =
     and_then (push_len alloc out (length bs)) (\<lambda>out. extend_output alloc out bs)"

definition canonical_f64 :: "f64 \<Rightarrow> f64" where
  "canonical_f64 b = (if f64_is_nan b then f64_nan else if f64_is_zero b then 0 else b)"

fun encode_scalar :: "allocator \<Rightarrow> bytes \<Rightarrow> ScalarValue \<Rightarrow> bytes result" where
  "encode_scalar alloc out SNull = push_byte alloc out DOC_NULL"
| "encode_scalar alloc out (SBoolean False) = push_byte alloc out DOC_FALSE"
| "encode_scalar alloc out (SBoolean True) = push_byte alloc out DOC_TRUE"
| "encode_scalar alloc out (SInteger i) =
     and_then (push_byte alloc out DOC_INTEGER) (\<lambda>out. extend_output alloc out (to_le_bytes i))"
| "encode_scalar alloc out (SFloat f) =
     and_then (push_byte alloc out DOC_FLOAT)
       (\<lambda>out. extend_output alloc out (to_le_bytes (canonical_f64 f)))"
| "encode_scalar alloc out (SString s) =
     and_then (push_byte alloc out DOC_STRING) (\<lambda>out. push_bytes alloc out s)"
| "encode_scalar alloc out (SBytes bs) =
     and_then (push_byte alloc out DOC_BYTES) (\<lambda>out. push_bytes alloc out bs)"
| "encode_scalar alloc out (SDate d) =
     and_then (push_byte alloc out DOC_DATE) (\<lambda>out. extend_output alloc out (to_le_bytes d))"
| "encode_scalar alloc out (SLocalTime t) =
     and_then (push_byte alloc out DOC_LOCAL_TIME) (\<lambda>out. extend_output alloc out (to_le_bytes t))"
| "encode_scalar alloc out (SZonedTime nanos offset) =
     and_then (push_byte alloc out DOC_ZONED_TIME) (\<lambda>out.
     and_then (extend_output alloc out (to_le_bytes nanos)) (\<lambda>out.
       extend_output alloc out (to_le_bytes offset)))"
| "encode_scalar alloc out (SLocalDateTime seconds nanos) =
     and_then (push_byte alloc out DOC_LOCAL_DATETIME) (\<lambda>out.
     and_then (extend_output alloc out (to_le_bytes seconds)) (\<lambda>out.
       extend_output alloc out (to_le_bytes nanos)))"
| "encode_scalar alloc out (SZonedDateTime seconds nanos timezone) =
     and_then (push_byte alloc out DOC_ZONED_DATETIME) (\<lambda>out.
     and_then (extend_output alloc out (to_le_bytes seconds)) (\<lambda>out.
     and_then (extend_output alloc out (to_le_bytes nanos)) (\<lambda>out.
       push_bytes alloc out timezone)))"
| "encode_scalar alloc out (SDuration months days seconds nanos) =
     and_then (push_byte alloc out DOC_DURATION) (\<lambda>out.
     and_then (extend_output alloc out (to_le_bytes months)) (\<lambda>out.
     and_then (extend_output alloc out (to_le_bytes days)) (\<lambda>out.
     and_then (extend_output alloc out (to_le_bytes seconds)) (\<lambda>out.
       extend_output alloc out (to_le_bytes nanos)))))"
| "encode_scalar alloc out (SList _) =
     Err (new_error QueryType ''nested document must use a list or map item, not a scalar wrapper'')"
| "encode_scalar alloc out (SMap _) =
     Err (new_error QueryType ''nested document must use a list or map item, not a scalar wrapper'')"

subsection \<open>The encoder loop\<close>

datatype EncodeFrame =
    EItem DocumentItem
  | EList "DocumentItem list"
  | EMap "(str \<times> DocumentItem) list"

text \<open>The frame stack has its top at the head of the list.\<close>

definition reserve_frames :: "allocator \<Rightarrow> 'f list \<Rightarrow> nat \<Rightarrow> unit result" where
  "reserve_frames alloc frames additional =
     (if alloc (length frames + additional) then Ok () else Err document_allocation_failed)"

definition push_frame :: "allocator \<Rightarrow> 'f list \<Rightarrow> 'f \<Rightarrow> 'f list result" where
  "push_frame alloc frames frame =
     and_then (reserve_frames alloc frames 1) (\<lambda>_. Ok (frame # frames))"

lemma push_frame_Inr [simp]: "push_frame alloc frames f = Inr st \<longleftrightarrow> alloc (length frames + 1) \<and> st = f # frames"
  by (auto simp: push_frame_def reserve_frames_def)

fun item_weight :: "DocumentItem \<Rightarrow> nat"
  and items_weight :: "DocumentItem list \<Rightarrow> nat"
  and entries_weight :: "(str \<times> DocumentItem) list \<Rightarrow> nat" where
  "item_weight (DScalar v) = 1"
| "item_weight (DList ds) = 2 + items_weight ds"
| "item_weight (DMap kvs) = 2 + entries_weight kvs"
| "items_weight [] = 0"
| "items_weight (d # ds) = 1 + item_weight d + items_weight ds"
| "entries_weight [] = 0"
| "entries_weight ((k, d) # kvs) = 1 + item_weight d + entries_weight kvs"

fun frame_weight :: "EncodeFrame \<Rightarrow> nat" where
  "frame_weight (EItem d) = item_weight d"
| "frame_weight (EList ds) = 1 + items_weight ds"
| "frame_weight (EMap kvs) = 1 + entries_weight kvs"

function encode_loop :: "allocator \<Rightarrow> EncodeFrame list \<Rightarrow> bytes \<Rightarrow> bytes result" where
  "encode_loop alloc [] out = Ok out"
| "encode_loop alloc (EItem (DScalar v) # stack) out =
     and_then (encode_scalar alloc out v) (\<lambda>out. encode_loop alloc stack out)"
| "encode_loop alloc (EItem (DList ds) # stack) out =
     and_then (push_byte alloc out DOC_LIST) (\<lambda>out.
     and_then (push_len alloc out (length ds)) (\<lambda>out.
       if ds \<noteq> [] then
         and_then (push_frame alloc stack (EList ds)) (\<lambda>stack. encode_loop alloc stack out)
       else encode_loop alloc stack out))"
| "encode_loop alloc (EItem (DMap kvs) # stack) out =
     and_then (push_byte alloc out DOC_MAP) (\<lambda>out.
     and_then (push_len alloc out (length kvs)) (\<lambda>out.
       if kvs \<noteq> [] then
         and_then (push_frame alloc stack (EMap kvs)) (\<lambda>stack. encode_loop alloc stack out)
       else encode_loop alloc stack out))"
| "encode_loop alloc (EList [] # stack) out = encode_loop alloc stack out"
| "encode_loop alloc (EList (d # ds) # stack) out =
     and_then (reserve_frames alloc stack 2) (\<lambda>_.
       encode_loop alloc (EItem d # EList ds # stack) out)"
| "encode_loop alloc (EMap [] # stack) out = encode_loop alloc stack out"
| "encode_loop alloc (EMap ((k, d) # kvs) # stack) out =
     and_then (push_bytes alloc out k) (\<lambda>out.
     and_then (reserve_frames alloc stack 2) (\<lambda>_.
       encode_loop alloc (EItem d # EMap kvs # stack) out))"
  by pat_completeness auto
termination
  by (relation "measure (\<lambda>(alloc, stack, out). sum_list (map frame_weight stack))") auto

definition encode_item :: "allocator \<Rightarrow> bytes \<Rightarrow> DocumentItem \<Rightarrow> bytes result" where
  "encode_item alloc out d =
     and_then (push_frame alloc [] (EItem d)) (\<lambda>stack. encode_loop alloc stack out)"

definition root_matches :: "DocumentItem \<Rightarrow> DocumentRoot \<Rightarrow> bool" where
  "root_matches d r = (case (d, r) of
       (DList _, RootList) \<Rightarrow> True
     | (DMap _, RootMap) \<Rightarrow> True
     | _ \<Rightarrow> False)"

definition encode :: "allocator \<Rightarrow> DocumentItem \<Rightarrow> DocumentRoot \<Rightarrow> bytes result" where
  "encode alloc d root =
     (if \<not> root_matches d root then
        Err (new_error QueryType ''document root does not match its property type'')
      else
        and_then (push_byte alloc [] FORMAT_VERSION) (\<lambda>bs.
        and_then (encode_item alloc bs d) (\<lambda>bs.
          if 1 < length bs \<and> bs ! 1 = root_tag root then Ok bs
          else Err (new_error QueryType ''document root does not match its property type''))))"

definition document_list_new :: "allocator \<Rightarrow> DocumentItem list \<Rightarrow> DocumentList result" where
  "document_list_new alloc ds = encode alloc (DList ds) RootList"

definition document_map_new :: "allocator \<Rightarrow> DocumentItem btree_map \<Rightarrow> DocumentMap result" where
  "document_map_new alloc kvs = encode alloc (DMap kvs) RootMap"

subsection \<open>Reference encoder\<close>

definition enc_len :: "nat \<Rightarrow> bytes" where
  "enc_len n = to_le_bytes (word_of_nat n :: u64)"

definition enc_bytes :: "bytes \<Rightarrow> bytes" where
  "enc_bytes bs = enc_len (length bs) @ bs"

fun enc_scalar :: "ScalarValue \<Rightarrow> bytes" where
  "enc_scalar SNull = [DOC_NULL]"
| "enc_scalar (SBoolean b) = [if b then DOC_TRUE else DOC_FALSE]"
| "enc_scalar (SInteger i) = DOC_INTEGER # to_le_bytes i"
| "enc_scalar (SFloat f) = DOC_FLOAT # to_le_bytes (canonical_f64 f)"
| "enc_scalar (SString s) = DOC_STRING # enc_bytes s"
| "enc_scalar (SBytes bs) = DOC_BYTES # enc_bytes bs"
| "enc_scalar (SDate d) = DOC_DATE # to_le_bytes d"
| "enc_scalar (SLocalTime t) = DOC_LOCAL_TIME # to_le_bytes t"
| "enc_scalar (SZonedTime n z) = DOC_ZONED_TIME # to_le_bytes n @ to_le_bytes z"
| "enc_scalar (SLocalDateTime s n) = DOC_LOCAL_DATETIME # to_le_bytes s @ to_le_bytes n"
| "enc_scalar (SZonedDateTime s n z) =
     DOC_ZONED_DATETIME # to_le_bytes s @ to_le_bytes n @ enc_bytes z"
| "enc_scalar (SDuration m d s n) =
     DOC_DURATION # to_le_bytes m @ to_le_bytes d @ to_le_bytes s @ to_le_bytes n"
| "enc_scalar (SList l) = []"
| "enc_scalar (SMap m) = []"

fun enc_item :: "DocumentItem \<Rightarrow> bytes"
  and enc_items :: "DocumentItem list \<Rightarrow> bytes"
  and enc_entries :: "(str \<times> DocumentItem) list \<Rightarrow> bytes" where
  "enc_item (DScalar v) = enc_scalar v"
| "enc_item (DList ds) = DOC_LIST # enc_len (length ds) @ enc_items ds"
| "enc_item (DMap kvs) = DOC_MAP # enc_len (length kvs) @ enc_entries kvs"
| "enc_items [] = []"
| "enc_items (d # ds) = enc_item d @ enc_items ds"
| "enc_entries [] = []"
| "enc_entries ((k, d) # kvs) = enc_bytes k @ enc_item d @ enc_entries kvs"

text \<open>What the encoder accepts: every length fits the 64-bit field, no wrapped documents.\<close>

fun encodable_scalar :: "ScalarValue \<Rightarrow> bool" where
  "encodable_scalar (SString s) = (length s < 2 ^ 64)"
| "encodable_scalar (SBytes bs) = (length bs < 2 ^ 64)"
| "encodable_scalar (SZonedDateTime _ _ z) = (length z < 2 ^ 64)"
| "encodable_scalar (SList _) = False"
| "encodable_scalar (SMap _) = False"
| "encodable_scalar _ = True"

fun encodable_item :: "DocumentItem \<Rightarrow> bool"
  and encodable_items :: "DocumentItem list \<Rightarrow> bool"
  and encodable_entries :: "(str \<times> DocumentItem) list \<Rightarrow> bool" where
  "encodable_item (DScalar v) = encodable_scalar v"
| "encodable_item (DList ds) = (length ds < 2 ^ 64 \<and> encodable_items ds)"
| "encodable_item (DMap kvs) = (length kvs < 2 ^ 64 \<and> encodable_entries kvs)"
| "encodable_items [] = True"
| "encodable_items (d # ds) = (encodable_item d \<and> encodable_items ds)"
| "encodable_entries [] = True"
| "encodable_entries ((k, d) # kvs) =
     (length k < 2 ^ 64 \<and> encodable_item d \<and> encodable_entries kvs)"

fun enc_frame :: "EncodeFrame \<Rightarrow> bytes" where
  "enc_frame (EItem d) = enc_item d"
| "enc_frame (EList ds) = enc_items ds"
| "enc_frame (EMap kvs) = enc_entries kvs"

fun encodable_frame :: "EncodeFrame \<Rightarrow> bool" where
  "encodable_frame (EItem d) = encodable_item d"
| "encodable_frame (EList ds) = encodable_items ds"
| "encodable_frame (EMap kvs) = encodable_entries kvs"

subsection \<open>The loop computes the reference encoding\<close>

lemma output_Inr_iffs:
  "push_byte alloc out v = Inr r \<longleftrightarrow> alloc (length out + 1) \<and> r = out @ [v]"
  "extend_output alloc out bs = Inr r \<longleftrightarrow> alloc (length out + length bs) \<and> r = out @ bs"
  "push_len alloc out n = Inr r \<longleftrightarrow>
     n < 2 ^ 64 \<and> alloc (length out + ENCODED_LENGTH_BYTES) \<and> r = out @ enc_len n"
  "push_bytes alloc out bs = Inr r \<longleftrightarrow>
     length bs < 2 ^ 64 \<and> alloc (length out + ENCODED_LENGTH_BYTES) \<and>
     alloc (length out + ENCODED_LENGTH_BYTES + length bs) \<and> r = out @ enc_bytes bs"
  by (auto simp: push_byte_def extend_output_def push_len_def push_bytes_def enc_len_def
      enc_bytes_def and_then_eq_Inr_iff)

lemma output_granted:
  assumes "granting alloc"
  shows "push_byte alloc out v = Inr (out @ [v])"
    "extend_output alloc out bs = Inr (out @ bs)"
    "n < 2 ^ 64 \<Longrightarrow> push_len alloc out n = Inr (out @ enc_len n)"
    "length bs < 2 ^ 64 \<Longrightarrow> push_bytes alloc out bs = Inr (out @ enc_bytes bs)"
    "push_frame alloc frames f = Inr (f # frames)"
    "reserve_frames alloc frames m = Inr ()"
  using assms by (simp_all add: granting_def output_Inr_iffs reserve_frames_def)

lemma encode_scalar_Ok:
  "encode_scalar alloc out v = Inr r \<Longrightarrow> r = out @ enc_scalar v \<and> encodable_scalar v"
  by (cases "(alloc, out, v)" rule: encode_scalar.cases)
    (auto simp: output_Inr_iffs and_then_eq_Inr_iff)

lemma encode_scalar_total:
  "granting alloc \<Longrightarrow> encodable_scalar v \<Longrightarrow> encode_scalar alloc out v = Inr (out @ enc_scalar v)"
  by (cases "(alloc, out, v)" rule: encode_scalar.cases) (auto simp: output_granted)

lemma encode_loop_Ok:
  "encode_loop alloc stack out = Inr r \<Longrightarrow>
   r = out @ concat (map enc_frame stack) \<and> list_all encodable_frame stack"
proof (induction alloc stack out arbitrary: r rule: encode_loop.induct)
  case (2 alloc v stack out)
  then show ?case by (fastforce simp: and_then_eq_Inr_iff dest: encode_scalar_Ok)
qed (fastforce simp: and_then_eq_Inr_iff output_Inr_iffs split: if_splits)+

lemma encode_loop_total:
  "granting alloc \<Longrightarrow> list_all encodable_frame stack \<Longrightarrow>
   encode_loop alloc stack out = Inr (out @ concat (map enc_frame stack))"
  by (induction alloc stack out rule: encode_loop.induct)
    (auto simp: output_granted encode_scalar_total)

lemma encode_Ok_iff:
  "encode alloc d root = Inr bs \<Longrightarrow>
   bs = FORMAT_VERSION # enc_item d \<and> encodable_item d \<and> root_matches d root"
  by (auto simp: encode_def encode_item_def and_then_eq_Inr_iff output_Inr_iffs
      dest!: encode_loop_Ok split: if_splits)

lemma root_matches_cases:
  assumes "root_matches d root"
  obtains ds where "d = DList ds" "root = RootList" | kvs where "d = DMap kvs" "root = RootMap"
  using assms by (cases d; cases root) (auto simp: root_matches_def)

lemma encode_total:
  assumes "granting alloc" "encodable_item d" "root_matches d root"
  shows "encode alloc d root = Inr (FORMAT_VERSION # enc_item d)"
  using assms(3)
  by (cases rule: root_matches_cases)
    (use assms in \<open>auto simp: encode_def encode_item_def output_granted encode_loop_total root_tag_def simp del: encode_loop.simps\<close>)

end
