(* ===== verification/Document_Decode.thy ===== *)
theory Document_Decode
  imports Document_Encode
begin

text \<open>
  The decoder half of \<^verbatim>\<open>crates/types/src/document.rs\<close>: the \<open>Cursor\<close> and its primitive reads, the
  explicit-stack decoder \<open>item\<close>, the allocation-free validator \<open>skip_item\<close>, and the entry points
  \<open>decode\<close> and \<open>validate_canonical\<close>. Both loops end because every turn reads at least the tag
  byte, so the distance from the position to the end of the input decreases.
\<close>

subsection \<open>The cursor\<close>

record Cursor =
  cursor_bytes :: bytes
  cursor_position :: nat

definition cursor_take :: "Cursor \<Rightarrow> nat \<Rightarrow> (bytes \<times> Cursor) result" where
  "cursor_take c n =
     and_then (ok_or (checked_add_usize (cursor_position c) n) (corrupt ''document offset overflow''))
       (\<lambda>end'.
         if cursor_position c \<le> end' \<and> end' \<le> length (cursor_bytes c) then
           Ok (take n (drop (cursor_position c) (cursor_bytes c)), c\<lparr>cursor_position := end'\<rparr>)
         else Err (corrupt ''document is truncated''))"

definition cursor_byte :: "Cursor \<Rightarrow> (u8 \<times> Cursor) result" where
  "cursor_byte c = and_then (cursor_take c 1) (\<lambda>(v, c). Ok (hd v, c))"

definition cursor_u32 :: "Cursor \<Rightarrow> (u32 \<times> Cursor) result" where
  "cursor_u32 c = and_then (cursor_take c 4) (\<lambda>(v, c). Ok (from_le_bytes v, c))"

definition cursor_i32 :: "Cursor \<Rightarrow> (i32 \<times> Cursor) result" where
  "cursor_i32 c = and_then (cursor_take c 4) (\<lambda>(v, c). Ok (from_le_bytes v, c))"

definition cursor_u64 :: "Cursor \<Rightarrow> (u64 \<times> Cursor) result" where
  "cursor_u64 c = and_then (cursor_take c 8) (\<lambda>(v, c). Ok (from_le_bytes v, c))"

definition cursor_i64 :: "Cursor \<Rightarrow> (i64 \<times> Cursor) result" where
  "cursor_i64 c = and_then (cursor_take c 8) (\<lambda>(v, c). Ok (from_le_bytes v, c))"

definition cursor_remaining :: "Cursor \<Rightarrow> nat" where
  "cursor_remaining c = length (cursor_bytes c) - cursor_position c"

definition encoded_length :: "Cursor \<Rightarrow> (u64 \<times> Cursor) result" where
  "encoded_length c = cursor_u64 c"

definition byte_length :: "Cursor \<Rightarrow> (nat \<times> Cursor) result" where
  "byte_length c =
     and_then (encoded_length c) (\<lambda>(len, c).
       if unat len > cursor_remaining c then Err (corrupt ''document byte sequence is truncated'')
       else Ok (unat len, c))"

definition collection_length :: "Cursor \<Rightarrow> nat \<Rightarrow> (nat \<times> Cursor) result" where
  "collection_length c minimum_entry_bytes =
     and_then (encoded_length c) (\<lambda>(len, c).
       if unat len > cursor_remaining c div minimum_entry_bytes then
         Err (corrupt ''document collection length exceeds the remaining canonical bytes'')
       else Ok (unat len, c))"

definition cursor_byte_seq :: "Cursor \<Rightarrow> (bytes \<times> Cursor) result" where
  "cursor_byte_seq c = and_then (byte_length c) (\<lambda>(n, c). cursor_take c n)"

definition cursor_string :: "Cursor \<Rightarrow> (str \<times> Cursor) result" where
  "cursor_string c =
     and_then (cursor_byte_seq c) (\<lambda>(v, c).
       if valid_utf8 v then Ok (v, c) else Err (corrupt ''document string is not valid UTF-8''))"

definition string_range :: "Cursor \<Rightarrow> ((nat \<times> nat) \<times> Cursor) result" where
  "string_range c =
     and_then (byte_length c) (\<lambda>(n, c).
       let start = cursor_position c in
       and_then (cursor_take c n) (\<lambda>(v, c).
         if valid_utf8 v then Ok ((start, cursor_position c), c)
         else Err (corrupt ''document string is not valid UTF-8'')))"

text \<open>The slice \<open>bytes[range.0..range.1]\<close>.\<close>

definition slice_range :: "bytes \<Rightarrow> nat \<times> nat \<Rightarrow> bytes" where
  "slice_range bs r = take (snd r - fst r) (drop (fst r) bs)"

definition map_key_range :: "Cursor \<Rightarrow> (nat \<times> nat) option \<Rightarrow> ((nat \<times> nat) \<times> Cursor) result" where
  "map_key_range c previous =
     and_then (string_range c) (\<lambda>(current, c).
       if (case previous of None \<Rightarrow> False
           | Some p \<Rightarrow> bytes_cmp (slice_range (cursor_bytes c) p) (slice_range (cursor_bytes c) current) \<noteq> Less)
       then Err (corrupt ''document map keys are not canonical'')
       else Ok (current, c))"

definition map_key ::
  "Cursor \<Rightarrow> (nat \<times> nat) option \<Rightarrow> (((nat \<times> nat) \<times> str) \<times> Cursor) result" where
  "map_key c previous =
     and_then (map_key_range c previous) (\<lambda>(current, c).
       let key = slice_range (cursor_bytes c) current in
       if valid_utf8 key then Ok ((current, key), c)
       else Err (corrupt ''document string is not valid UTF-8''))"

definition validate_float_bits :: "u64 \<Rightarrow> unit result" where
  "validate_float_bits bits =
     (if f64_is_nan bits \<and> bits \<noteq> f64_nan \<or> f64_is_zero bits \<and> bits \<noteq> 0 then
        Err (corrupt ''document float encoding is not canonical'')
      else Ok ())"

definition validate_size :: "bytes \<Rightarrow> unit result" where
  "validate_size bs =
     (if length bs < 2 then Err (corrupt ''document is truncated before its root tag'') else Ok ())"

subsection \<open>The decoder\<close>

datatype DecodeFrame =
    DFList nat "DocumentItem list"
  | DFMap nat "DocumentItem btree_map" "nat \<times> nat" "str option"

definition read_scalar ::
  "('a \<times> Cursor) result \<Rightarrow> ('a \<Rightarrow> ScalarValue) \<Rightarrow> 'f list \<Rightarrow>
   (DocumentItem option \<times> 'f list \<times> Cursor) result" where
  "read_scalar r build frames =
     and_then r (\<lambda>(v, c). Ok (Some (DScalar (build v)), frames, c))"

text \<open>
  The \<open>match tag\<close> of the decoder: a completed value, or \<open>None\<close> when a list or map frame was
  pushed instead.
\<close>

definition decode_value ::
  "allocator \<Rightarrow> Cursor \<Rightarrow> DecodeFrame list \<Rightarrow>
   (DocumentItem option \<times> DecodeFrame list \<times> Cursor) result" where
  "decode_value alloc c frames =
     and_then (cursor_byte c) (\<lambda>(tag, c).
       if tag = DOC_NULL then Ok (Some (DScalar SNull), frames, c)
       else if tag = DOC_FALSE then Ok (Some (DScalar (SBoolean False)), frames, c)
       else if tag = DOC_TRUE then Ok (Some (DScalar (SBoolean True)), frames, c)
       else if tag = DOC_INTEGER then read_scalar (cursor_i64 c) SInteger frames
       else if tag = DOC_FLOAT then
         and_then (cursor_u64 c) (\<lambda>(bits, c).
         and_then (validate_float_bits bits) (\<lambda>_.
           Ok (Some (DScalar (SFloat bits)), frames, c)))
       else if tag = DOC_STRING then read_scalar (cursor_string c) SString frames
       else if tag = DOC_BYTES then read_scalar (cursor_byte_seq c) SBytes frames
       else if tag = DOC_DATE then read_scalar (cursor_i64 c) SDate frames
       else if tag = DOC_LOCAL_TIME then read_scalar (cursor_i64 c) SLocalTime frames
       else if tag = DOC_ZONED_TIME then
         and_then (cursor_i64 c) (\<lambda>(nanos, c).
           read_scalar (cursor_i32 c) (\<lambda>offset. SZonedTime nanos offset) frames)
       else if tag = DOC_LOCAL_DATETIME then
         and_then (cursor_i64 c) (\<lambda>(seconds, c).
           read_scalar (cursor_u32 c) (\<lambda>nanos. SLocalDateTime seconds nanos) frames)
       else if tag = DOC_ZONED_DATETIME then
         and_then (cursor_i64 c) (\<lambda>(seconds, c).
         and_then (cursor_u32 c) (\<lambda>(nanos, c).
           read_scalar (cursor_string c) (\<lambda>zone. SZonedDateTime seconds nanos zone) frames))
       else if tag = DOC_DURATION then
         and_then (cursor_i64 c) (\<lambda>(months, c).
         and_then (cursor_i64 c) (\<lambda>(days, c).
         and_then (cursor_i64 c) (\<lambda>(seconds, c).
           read_scalar (cursor_i32 c) (\<lambda>nanos. SDuration months days seconds nanos) frames)))
       else if tag = DOC_LIST then
         and_then (collection_length c 1) (\<lambda>(n, c).
           if n = 0 then Ok (Some (DList []), frames, c)
           else if \<not> alloc n then Err document_allocation_failed
           else and_then (push_frame alloc frames (DFList n [])) (\<lambda>frames.
             Ok (None, frames, c)))
       else if tag = DOC_MAP then
         and_then (collection_length c (ENCODED_LENGTH_BYTES + 1)) (\<lambda>(n, c).
           if n = 0 then Ok (Some (DMap []), frames, c)
           else
             and_then (map_key c None) (\<lambda>((previous_key, pending_key), c).
             and_then (push_frame alloc frames (DFMap n [] previous_key (Some pending_key)))
               (\<lambda>frames. Ok (None, frames, c))))
       else Err (corrupt ''document value tag is invalid''))"

datatype decode_step = Decoded DocumentItem Cursor | NeedItem "DecodeFrame list" Cursor

text \<open>The inner loop of the decoder: attach a completed value to the innermost open frame.\<close>

fun complete_item :: "Cursor \<Rightarrow> DecodeFrame list \<Rightarrow> DocumentItem \<Rightarrow> decode_step result" where
  "complete_item c [] item = Ok (Decoded item c)"
| "complete_item c (DFList remaining vals # frames) item =
     and_then (ok_or (checked_sub_usize remaining 1) (corrupt ''document list accounting underflow''))
       (\<lambda>remaining.
         if remaining = 0 then complete_item c frames (DList (vals @ [item]))
         else Ok (NeedItem (DFList remaining (vals @ [item]) # frames) c))"
| "complete_item c (DFMap remaining vals previous_key pending_key # frames) item =
     and_then (ok_or pending_key (corrupt ''document map key is missing'')) (\<lambda>key.
     case btree_insert vals key item of (vals, displaced) \<Rightarrow>
       if displaced \<noteq> None then Err (corrupt ''document map keys are not canonical'')
       else
         and_then
           (ok_or (checked_sub_usize remaining 1) (corrupt ''document map accounting underflow''))
           (\<lambda>remaining.
             if remaining = 0 then complete_item c frames (DMap vals)
             else
               and_then (map_key c (Some previous_key)) (\<lambda>((next_range, next_key), c).
                 Ok (NeedItem (DFMap remaining vals next_range (Some next_key) # frames) c))))"

lemma cursor_take_Inr:
  "cursor_take c n = Inr (v, c') \<longleftrightarrow>
   cursor_position c + n < usize_limit \<and> cursor_position c + n \<le> length (cursor_bytes c) \<and>
   v = take n (drop (cursor_position c) (cursor_bytes c)) \<and>
   c' = c\<lparr>cursor_position := cursor_position c + n\<rparr>"
  by (auto simp: cursor_take_def checked_add_usize_def split: if_splits)

lemma cursor_byte_Inr:
  "cursor_byte c = Inr (b, c') \<longleftrightarrow>
   cursor_position c + 1 < usize_limit \<and> cursor_position c < length (cursor_bytes c) \<and>
   b = cursor_bytes c ! cursor_position c \<and>
   c' = c\<lparr>cursor_position := cursor_position c + 1\<rparr>"
  by (auto simp: cursor_byte_def cursor_take_Inr and_then_eq_Inr_iff hd_conv_nth)

text \<open>A successful read leaves the input alone and never moves backwards.\<close>

definition cursor_advanced :: "Cursor \<Rightarrow> Cursor \<Rightarrow> bool" where
  "cursor_advanced c c' \<longleftrightarrow>
     cursor_bytes c' = cursor_bytes c \<and> cursor_position c \<le> cursor_position c'"

lemma cursor_advanced_trans:
  "cursor_advanced a b \<Longrightarrow> cursor_advanced b c \<Longrightarrow> cursor_advanced a c"
  by (simp add: cursor_advanced_def)

lemma read_advanced:
  "cursor_take c n = Inr (v, c') \<Longrightarrow> cursor_advanced c c'"
  "cursor_u32 c = Inr (v32, c') \<Longrightarrow> cursor_advanced c c'"
  "cursor_i32 c = Inr (v32, c') \<Longrightarrow> cursor_advanced c c'"
  "cursor_u64 c = Inr (v64, c') \<Longrightarrow> cursor_advanced c c'"
  "cursor_i64 c = Inr (v64, c') \<Longrightarrow> cursor_advanced c c'"
  "byte_length c = Inr (m, c') \<Longrightarrow> cursor_advanced c c'"
  "collection_length c k = Inr (m, c') \<Longrightarrow> cursor_advanced c c'"
  by (auto simp: cursor_take_Inr cursor_u32_def cursor_i32_def cursor_u64_def cursor_i64_def
      byte_length_def collection_length_def encoded_length_def and_then_eq_Inr_iff
      cursor_advanced_def split: if_splits)

lemma read_seq_advanced:
  "cursor_byte_seq c = Inr (v, c') \<Longrightarrow> cursor_advanced c c'"
  "cursor_string c = Inr (v, c') \<Longrightarrow> cursor_advanced c c'"
  "string_range c = Inr (r, c') \<Longrightarrow> cursor_advanced c c'"
  "map_key_range c p = Inr (r, c') \<Longrightarrow> cursor_advanced c c'"
  "map_key c p = Inr (rk, c') \<Longrightarrow> cursor_advanced c c'"
  by (auto simp: cursor_byte_seq_def cursor_string_def string_range_def map_key_range_def
      map_key_def Let_def and_then_eq_Inr_iff split: if_splits
      dest!: read_advanced intro: cursor_advanced_trans)

lemma complete_item_advanced:
  "complete_item c frames item = Inr (NeedItem frames' c') \<Longrightarrow> cursor_advanced c c'"
proof (induction c frames item rule: complete_item.induct)
  case (3 c remaining vals previous_key pending_key frames item)
  obtain key where key: "pending_key = Some key" using "3.prems" by (cases pending_key) auto
  obtain vals' where ins: "btree_insert vals key item = (vals', None)"
    using "3.prems" key by (cases "btree_insert vals key item") (auto split: if_splits)
  from "3.prems" key ins obtain r where r: "checked_sub_usize remaining 1 = Some r"
    by (auto simp: and_then_eq_Inr_iff)
  show ?case
    using 3 key ins r
    by (cases "r = 0") (auto simp: and_then_eq_Inr_iff cursor_advanced_def dest!: read_seq_advanced)
qed (auto simp: and_then_eq_Inr_iff cursor_advanced_def split: if_splits)

lemma decode_value_advanced:
  assumes "decode_value alloc c frames = Inr (v, frames', c')"
  shows "cursor_bytes c' = cursor_bytes c \<and> cursor_position c < cursor_position c' \<and>
    cursor_position c < length (cursor_bytes c)"
proof -
  obtain tag c1 where tag: "cursor_byte c = Inr (tag, c1)"
    using assms by (auto simp: decode_value_def and_then_eq_Inr_iff)
  have "cursor_advanced c1 c'"
    using assms tag
    by (auto simp: decode_value_def read_scalar_def and_then_eq_Inr_iff cursor_advanced_def
        split: if_splits dest!: read_advanced read_seq_advanced)
  with tag show ?thesis
    by (auto simp: cursor_byte_Inr cursor_advanced_def)
qed

function item_loop :: "allocator \<Rightarrow> Cursor \<Rightarrow> DecodeFrame list \<Rightarrow> (DocumentItem \<times> Cursor) result" where
  "item_loop alloc c frames =
     and_then (decode_value alloc c frames) (\<lambda>(completed, frames, c).
       case completed of
         None \<Rightarrow> item_loop alloc c frames
       | Some item \<Rightarrow>
           and_then (complete_item c frames item) (\<lambda>step.
             case step of
               Decoded d c \<Rightarrow> Ok (d, c)
             | NeedItem frames c \<Rightarrow> item_loop alloc c frames))"
  by pat_completeness auto
termination
  by (relation "measure (\<lambda>(alloc, c, frames). length (cursor_bytes c) - cursor_position c)")
    (auto dest!: decode_value_advanced complete_item_advanced simp: cursor_advanced_def)

declare item_loop.simps [simp del]

definition cursor_item :: "allocator \<Rightarrow> Cursor \<Rightarrow> (DocumentItem \<times> Cursor) result" where
  "cursor_item alloc c = item_loop alloc c []"

definition decode :: "allocator \<Rightarrow> bytes \<Rightarrow> DocumentRoot \<Rightarrow> DocumentItem result" where
  "decode alloc bs expected =
     and_then (validate_size bs) (\<lambda>_.
     and_then (cursor_byte \<lparr>cursor_bytes = bs, cursor_position = 0\<rparr>) (\<lambda>(version, c).
       if version \<noteq> FORMAT_VERSION then Err (corrupt ''document format version is unsupported'')
       else if \<not> (cursor_position c < length (cursor_bytes c)
                 \<and> cursor_bytes c ! cursor_position c = root_tag expected) then
         Err (corrupt ''document root kind is invalid'')
       else
         and_then (cursor_item alloc c) (\<lambda>(d, c).
           if cursor_position c \<noteq> length bs then Err (corrupt ''document contains trailing bytes'')
           else if \<not> root_matches d expected then Err (corrupt ''document root kind is invalid'')
           else Ok d)))"

definition document_items :: "allocator \<Rightarrow> DocumentList \<Rightarrow> DocumentItem list result" where
  "document_items alloc l =
     and_then (decode alloc l RootList) (\<lambda>d.
       case d of DList ds \<Rightarrow> Ok ds
       | _ \<Rightarrow> Err (new_error CorruptStorage ''list document has a non-list root''))"

definition document_entries :: "allocator \<Rightarrow> DocumentMap \<Rightarrow> DocumentItem btree_map result" where
  "document_entries alloc m =
     and_then (decode alloc m RootMap) (\<lambda>d.
       case d of DMap kvs \<Rightarrow> Ok kvs
       | _ \<Rightarrow> Err (new_error CorruptStorage ''map document has a non-map root''))"

subsection \<open>The validator\<close>

datatype ValidationFrame = VList nat | VMap nat "nat \<times> nat"

definition skipped :: "('a \<times> Cursor) result \<Rightarrow> 'f list \<Rightarrow> (bool \<times> 'f list \<times> Cursor) result" where
  "skipped r frames = and_then r (\<lambda>(_, c). Ok (True, frames, c))"

definition skip_value ::
  "allocator \<Rightarrow> Cursor \<Rightarrow> ValidationFrame list \<Rightarrow> (bool \<times> ValidationFrame list \<times> Cursor) result"
where
  "skip_value alloc c frames =
     and_then (cursor_byte c) (\<lambda>(tag, c).
       if tag = DOC_NULL \<or> tag = DOC_FALSE \<or> tag = DOC_TRUE then Ok (True, frames, c)
       else if tag = DOC_INTEGER \<or> tag = DOC_DATE \<or> tag = DOC_LOCAL_TIME then
         skipped (cursor_take c 8) frames
       else if tag = DOC_FLOAT then
         and_then (cursor_u64 c) (\<lambda>(bits, c).
         and_then (validate_float_bits bits) (\<lambda>_. Ok (True, frames, c)))
       else if tag = DOC_STRING then skipped (cursor_string c) frames
       else if tag = DOC_BYTES then skipped (cursor_byte_seq c) frames
       else if tag = DOC_ZONED_TIME \<or> tag = DOC_LOCAL_DATETIME then
         skipped (cursor_take c 12) frames
       else if tag = DOC_ZONED_DATETIME then
         and_then (cursor_take c 12) (\<lambda>(_, c). skipped (cursor_string c) frames)
       else if tag = DOC_DURATION then skipped (cursor_take c 28) frames
       else if tag = DOC_LIST then
         and_then (collection_length c 1) (\<lambda>(n, c).
           if n = 0 then Ok (True, frames, c)
           else and_then (push_frame alloc frames (VList n)) (\<lambda>frames. Ok (False, frames, c)))
       else if tag = DOC_MAP then
         and_then (collection_length c (ENCODED_LENGTH_BYTES + 1)) (\<lambda>(n, c).
           if n = 0 then Ok (True, frames, c)
           else
             and_then (map_key_range c None) (\<lambda>(previous_key, c).
             and_then (push_frame alloc frames (VMap n previous_key)) (\<lambda>frames.
               Ok (False, frames, c))))
       else Err (corrupt ''document value tag is invalid''))"

datatype skip_step = SkipDone Cursor | SkipMore "ValidationFrame list" Cursor

fun skip_complete :: "Cursor \<Rightarrow> ValidationFrame list \<Rightarrow> skip_step result" where
  "skip_complete c [] = Ok (SkipDone c)"
| "skip_complete c (VList remaining # frames) =
     and_then (ok_or (checked_sub_usize remaining 1) (corrupt ''document list accounting underflow''))
       (\<lambda>remaining.
         if remaining = 0 then skip_complete c frames
         else Ok (SkipMore (VList remaining # frames) c))"
| "skip_complete c (VMap remaining previous_key # frames) =
     and_then (ok_or (checked_sub_usize remaining 1) (corrupt ''document map accounting underflow''))
       (\<lambda>remaining.
         if remaining = 0 then skip_complete c frames
         else
           and_then (map_key_range c (Some previous_key)) (\<lambda>(previous_key, c).
             Ok (SkipMore (VMap remaining previous_key # frames) c)))"

lemma skip_complete_advanced:
  "skip_complete c frames = Inr (SkipMore frames' c') \<Longrightarrow> cursor_advanced c c'"
  by (induction c frames rule: skip_complete.induct)
    (auto simp: and_then_eq_Inr_iff cursor_advanced_def split: if_splits
      dest!: read_seq_advanced)

lemma skip_value_advanced:
  assumes "skip_value alloc c frames = Inr (v, frames', c')"
  shows "cursor_bytes c' = cursor_bytes c \<and> cursor_position c < cursor_position c' \<and>
    cursor_position c < length (cursor_bytes c)"
proof -
  obtain tag c1 where tag: "cursor_byte c = Inr (tag, c1)"
    using assms by (auto simp: skip_value_def and_then_eq_Inr_iff)
  have "cursor_advanced c1 c'"
    using assms tag
    by (auto simp: skip_value_def skipped_def and_then_eq_Inr_iff cursor_advanced_def
        split: if_splits dest!: read_advanced read_seq_advanced)
  with tag show ?thesis
    by (auto simp: cursor_byte_Inr cursor_advanced_def)
qed

function skip_loop :: "allocator \<Rightarrow> Cursor \<Rightarrow> ValidationFrame list \<Rightarrow> Cursor result" where
  "skip_loop alloc c frames =
     and_then (skip_value alloc c frames) (\<lambda>(item_complete, frames, c).
       if \<not> item_complete then skip_loop alloc c frames
       else
         and_then (skip_complete c frames) (\<lambda>step.
           case step of
             SkipDone c \<Rightarrow> Ok c
           | SkipMore frames c \<Rightarrow> skip_loop alloc c frames))"
  by pat_completeness auto
termination
  by (relation "measure (\<lambda>(alloc, c, frames). length (cursor_bytes c) - cursor_position c)")
    (auto dest!: skip_value_advanced skip_complete_advanced simp: cursor_advanced_def)

declare skip_loop.simps [simp del]

definition validate_canonical :: "allocator \<Rightarrow> bytes \<Rightarrow> DocumentRoot \<Rightarrow> unit result" where
  "validate_canonical alloc bs expected =
     and_then (validate_size bs) (\<lambda>_.
     and_then (cursor_byte \<lparr>cursor_bytes = bs, cursor_position = 0\<rparr>) (\<lambda>(version, c).
       if version \<noteq> FORMAT_VERSION then Err (corrupt ''document format version is unsupported'')
       else if \<not> (cursor_position c < length (cursor_bytes c)
                 \<and> cursor_bytes c ! cursor_position c = root_tag expected) then
         Err (corrupt ''document root kind is invalid'')
       else
         and_then (skip_loop alloc c []) (\<lambda>c.
           if cursor_position c \<noteq> length bs then Err (corrupt ''document contains trailing bytes'')
           else Ok ())))"

end
