(* ===== verification/Document_Canonical.thy ===== *)
theory Document_Canonical
  imports Document_Decode
begin

text \<open>
  The document format is canonical. What the decoder accepts is exactly what the encoder writes
  (\<open>decode_sound\<close>, \<open>decode_encode\<close>), so decoding and encoding are inverse up to the
  canonicalisation of NaN and zero, and the validator accepts and rejects exactly as the decoder
  does, with the same error.
\<close>

subsection \<open>Well-formed and canonical trees\<close>

fun wf_item :: "DocumentItem \<Rightarrow> bool"
  and wf_items :: "DocumentItem list \<Rightarrow> bool"
  and wf_entries :: "(str \<times> DocumentItem) list \<Rightarrow> bool" where
  "wf_item (DScalar v) = scalar_utf8 v"
| "wf_item (DList ds) = wf_items ds"
| "wf_item (DMap kvs) = (btree_ok kvs \<and> wf_entries kvs)"
| "wf_items [] = True"
| "wf_items (d # ds) = (wf_item d \<and> wf_items ds)"
| "wf_entries [] = True"
| "wf_entries ((k, d) # kvs) = (valid_utf8 k \<and> wf_item d \<and> wf_entries kvs)"

fun canon_scalar :: "ScalarValue \<Rightarrow> ScalarValue" where
  "canon_scalar (SFloat f) = SFloat (canonical_f64 f)"
| "canon_scalar v = v"

fun canon_item :: "DocumentItem \<Rightarrow> DocumentItem"
  and canon_items :: "DocumentItem list \<Rightarrow> DocumentItem list"
  and canon_entries :: "(str \<times> DocumentItem) list \<Rightarrow> (str \<times> DocumentItem) list" where
  "canon_item (DScalar v) = DScalar (canon_scalar v)"
| "canon_item (DList ds) = DList (canon_items ds)"
| "canon_item (DMap kvs) = DMap (canon_entries kvs)"
| "canon_items [] = []"
| "canon_items (d # ds) = canon_item d # canon_items ds"
| "canon_entries [] = []"
| "canon_entries ((k, d) # kvs) = (k, canon_item d) # canon_entries kvs"

lemma items_append [simp]:
  "enc_items (xs @ ys) = enc_items xs @ enc_items ys"
  "wf_items (xs @ ys) \<longleftrightarrow> wf_items xs \<and> wf_items ys"
  "encodable_items (xs @ ys) \<longleftrightarrow> encodable_items xs \<and> encodable_items ys"
  "canon_items (xs @ ys) = canon_items xs @ canon_items ys"
  by (induction xs) auto

lemma entries_append [simp]:
  "enc_entries (kvs @ lws) = enc_entries kvs @ enc_entries lws"
  "wf_entries (kvs @ lws) \<longleftrightarrow> wf_entries kvs \<and> wf_entries lws"
  "encodable_entries (kvs @ lws) \<longleftrightarrow> encodable_entries kvs \<and> encodable_entries lws"
  "canon_entries (kvs @ lws) = canon_entries kvs @ canon_entries lws"
  by (induction kvs) auto

lemma length_canon [simp]:
  "length (canon_items ds) = length ds" "length (canon_entries kvs) = length kvs"
  by (induction ds) (simp_all, induction kvs, auto)

lemma fst_canon_entries [simp]: "map fst (canon_entries kvs) = map fst kvs"
  by (induction kvs) auto

lemma canonical_f64_idem [simp]: "canonical_f64 (canonical_f64 f) = canonical_f64 f"
  by (simp add: canonical_f64_def f64_is_zero_def f64_is_nan_def f64_nan_def f64_exponent_bits_def
      f64_fraction_def)

lemma validate_float_bits_Inr: "validate_float_bits b = Inr u \<longleftrightarrow> canonical_f64 b = b"
  by (auto simp: validate_float_bits_def canonical_f64_def f64_is_zero_def f64_is_nan_def
      f64_nan_def f64_exponent_bits_def f64_fraction_def split: if_splits)

definition good_item :: "DocumentItem \<Rightarrow> bool" where
  "good_item d \<longleftrightarrow> wf_item d \<and> encodable_item d \<and> canon_item d = d"

definition good_items :: "DocumentItem list \<Rightarrow> bool" where
  "good_items ds \<longleftrightarrow> wf_items ds \<and> encodable_items ds \<and> canon_items ds = ds"

definition good_entries :: "(str \<times> DocumentItem) list \<Rightarrow> bool" where
  "good_entries kvs \<longleftrightarrow> wf_entries kvs \<and> encodable_entries kvs \<and> canon_entries kvs = kvs"

lemma good_append_one:
  "good_items (ds @ [d]) \<longleftrightarrow> good_items ds \<and> good_item d"
  "good_entries (kvs @ [(k, d)]) \<longleftrightarrow>
     good_entries kvs \<and> valid_utf8 k \<and> length k < 2 ^ 64 \<and> good_item d"
  by (auto simp: good_item_def good_items_def good_entries_def)

subsection \<open>Reads as appended bytes\<close>

text \<open>\<open>reads c c' w\<close>: moving from \<open>c\<close> to \<open>c'\<close> consumed exactly the bytes \<open>w\<close>.\<close>

definition reads :: "Cursor \<Rightarrow> Cursor \<Rightarrow> bytes \<Rightarrow> bool" where
  "reads c c' w \<longleftrightarrow>
     c' = c\<lparr>cursor_position := cursor_position c + length w\<rparr> \<and>
     take (length w) (drop (cursor_position c) (cursor_bytes c)) = w"

lemma reads_trans: "reads a b v \<Longrightarrow> reads b c w \<Longrightarrow> reads a c (v @ w)"
proof -
  assume ab: "reads a b v" and bc: "reads b c w"
  have "take (length (v @ w)) (drop (cursor_position a) (cursor_bytes a)) =
    take (length v) (drop (cursor_position a) (cursor_bytes a)) @
    take (length w) (drop (cursor_position a + length v) (cursor_bytes a))"
    by (simp add: take_add drop_drop add.commute)
  with ab bc show ?thesis by (simp add: reads_def add.assoc)
qed

lemma reads_bytes: "reads c c' w \<Longrightarrow> cursor_bytes c' = cursor_bytes c"
  by (simp add: reads_def)

lemma cursor_take_reads: "cursor_take c n = Inr (v, c') \<Longrightarrow> reads c c' v \<and> length v = n"
  by (auto simp: cursor_take_Inr reads_def min_def)

lemma cursor_byte_reads: "cursor_byte c = Inr (b, c') \<Longrightarrow> reads c c' [b]"
  by (auto simp: cursor_byte_Inr reads_def take_Suc hd_drop_conv_nth)

lemma cursor_int_reads:
  "cursor_u32 c = Inr (v32, c') \<Longrightarrow> reads c c' (to_le_bytes v32)"
  "cursor_i32 c = Inr (v32, c') \<Longrightarrow> reads c c' (to_le_bytes v32)"
  "cursor_u64 c = Inr (v64, c') \<Longrightarrow> reads c c' (to_le_bytes v64)"
  "cursor_i64 c = Inr (v64, c') \<Longrightarrow> reads c c' (to_le_bytes v64)"
  by (auto simp: cursor_u32_def cursor_i32_def cursor_u64_def cursor_i64_def and_then_eq_Inr_iff
      to_from_le_bytes dest!: cursor_take_reads)

lemma length_reads:
  "byte_length c = Inr (n, c') \<Longrightarrow>
     reads c c' (enc_len n) \<and> n < 2 ^ 64 \<and> cursor_bytes c' = cursor_bytes c"
  "collection_length c m = Inr (n, c') \<Longrightarrow>
     reads c c' (enc_len n) \<and> n < 2 ^ 64 \<and> cursor_bytes c' = cursor_bytes c"
  using unsigned_less[where ?'a = nat and ?'b = 64]
  by (auto simp: byte_length_def collection_length_def encoded_length_def enc_len_def
      and_then_eq_Inr_iff split: if_splits dest!: cursor_int_reads dest: reads_bytes)

lemma cursor_byte_seq_reads:
  assumes "cursor_byte_seq c = Inr (v, c')"
  shows "reads c c' (enc_bytes v) \<and> length v < 2 ^ 64"
proof -
  from assms obtain n c1 where n: "byte_length c = Inr (n, c1)" and v: "cursor_take c1 n = Inr (v, c')"
    by (auto simp: cursor_byte_seq_def and_then_eq_Inr_iff)
  from length_reads(1)[OF n] cursor_take_reads[OF v] show ?thesis
    by (auto simp: enc_bytes_def intro: reads_trans)
qed

lemma cursor_string_reads:
  "cursor_string c = Inr (v, c') \<Longrightarrow> reads c c' (enc_bytes v) \<and> length v < 2 ^ 64 \<and> valid_utf8 v"
  by (auto simp: cursor_string_def and_then_eq_Inr_iff split: if_splits dest: cursor_byte_seq_reads)

lemma map_key_reads:
  assumes "map_key c previous = Inr ((r, k), c')"
  shows "reads c c' (enc_bytes k) \<and> length k < 2 ^ 64 \<and> valid_utf8 k \<and>
    slice_range (cursor_bytes c) r = k \<and>
    (\<forall>p. previous = Some p \<longrightarrow> bytes_cmp (slice_range (cursor_bytes c) p) k = Less)"
proof -
  from assms have range: "map_key_range c previous = Inr (r, c')"
    and k: "k = slice_range (cursor_bytes c') r" "valid_utf8 k"
    by (auto simp: map_key_def Let_def and_then_eq_Inr_iff split: if_splits)
  then obtain n c1 v where n: "byte_length c = Inr (n, c1)" and v: "cursor_take c1 n = Inr (v, c')"
    and r: "r = (cursor_position c1, cursor_position c')"
    and p: "\<forall>p. previous = Some p \<longrightarrow> bytes_cmp (slice_range (cursor_bytes c') p) (slice_range (cursor_bytes c') r) = Less"
    by (auto simp: map_key_range_def string_range_def Let_def and_then_eq_Inr_iff
        split: if_splits option.splits)
  from cursor_take_reads[OF v] r k(1) have "k = v" by (auto simp: slice_range_def reads_def)
  moreover have "cursor_bytes c' = cursor_bytes c"
    using length_reads(1)[OF n] cursor_take_reads[OF v] by (auto dest!: reads_bytes)
  ultimately show ?thesis
    using length_reads(1)[OF n] cursor_take_reads[OF v] k p
    by (auto simp: enc_bytes_def intro: reads_trans)
qed

subsection \<open>Everything accepted is an encoding\<close>

text \<open>The bytes an open frame has consumed so far, and the frame invariant.\<close>

fun frame_bytes :: "DecodeFrame \<Rightarrow> bytes" where
  "frame_bytes (DFList n vals) = DOC_LIST # enc_len (n + length vals) @ enc_items vals"
| "frame_bytes (DFMap n vals previous pending) =
     DOC_MAP # enc_len (n + length vals) @ enc_entries vals @
     (case pending of None \<Rightarrow> [] | Some k \<Rightarrow> enc_bytes k)"

definition frames_bytes :: "DecodeFrame list \<Rightarrow> bytes" where
  "frames_bytes frames = concat (map frame_bytes (rev frames))"

fun frame_ok :: "bytes \<Rightarrow> DecodeFrame \<Rightarrow> bool" where
  "frame_ok bs (DFList n vals) = (0 < n \<and> n + length vals < 2 ^ 64 \<and> good_items vals)"
| "frame_ok bs (DFMap n vals previous pending) =
     (0 < n \<and> n + length vals < 2 ^ 64 \<and> good_entries vals \<and>
      (\<exists>k. pending = Some k \<and> slice_range bs previous = k \<and> valid_utf8 k \<and> length k < 2 ^ 64 \<and>
        strictly_sorted (map fst vals @ [k])))"

lemma frames_bytes_simps [simp]:
  "frames_bytes [] = []"
  "frames_bytes (f # frames) = frames_bytes frames @ frame_bytes f"
  by (simp_all add: frames_bytes_def)

lemma strictly_sorted_insert_last:
  assumes "strictly_sorted (map fst vals @ [k])"
  shows "btree_insert vals k d = (vals @ [(k, d)], None)"
proof (rule btree_insert_append)
  fix l
  assume "l \<in> fst ` set vals"
  then have l: "l \<in> set (map fst vals)" by auto
  with assms have "strictly_sorted (map fst vals)" "bytes_cmp (last (map fst vals)) k = Less"
    by (auto simp: strictly_sorted_append_one)
  with l show "bytes_cmp l k = Less"
    using strictly_sorted_less_last[of "map fst vals" k l] by (metis empty_iff list.set(1))
qed

lemma checked_sub_usize_simps [simp]:
  "0 < n \<Longrightarrow> checked_sub_usize n (Suc 0) = Some (n - Suc 0)"
  "checked_sub_usize 0 (Suc 0) = None"
  by (simp_all add: checked_sub_usize_def)

lemma complete_item_Decoded:
  "complete_item c frames item = Inr (Decoded d c') \<Longrightarrow> list_all (frame_ok (cursor_bytes c)) frames \<Longrightarrow>
   good_item item \<Longrightarrow>
   c' = c \<and> frames_bytes frames @ enc_item item = enc_item d \<and> good_item d"
proof (induction c frames item rule: complete_item.induct)
  case (2 c n vals frames item)
  then have "n = Suc 0" by (auto split: if_splits)
  moreover have "good_item (DList (vals @ [item]))"
    using 2 calculation by (auto simp: good_item_def good_items_def)
  ultimately show ?case using 2 by auto
next
  case (3 c n vals previous pending frames item)
  then obtain k where k: "pending = Some k" and sorted: "strictly_sorted (map fst vals @ [k])"
    and "valid_utf8 k" "length k < 2 ^ 64" by auto
  note ins = strictly_sorted_insert_last[OF sorted]
  have n: "n = Suc 0" using "3.prems" k ins by (auto simp: and_then_eq_Inr_iff split: if_splits)
  have "good_item (DMap (vals @ [(k, item)]))"
    using 3 n \<open>valid_utf8 k\<close> \<open>length k < 2 ^ 64\<close> sorted
    by (auto simp: good_item_def good_entries_def btree_ok_def)
  then show ?case
    using "3.IH"[of k "vals @ [(k, item)]" None 0] 3(2-) n k ins by auto
qed auto

lemma complete_item_NeedItem:
  "complete_item c frames item = Inr (NeedItem frames' c') \<Longrightarrow>
   list_all (frame_ok (cursor_bytes c)) frames \<Longrightarrow> good_item item \<Longrightarrow>
   list_all (frame_ok (cursor_bytes c)) frames' \<and>
   (\<exists>w. reads c c' w \<and> frames_bytes frames @ enc_item item @ w = frames_bytes frames')"
proof (induction c frames item rule: complete_item.induct)
  case (2 c n vals frames item)
  show ?case
  proof (cases "n = Suc 0")
    case True
    have "good_item (DList (vals @ [item]))"
      using 2 True by (auto simp: good_item_def good_items_def)
    with 2 True show ?thesis by auto
  next
    case False
    with 2 have "c' = c" "frames' = DFList (n - 1) (vals @ [item]) # frames" "1 < n"
      by (auto split: if_splits)
    with 2 show ?thesis
      by (auto simp: good_append_one reads_def intro!: exI[of _ "[]"])
  qed
next
  case (3 c n vals previous pending frames item)
  then obtain k where k: "pending = Some k" and sorted: "strictly_sorted (map fst vals @ [k])"
    and kk: "valid_utf8 k" "length k < 2 ^ 64" and slice_range: "slice_range (cursor_bytes c) previous = k"
    by auto
  note ins = strictly_sorted_insert_last[OF sorted]
  show ?case
  proof (cases "n = Suc 0")
    case True
    have "good_item (DMap (vals @ [(k, item)]))"
      using 3 True kk sorted by (auto simp: good_item_def good_entries_def btree_ok_def)
    then show ?thesis using "3.IH"[of k "vals @ [(k, item)]" None 0] 3(2-) True k ins by auto
  next
    case False
    with 3 k ins obtain r k' where
      mk: "map_key c (Some previous) = Inr ((r, k'), c')" and
      fr: "frames' = DFMap (n - 1) (vals @ [(k, item)]) r (Some k') # frames" and n: "1 < n"
      by (auto simp: and_then_eq_Inr_iff split: if_splits)
    note rd = map_key_reads[OF mk]
    have "strictly_sorted ((map fst vals @ [k]) @ [k'])"
      using sorted rd slice_range by (subst strictly_sorted_append_one) simp
    with 3 k rd fr n kk show ?thesis
      by (auto simp: good_append_one intro!: exI[of _ "enc_bytes k'"])
  qed
qed auto

lemma decode_value_reads:
  assumes "decode_value alloc c frames = Inr (completed, frames', c')"
  shows "case completed of
      Some item \<Rightarrow> frames' = frames \<and> reads c c' (enc_item item) \<and> good_item item
    | None \<Rightarrow> \<exists>f. frames' = f # frames \<and> frame_ok (cursor_bytes c) f \<and> reads c c' (frame_bytes f)"
proof -
  obtain tag c1 where tag: "cursor_byte c = Inr (tag, c1)"
    using assms by (auto simp: decode_value_def and_then_eq_Inr_iff)
  have r: "reads c c' (tag # w)" if "reads c1 c' w" for w
    using reads_trans[OF cursor_byte_reads[OF tag] that] by simp
  have r2: "reads c c' (tag # v @ w)" if "reads c1 c2 v" "reads c2 c' w" for c2 v w
    using r reads_trans[OF that] by simp
  have r3: "reads c c' (tag # v @ w @ x)" if "reads c1 c2 v" "reads c2 c3 w" "reads c3 c' x" for c2 c3 v w x
    using r2 that reads_trans by meson
  have r4: "reads c c' (tag # v @ w @ x @ y)"
    if "reads c1 c2 v" "reads c2 c3 w" "reads c3 c4 x" "reads c4 c' y" for c2 c3 c4 v w x y
    using r3 that reads_trans by meson
  have r0: "reads c c' [tag]" if "c' = c1" using that cursor_byte_reads[OF tag] by simp
  have bs: "cursor_bytes c1 = cursor_bytes c" using tag by (auto simp: cursor_byte_Inr)
  show ?thesis
    using assms tag r r2 r3 r4 r0 bs
    by (auto simp: decode_value_def read_scalar_def and_then_eq_Inr_iff good_item_def
        good_items_def good_entries_def btree_ok_def validate_float_bits_Inr
        split: if_splits dest!: cursor_int_reads cursor_string_reads cursor_byte_seq_reads
        length_reads map_key_reads dest: reads_bytes)
qed

lemma item_loop_sound:
  "item_loop alloc c frames = Inr (d, c') \<Longrightarrow> list_all (frame_ok (cursor_bytes c)) frames \<Longrightarrow>
   \<exists>w. reads c c' w \<and> frames_bytes frames @ w = enc_item d \<and> good_item d"
proof (induction alloc c frames rule: item_loop.induct)
  case (1 alloc c frames)
  from "1.prems"(1) obtain completed frames1 c1
    where dv: "decode_value alloc c frames = Inr (completed, frames1, c1)"
    by (subst (asm) item_loop.simps) (auto simp: and_then_eq_Inr_iff)
  note rd = decode_value_reads[OF dv]
  have rest: "\<exists>w'. reads c c' w' \<and> frames_bytes frames @ w' = enc_item d \<and> good_item d"
    if "reads c c2 v" "reads c2 c' w" "frames_bytes frames @ v @ w = enc_item d" "good_item d"
    for c2 v w
    using reads_trans[OF that(1,2)] that(3,4) by blast
  show ?case
  proof (cases completed)
    case None
    with rd obtain f where f: "frames1 = f # frames" "frame_ok (cursor_bytes c) f"
      "reads c c1 (frame_bytes f)" by auto
    have "item_loop alloc c1 frames1 = Inr (d, c')"
      using "1.prems"(1) dv None by (subst (asm) item_loop.simps) simp
    with "1.IH"(1)[OF dv refl refl None] f "1.prems"(2) reads_bytes[OF f(3)] obtain w
      where "reads c1 c' w" "frames_bytes frames1 @ w = enc_item d" "good_item d"
      by auto
    with rest[OF f(3), of w] f(1) show ?thesis by simp
  next
    case (Some item)
    with rd have item: "frames1 = frames" "reads c c1 (enc_item item)" "good_item item" by auto
    obtain step where step: "complete_item c1 frames1 item = Inr step"
      using "1.prems"(1) dv Some by (subst (asm) item_loop.simps) (auto simp: and_then_eq_Inr_iff)
    have bs: "cursor_bytes c1 = cursor_bytes c" using item(2) by (rule reads_bytes)
    show ?thesis
    proof (cases step)
      case (Decoded d1 c2)
      have "(d1, c2) = (d, c')"
        using "1.prems"(1) dv Some step Decoded by (subst (asm) item_loop.simps) simp
      with complete_item_Decoded[of c1 frames1 item d1 c2] step Decoded item "1.prems"(2) bs
      show ?thesis by auto
    next
      case (NeedItem frames2 c2)
      have loop: "item_loop alloc c2 frames2 = Inr (d, c')"
        using "1.prems"(1) dv Some step NeedItem by (subst (asm) item_loop.simps) simp
      from complete_item_NeedItem[of c1 frames1 item frames2 c2] step NeedItem item "1.prems"(2) bs
      obtain v where v: "list_all (frame_ok (cursor_bytes c)) frames2" "reads c1 c2 v"
        "frames_bytes frames @ enc_item item @ v = frames_bytes frames2" by auto
      with "1.IH"(2)[OF dv refl refl Some step NeedItem loop] bs reads_bytes[OF v(2)] obtain w
        where "reads c2 c' w" "frames_bytes frames2 @ w = enc_item d" "good_item d"
        by auto
      moreover from this(2) v(3) have "frames_bytes frames @ (enc_item item @ v) @ w = enc_item d"
        by (metis append.assoc)
      ultimately show ?thesis using rest[OF reads_trans[OF item(2) v(2)]] by blast
    qed
  qed
qed

lemma decode_sound:
  assumes "decode alloc bs root = Inr d"
  shows "bs = FORMAT_VERSION # enc_item d \<and> good_item d \<and> root_matches d root"
proof -
  let ?c = "\<lparr>cursor_bytes = bs, cursor_position = 0\<rparr>"
  from assms obtain c1 c2 where
    v: "cursor_byte ?c = Inr (FORMAT_VERSION, c1)" and
    i: "cursor_item alloc c1 = Inr (d, c2)" and
    e: "cursor_position c2 = length bs" and m: "root_matches d root"
    by (auto simp: decode_def and_then_eq_Inr_iff split: if_splits)
  note r1 = cursor_byte_reads[OF v]
  from i obtain w where w: "reads c1 c2 w" "w = enc_item d" "good_item d"
    using item_loop_sound[of alloc c1 "[]" d c2] by (auto simp: cursor_item_def)
  from reads_trans[OF r1 w(1)] e w(2) have "bs = FORMAT_VERSION # enc_item d"
    by (auto simp: reads_def)
  with w m show ?thesis by simp
qed

end
