(* ===== verification/Document_Roundtrip.thy ===== *)
theory Document_Roundtrip
  imports Document_Canonical
begin

text \<open>
  Completeness of the decoder: on the bytes the encoder writes, every read of the decoder loop
  succeeds and the tree comes back with its floats canonicalised. The bound \<open>2 ^ 63\<close> on the input
  length is the one Rust puts on every slice (\<open>isize::MAX\<close> bytes); under it no offset computation
  of the cursor overflows.
\<close>

subsection \<open>Reading what lies ahead\<close>

definition ahead :: "Cursor \<Rightarrow> bytes \<Rightarrow> bool" where
  "ahead c w \<longleftrightarrow>
     cursor_position c \<le> length (cursor_bytes c) \<and> length (cursor_bytes c) < 2 ^ 63 \<and>
     drop (cursor_position c) (cursor_bytes c) = w"

definition advance :: "Cursor \<Rightarrow> nat \<Rightarrow> Cursor" where
  "advance c n = c\<lparr>cursor_position := cursor_position c + n\<rparr>"

lemma advance_simps [simp]:
  "advance (advance c m) n = advance c (m + n)"
  "advance c 0 = c"
  "cursor_bytes (advance c n) = cursor_bytes c"
  "cursor_position (advance c n) = cursor_position c + n"
  by (simp_all add: advance_def add.assoc)

lemma ahead_length: "ahead c w \<Longrightarrow> cursor_position c + length w = length (cursor_bytes c)"
  by (auto simp: ahead_def)

lemma ahead_advance: "ahead c (v @ w) \<Longrightarrow> ahead (advance c (length v)) w"
proof -
  assume a: "ahead c (v @ w)"
  have "drop (cursor_position c + length v) (cursor_bytes c) =
    drop (length v) (drop (cursor_position c) (cursor_bytes c))"
    by (simp add: drop_drop add.commute)
  with a ahead_length[OF a] show ?thesis by (auto simp: ahead_def)
qed

lemma take_ahead:
  "ahead c (v @ w) \<Longrightarrow> cursor_take c (length v) = Inr (v, advance c (length v))"
  using ahead_length[of c "v @ w"]
  by (auto simp: cursor_take_Inr ahead_def advance_def)

lemma byte_ahead:
  assumes "ahead c (b # w)"
  shows "cursor_byte c = Inr (b, advance c 1) \<and> ahead (advance c 1) w"
  using assms take_ahead[of c "[b]" w] ahead_advance[of c "[b]" w] by (simp_all add: cursor_byte_def)

lemma int_ahead:
  "ahead c (to_le_bytes v32 @ w) \<Longrightarrow>
     cursor_u32 c = Inr (v32, advance c 4) \<and> cursor_i32 c = Inr (v32, advance c 4) \<and>
     ahead (advance c 4) w"
  "ahead c (to_le_bytes v64 @ w) \<Longrightarrow>
     cursor_u64 c = Inr (v64, advance c 8) \<and> cursor_i64 c = Inr (v64, advance c 8) \<and>
     ahead (advance c 8) w"
  for v32 :: u32 and v64 :: u64
  using take_ahead[of c "to_le_bytes v32" w] take_ahead[of c "to_le_bytes v64" w]
    ahead_advance[of c "to_le_bytes v32" w] ahead_advance[of c "to_le_bytes v64" w]
  by (auto simp: cursor_u32_def cursor_i32_def cursor_u64_def cursor_i64_def)

lemma unat_word_of_nat_u64 [simp]: "n < 2 ^ 64 \<Longrightarrow> unat (word_of_nat n :: u64) = n"
  by (simp add: unat_of_nat)

lemma remaining_ahead: "ahead c w \<Longrightarrow> cursor_remaining c = length w"
  by (auto simp: cursor_remaining_def ahead_def)

lemma length_ahead:
  assumes "ahead c (enc_len n @ w)" "n < 2 ^ 64"
  shows "n \<le> length w \<Longrightarrow> byte_length c = Inr (n, advance c 8)"
    "n \<le> length w div m \<Longrightarrow> collection_length c m = Inr (n, advance c 8)"
    "ahead (advance c 8) w"
  using assms int_ahead(2)[of c "word_of_nat n" w]
  by (auto simp: enc_len_def byte_length_def collection_length_def encoded_length_def remaining_ahead)

lemma length_enc [simp]: "length (enc_len n) = 8" "length (enc_bytes v) = 8 + length v"
  by (simp_all add: enc_len_def enc_bytes_def)

lemma byte_seq_ahead:
  assumes "ahead c (enc_bytes v @ w)" "length v < 2 ^ 64"
  shows "cursor_byte_seq c = Inr (v, advance c (8 + length v)) \<and>
    (valid_utf8 v \<longrightarrow> cursor_string c = Inr (v, advance c (8 + length v))) \<and>
    ahead (advance c (8 + length v)) w"
proof -
  have "ahead c (enc_len (length v) @ v @ w)" using assms(1) by (simp add: enc_bytes_def)
  note l = length_ahead[OF this assms(2)]
  have "cursor_byte_seq c = Inr (v, advance c (8 + length v))"
    using l(1) take_ahead[OF l(3)] by (simp add: cursor_byte_seq_def)
  with ahead_advance[OF l(3)] show ?thesis by (simp add: cursor_string_def)
qed

definition key_range :: "Cursor \<Rightarrow> str \<Rightarrow> nat \<times> nat" where
  "key_range c k = (cursor_position c + 8, cursor_position c + 8 + length k)"

lemma slice_ahead:
  assumes "ahead c (enc_bytes k @ w)"
  shows "slice_range (cursor_bytes c) (key_range c k) = k"
proof -
  have "ahead (advance c 8) (k @ w)"
    using assms ahead_advance[of c "enc_len (length k)" "k @ w"]
    by (simp add: enc_bytes_def enc_len_def)
  then show ?thesis by (simp add: slice_range_def key_range_def ahead_def)
qed

lemma map_key_ahead:
  assumes "ahead c (enc_bytes k @ w)" "length k < 2 ^ 64" "valid_utf8 k"
    and "\<And>p. previous = Some p \<Longrightarrow> bytes_cmp (slice_range (cursor_bytes c) p) k = Less"
  shows "map_key c previous = Inr ((key_range c k, k), advance c (8 + length k))"
proof -
  have a: "ahead (advance c 8) (k @ w)" "byte_length c = Inr (length k, advance c 8)"
    using assms(1,2) length_ahead[of c "length k" "k @ w"] by (simp_all add: enc_bytes_def)
  then have t: "cursor_take (advance c 8) (length k) = Inr (k, advance c (8 + length k))"
    using take_ahead[of "advance c 8" k w] by simp
  then have "string_range c = Inr (key_range c k, advance c (8 + length k))"
    using a assms(3) by (simp add: string_range_def Let_def key_range_def)
  then show ?thesis
    using assms(3,4) slice_ahead[OF assms(1)]
    by (auto simp: map_key_def map_key_range_def Let_def split: option.split)
qed

subsection \<open>One value\<close>

lemma decode_scalar_ahead:
  assumes "ahead c (enc_scalar v @ w)" "encodable_scalar v" "scalar_utf8 v"
  shows "decode_value alloc c frames =
      Inr (Some (DScalar (canon_scalar v)), frames, advance c (length (enc_scalar v)))"
proof -
  have fl: "validate_float_bits (canonical_f64 f) = Inr ()" for f
    by (simp add: validate_float_bits_Inr)
  show ?thesis
    using assms
    by (cases v)
      (auto simp: decode_value_def read_scalar_def fl dest!: byte_ahead int_ahead byte_seq_ahead
        split: if_splits)
qed

subsection \<open>Whole trees\<close>

text \<open>What the decoder does once a value is complete.\<close>

definition finish ::
  "allocator \<Rightarrow> Cursor \<Rightarrow> DecodeFrame list \<Rightarrow> DocumentItem \<Rightarrow> (DocumentItem \<times> Cursor) result" where
  "finish alloc c frames item =
     and_then (complete_item c frames item) (\<lambda>step.
       case step of
         Decoded d c \<Rightarrow> Ok (d, c)
       | NeedItem frames c \<Rightarrow> item_loop alloc c frames)"

lemma item_loop_Some:
  "decode_value alloc c frames = Inr (Some item, frames', c') \<Longrightarrow>
   item_loop alloc c frames = finish alloc c' frames' item"
  by (subst item_loop.simps) (simp add: finish_def)

lemma item_loop_None:
  "decode_value alloc c frames = Inr (None, frames', c') \<Longrightarrow>
   item_loop alloc c frames = item_loop alloc c' frames'"
  by (subst item_loop.simps) simp

lemma finish_list:
  "finish alloc c (DFList (Suc n) vals # frames) item =
     (if n = 0 then finish alloc c frames (DList (vals @ [item]))
      else item_loop alloc c (DFList n (vals @ [item]) # frames))"
  by (simp add: finish_def)

lemma finish_map:
  assumes "strictly_sorted (map fst vals @ [k])"
  shows "finish alloc c (DFMap (Suc 0) vals p (Some k) # frames) item =
      finish alloc c frames (DMap (vals @ [(k, item)]))"
    and "0 < n \<Longrightarrow> map_key c (Some p) = Inr ((r, k'), c') \<Longrightarrow>
      finish alloc c (DFMap (Suc n) vals p (Some k) # frames) item =
      item_loop alloc c' (DFMap n (vals @ [(k, item)]) r (Some k') # frames)"
  using strictly_sorted_insert_last[OF assms] by (simp_all add: finish_def)

lemma enc_minimum_length:
  "encodable_item d \<Longrightarrow> 1 \<le> length (enc_item d)"
  "encodable_items ds \<Longrightarrow> length ds \<le> length (enc_items ds)"
  "encodable_entries kvs \<Longrightarrow> 9 * length kvs \<le> length (enc_entries kvs)"
proof (induction d and ds and kvs rule: enc_item_enc_items_enc_entries.induct)
  case (1 v)
  then show ?case by (cases v) auto
qed auto

lemma decode_collection_ahead:
  assumes "granting alloc"
  shows "ahead c (DOC_LIST # enc_len (length ds) @ enc_items ds @ w) \<Longrightarrow>
      encodable_item (DList ds) \<Longrightarrow>
      ahead (advance c 9) (enc_items ds @ w) \<and>
      decode_value alloc c frames =
        (if ds = [] then Inr (Some (DList []), frames, advance c 9)
         else Inr (None, DFList (length ds) [] # frames, advance c 9))"
    and "ahead c (DOC_MAP # enc_len (length kvs) @ enc_entries kvs @ w) \<Longrightarrow>
      encodable_item (DMap kvs) \<Longrightarrow>
      ahead (advance c 9) (enc_entries kvs @ w) \<and>
      decode_value alloc c frames =
        (if kvs = [] then Inr (Some (DMap []), frames, advance c 9)
         else
           and_then (map_key (advance c 9) None) (\<lambda>((previous_key, pending_key), c).
             Inr (None, DFMap (length kvs) [] previous_key (Some pending_key) # frames, c)))"
proof -
  assume a: "ahead c (DOC_LIST # enc_len (length ds) @ enc_items ds @ w)" "encodable_item (DList ds)"
  then have b: "cursor_byte c = Inr (DOC_LIST, advance c 1)"
    "ahead (advance c 1) (enc_len (length ds) @ enc_items ds @ w)" by (auto dest!: byte_ahead)
  have "length ds \<le> length (enc_items ds @ w) div 1"
    using enc_minimum_length(2)[of ds] a(2) by simp
  with length_ahead(2,3)[OF b(2)] a(2) b(1)
  show "ahead (advance c 9) (enc_items ds @ w) \<and> decode_value alloc c frames =
        (if ds = [] then Inr (Some (DList []), frames, advance c 9)
         else Inr (None, DFList (length ds) [] # frames, advance c 9))"
    using assms by (simp add: decode_value_def output_granted) (simp add: granting_def)
next
  assume a: "ahead c (DOC_MAP # enc_len (length kvs) @ enc_entries kvs @ w)"
    "encodable_item (DMap kvs)"
  then have b: "cursor_byte c = Inr (DOC_MAP, advance c 1)"
    "ahead (advance c 1) (enc_len (length kvs) @ enc_entries kvs @ w)" by (auto dest!: byte_ahead)
  have "length kvs \<le> length (enc_entries kvs @ w) div 9"
    using enc_minimum_length(3)[of kvs] a(2) by simp
  with length_ahead(2,3)[OF b(2)] a(2) b(1)
  show "ahead (advance c 9) (enc_entries kvs @ w) \<and> decode_value alloc c frames =
        (if kvs = [] then Inr (Some (DMap []), frames, advance c 9)
         else
           and_then (map_key (advance c 9) None) (\<lambda>((previous_key, pending_key), c).
             Inr (None, DFMap (length kvs) [] previous_key (Some pending_key) # frames, c)))"
    using assms by (simp add: decode_value_def output_granted)
qed

lemma strictly_sorted_prefix: "strictly_sorted (ks @ ls) \<Longrightarrow> strictly_sorted ks"
  by (induction ks rule: strictly_sorted.induct) auto

lemma strictly_sorted_adjacent: "strictly_sorted (ks @ k # l # ls) \<Longrightarrow> bytes_cmp k l = Less"
  by (induction ks rule: strictly_sorted.induct) auto

lemma item_loop_ahead:
  assumes alloc: "granting alloc"
  shows "ahead c (enc_item d @ w) \<Longrightarrow> encodable_item d \<Longrightarrow> wf_item d \<Longrightarrow>
      item_loop alloc c frames = finish alloc (advance c (length (enc_item d))) frames (canon_item d)"
    and "ds \<noteq> [] \<Longrightarrow> ahead c (enc_items ds @ w) \<Longrightarrow> encodable_items ds \<Longrightarrow> wf_items ds \<Longrightarrow>
      item_loop alloc c (DFList (length ds) vals # frames) =
      finish alloc (advance c (length (enc_items ds))) frames (DList (vals @ canon_items ds))"
    and "kvs \<noteq> [] \<Longrightarrow> ahead c (enc_entries kvs @ w) \<Longrightarrow> encodable_entries kvs \<Longrightarrow> wf_entries kvs \<Longrightarrow>
      strictly_sorted (map fst vs @ map fst kvs) \<Longrightarrow>
      (\<And>p. previous = Some p \<Longrightarrow> slice_range (cursor_bytes c) p = last (map fst vs) \<and> vs \<noteq> []) \<Longrightarrow>
      and_then (map_key c previous) (\<lambda>((r, k), c').
        item_loop alloc c' (DFMap (length kvs) vs r (Some k) # frames)) =
      finish alloc (advance c (length (enc_entries kvs))) frames (DMap (vs @ canon_entries kvs))"
proof (induction d and ds and kvs arbitrary: c w frames and c w frames vals
    and c w frames vs previous rule: enc_item_enc_items_enc_entries.induct)
  case (1 v)
  then show ?case using decode_scalar_ahead by (auto intro!: item_loop_Some)
next
  case (2 ds)
  note dv = decode_collection_ahead(1)[OF alloc, where c = c and ds = ds and w = w and frames = frames]
  show ?case
  proof (cases "ds = []")
    case True
    with 2 dv show ?thesis by (auto simp: item_loop_Some)
  next
    case False
    with 2 dv have "item_loop alloc c frames = item_loop alloc (advance c 9) (DFList (length ds) [] # frames)"
      by (auto intro!: item_loop_None)
    with 2 dv False "2.IH"[OF False, where c = "advance c 9" and w = w and vals = "[]" and frames = frames]
    show ?thesis by simp
  qed
next
  case (3 kvs)
  note dv = decode_collection_ahead(2)[OF alloc, where c = c and kvs = kvs and w = w and frames = frames]
  show ?case
  proof (cases "kvs = []")
    case True
    with 3 dv show ?thesis by (auto simp: item_loop_Some)
  next
    case False
    with 3 dv have "item_loop alloc c frames =
      and_then (map_key (advance c 9) None) (\<lambda>((r, k), c').
        item_loop alloc c' (DFMap (length kvs) [] r (Some k) # frames))"
      by (subst item_loop.simps) (auto simp: and_then_def split: sum.splits)
    with 3 dv False "3.IH"[OF False, where c = "advance c 9" and w = w and vs = "[]" and frames = frames
        and previous = None]
    show ?thesis by (simp add: btree_ok_def)
  qed
next
  case (5 d ds)
  have a: "ahead c (enc_item d @ enc_items ds @ w)" using "5.prems" by simp
  have "item_loop alloc c (DFList (length (d # ds)) vals # frames) =
    finish alloc (advance c (length (enc_item d))) (DFList (Suc (length ds)) vals # frames) (canon_item d)"
    using "5.IH"(1)[OF a] "5.prems" by simp
  also have "\<dots> = finish alloc (advance c (length (enc_items (d # ds)))) frames
    (DList (vals @ canon_items (d # ds)))"
  proof (cases "ds = []")
    case False
    then show ?thesis
      using "5.IH"(2)[OF _ ahead_advance[OF a], where vals = "vals @ [canon_item d]" and frames = frames] "5.prems"
      by (simp add: finish_list)
  qed (simp add: finish_list)
  finally show ?case .
next
  case (7 k d kvs)
  have a: "ahead c (enc_bytes k @ enc_item d @ enc_entries kvs @ w)" using "7.prems" by simp
  let ?c1 = "advance c (8 + length k)"
  have a1: "ahead ?c1 (enc_item d @ enc_entries kvs @ w)" using ahead_advance[OF a] by simp
  let ?c2 = "advance ?c1 (length (enc_item d))"
  have a2: "ahead ?c2 (enc_entries kvs @ w)" using ahead_advance[OF a1] .
  have sorted: "strictly_sorted (map fst vs @ k # map fst kvs)" using "7.prems" by simp
  then have sk: "strictly_sorted (map fst vs @ [k])"
    using strictly_sorted_prefix[of "map fst vs @ [k]" "map fst kvs"] by simp
  have mk: "map_key c previous = Inr ((key_range c k, k), ?c1)"
    using "7.prems" sk by (intro map_key_ahead[OF a]) (auto simp: strictly_sorted_append_one)
  have "item_loop alloc ?c1 (DFMap (Suc (length kvs)) vs (key_range c k) (Some k) # frames) =
    finish alloc ?c2 (DFMap (Suc (length kvs)) vs (key_range c k) (Some k) # frames) (canon_item d)"
    using "7.IH"(1)[OF a1] "7.prems" by simp
  also have "\<dots> = finish alloc (advance c (length (enc_entries ((k, d) # kvs)))) frames
    (DMap (vs @ canon_entries ((k, d) # kvs)))"
  proof (cases kvs)
    case Nil
    then show ?thesis using finish_map(1)[OF sk] by (simp add: add.assoc)
  next
    case (Cons kd kvs')
    have "finish alloc ?c2 (DFMap (Suc (length kvs)) vs (key_range c k) (Some k) # frames) (canon_item d) =
      and_then (map_key ?c2 (Some (key_range c k))) (\<lambda>((r, k'), c').
        item_loop alloc c' (DFMap (length kvs) (vs @ [(k, canon_item d)]) r (Some k') # frames))"
      using Cons strictly_sorted_insert_last[OF sk]
      by (auto simp: finish_def and_then_def split: sum.splits)
    also have "\<dots> = finish alloc (advance ?c2 (length (enc_entries kvs))) frames
        (DMap ((vs @ [(k, canon_item d)]) @ canon_entries kvs))"
      using "7.IH"(2)[OF _ a2, where vs = "vs @ [(k, canon_item d)]" and previous = "Some (key_range c k)" and frames = frames]
        "7.prems" Cons sorted slice_ahead[OF a] by simp
    finally show ?thesis by (simp add: add.assoc)
  qed
  finally show ?case using mk by simp
qed simp_all

end
