(* ===== verification/Document_Validate.thy ===== *)
theory Document_Validate
  imports Document_Roundtrip
begin

text \<open>
  The validator simulates the decoder: erasing the decoded values from the decoder's frames gives
  the validator's frames, step by step, with equal errors. The document properties of the
  development are stated at the end of this theory.
\<close>

subsection \<open>Bounded cursors\<close>

definition bounded :: "Cursor \<Rightarrow> bool" where
  "bounded c \<longleftrightarrow>
     cursor_position c \<le> length (cursor_bytes c) \<and> length (cursor_bytes c) < 2 ^ 63"

lemma reads_bounded: "reads c c' w \<Longrightarrow> bounded c \<Longrightarrow> bounded c'"
proof -
  assume r: "reads c c' w" and b: "bounded c"
  from r have "length (take (length w) (drop (cursor_position c) (cursor_bytes c))) = length w"
    by (simp add: reads_def)
  then have "min (length w) (length (cursor_bytes c) - cursor_position c) = length w" by simp
  with r b show ?thesis by (auto simp: reads_def bounded_def min_def split: if_splits)
qed

lemmas fixed_reads = skipped_def cursor_take_def cursor_u32_def cursor_i32_def cursor_u64_def
  cursor_i64_def checked_add_usize_def bounded_def

lemma skip_fixed:
  assumes "bounded c"
  shows "skipped (cursor_take c 8) fs = skipped (cursor_i64 c) fs"
    "skipped (cursor_take c 12) fs = and_then (cursor_i64 c) (\<lambda>(_, c). skipped (cursor_i32 c) fs)"
    "skipped (cursor_take c 12) fs = and_then (cursor_i64 c) (\<lambda>(_, c). skipped (cursor_u32 c) fs)"
    "and_then (cursor_take c 12) (\<lambda>(_, c). f c) =
       and_then (cursor_i64 c) (\<lambda>(_, c). and_then (cursor_u32 c) (\<lambda>(_, c). f c))"
    "skipped (cursor_take c 28) fs =
       and_then (cursor_i64 c) (\<lambda>(_, c). and_then (cursor_i64 c) (\<lambda>(_, c).
       and_then (cursor_i64 c) (\<lambda>(_, c). skipped (cursor_i32 c) fs)))"
  using assms by (auto simp: fixed_reads add.assoc)

lemma map_key_conv:
  "map_key c p = and_then (map_key_range c p) (\<lambda>(r, c'). Ok ((r, slice_range (cursor_bytes c) r), c'))"
proof (cases "map_key_range c p")
  case (Inr rc)
  obtain r c' where rc: "rc = (r, c')" by (cases rc)
  from Inr rc obtain n c1 v where n: "byte_length c = Inr (n, c1)"
    and v: "cursor_take c1 n = Inr (v, c')"
    and r: "r = (cursor_position c1, cursor_position c')" and u: "valid_utf8 v"
    by (auto simp: map_key_range_def string_range_def Let_def and_then_eq_Inr_iff
        split: if_splits)
  have "cursor_bytes c' = cursor_bytes c"
    using length_reads(1)[OF n] cursor_take_reads[OF v] by (auto dest!: reads_bytes)
  moreover have "slice_range (cursor_bytes c') r = v"
    using v r by (auto simp: slice_range_def cursor_take_Inr)
  ultimately show ?thesis using Inr rc u by (simp add: map_key_def)
qed (simp add: map_key_def)

subsection \<open>Erasing decoded values\<close>

fun erase_frame :: "DecodeFrame \<Rightarrow> ValidationFrame" where
  "erase_frame (DFList n vals) = VList n"
| "erase_frame (DFMap n vals previous pending) = VMap n previous"

lemma skip_value_erase:
  assumes "bounded c" "granting alloc"
  shows "skip_value alloc c (map erase_frame frames) =
    and_then (decode_value alloc c frames) (\<lambda>(completed, frames, c).
      Ok (completed \<noteq> None, map erase_frame frames, c))"
proof (cases "cursor_byte c")
  case (Inr tc)
  obtain tag c1 where tc: "tc = (tag, c1)" by (cases tc)
  have b1: "bounded c1" using reads_bounded[OF cursor_byte_reads] Inr tc assms(1) by auto
  note skip = skip_fixed[OF b1, unfolded skipped_def case_prod_beta']
  consider "tag = DOC_NULL" | "tag = DOC_FALSE" | "tag = DOC_TRUE" | "tag = DOC_INTEGER"
    | "tag = DOC_FLOAT" | "tag = DOC_STRING" | "tag = DOC_BYTES" | "tag = DOC_DATE"
    | "tag = DOC_LOCAL_TIME" | "tag = DOC_ZONED_TIME" | "tag = DOC_LOCAL_DATETIME"
    | "tag = DOC_ZONED_DATETIME" | "tag = DOC_DURATION" | "tag = DOC_LIST" | "tag = DOC_MAP"
    | "\<not> (tag = DOC_NULL \<or> tag = DOC_FALSE \<or> tag = DOC_TRUE \<or> tag = DOC_INTEGER
        \<or> tag = DOC_FLOAT \<or> tag = DOC_STRING \<or> tag = DOC_BYTES \<or> tag = DOC_DATE
        \<or> tag = DOC_LOCAL_TIME \<or> tag = DOC_ZONED_TIME \<or> tag = DOC_LOCAL_DATETIME
        \<or> tag = DOC_ZONED_DATETIME \<or> tag = DOC_DURATION \<or> tag = DOC_LIST \<or> tag = DOC_MAP)"
    by blast
  then show ?thesis
  proof cases
    case 10
    then show ?thesis using Inr tc by (simp add: skip_value_def decode_value_def skipped_def read_scalar_def and_then_assoc case_prod_beta' skip(2))
  next
    case 11
    then show ?thesis using Inr tc by (simp add: skip_value_def decode_value_def skipped_def read_scalar_def and_then_assoc case_prod_beta' skip(3))
  next
    case 12
    then show ?thesis using Inr tc by (simp add: skip_value_def decode_value_def skipped_def read_scalar_def and_then_assoc case_prod_beta' 
          skip(4)[where f = "\<lambda>c. and_then (cursor_string c) (\<lambda>x. Ok (True, map erase_frame frames, snd x))"])
  next
    case 13
    then show ?thesis using Inr tc by (simp add: skip_value_def decode_value_def skipped_def read_scalar_def and_then_assoc case_prod_beta' skip(5))
  next
    case 14
    then show ?thesis using Inr tc assms(2)
      by (cases "collection_length c1 1") (auto simp: skip_value_def decode_value_def output_granted granting_def)
  next
    case 15
    then show ?thesis using Inr tc assms(2)
      by (cases "collection_length c1 9")
        (auto simp: skip_value_def decode_value_def output_granted map_key_conv and_then_assoc
          case_prod_beta')
  qed (use Inr tc in \<open>simp_all add: skip_value_def decode_value_def skipped_def read_scalar_def and_then_assoc case_prod_beta' skip(1)\<close>)
qed (simp add: skip_value_def decode_value_def)

lemma skip_complete_erase:
  "list_all (frame_ok (cursor_bytes c)) frames \<Longrightarrow> good_item item \<Longrightarrow>
   skip_complete c (map erase_frame frames) =
     and_then (complete_item c frames item) (\<lambda>step.
       Ok (case step of
         Decoded d c \<Rightarrow> SkipDone c
       | NeedItem frames c \<Rightarrow> SkipMore (map erase_frame frames) c))"
proof (induction c frames item rule: complete_item.induct)
  case (2 c n vals frames item)
  have "n = Suc 0 \<Longrightarrow> good_item (DList (vals @ [item]))"
    using "2.prems" by (auto simp: good_item_def good_items_def)
  with 2 show ?case by auto
next
  case (3 c n vals previous pending frames item)
  then obtain k where k: "pending = Some k" and sorted: "strictly_sorted (map fst vals @ [k])"
    and kk: "valid_utf8 k" "length k < 2 ^ 64" by auto
  note ins = strictly_sorted_insert_last[OF sorted]
  have "n = Suc 0 \<Longrightarrow> good_item (DMap (vals @ [(k, item)]))"
    using "3.prems" kk sorted by (auto simp: good_item_def good_entries_def btree_ok_def)
  then show ?case
    using "3.prems" "3.IH"[of k "vals @ [(k, item)]" None 0] k ins
    by (auto simp: map_key_conv and_then_assoc case_prod_beta')
qed simp

lemma skip_loop_erase:
  "bounded c \<Longrightarrow> granting alloc \<Longrightarrow> list_all (frame_ok (cursor_bytes c)) frames \<Longrightarrow>
   skip_loop alloc c (map erase_frame frames) = and_then (item_loop alloc c frames) (\<lambda>(d, c). Ok c)"
proof (induction alloc c frames rule: item_loop.induct)
  case (1 alloc c frames)
  note sv = skip_value_erase[OF "1.prems"(1,2), of frames]
  show ?case
  proof (cases "decode_value alloc c frames")
    case (Inl e)
    with sv show ?thesis by (simp add: skip_loop.simps[of alloc c] item_loop.simps[of alloc c])
  next
    case (Inr r)
    obtain completed frames1 c1 where r: "r = (completed, frames1, c1)" by (cases r)
    note dv = Inr[unfolded r]
    note rd = decode_value_reads[OF dv]
    show ?thesis
    proof (cases completed)
      case None
      with rd obtain f where f: "frames1 = f # frames" "frame_ok (cursor_bytes c) f"
        "reads c c1 (frame_bytes f)" by auto
      have "skip_loop alloc c1 (map erase_frame frames1) = and_then (item_loop alloc c1 frames1) (\<lambda>(d, c). Ok c)"
        using "1.IH"(1)[OF dv refl refl None] f "1.prems" reads_bytes[OF f(3)] reads_bounded[OF f(3)]
        by simp
      with sv dv None show ?thesis
        by (simp add: skip_loop.simps[of alloc c] item_loop.simps[of alloc c])
    next
      case (Some item)
      with rd have item: "frames1 = frames" "reads c c1 (enc_item item)" "good_item item" by auto
      have bs: "cursor_bytes c1 = cursor_bytes c" using item(2) by (rule reads_bytes)
      have b1: "bounded c1" using reads_bounded item "1.prems" by blast
      note sc = skip_complete_erase[of c1 frames item]
      show ?thesis
      proof (cases "complete_item c1 frames item")
        case (Inl e)
        with sv dv Some item sc bs "1.prems" show ?thesis
          by (simp add: skip_loop.simps[of alloc c] item_loop.simps[of alloc c])
      next
        case (Inr step)
        show ?thesis
        proof (cases step)
          case (Decoded d c2)
          with sv dv Some item sc bs "1.prems" Inr show ?thesis
            by (simp add: skip_loop.simps[of alloc c] item_loop.simps[of alloc c])
        next
          case (NeedItem frames2 c2)
          from complete_item_NeedItem[of c1 frames item frames2 c2] Inr NeedItem item "1.prems"(3) bs
          obtain v where v: "list_all (frame_ok (cursor_bytes c)) frames2" "reads c1 c2 v" by auto
          have "skip_loop alloc c2 (map erase_frame frames2) =
            and_then (item_loop alloc c2 frames2) (\<lambda>(d, c). Ok c)"
            using "1.IH"(2)[OF dv refl refl Some _ NeedItem] Inr item v "1.prems" bs
              reads_bytes[OF v(2)] reads_bounded[OF v(2) b1] by simp
          with sv dv Some item sc bs "1.prems" Inr NeedItem show ?thesis
            by (simp add: skip_loop.simps[of alloc c] item_loop.simps[of alloc c])
        qed
      qed
    qed
  qed
qed

subsection \<open>Properties of the document format\<close>

lemma root_matches_tag:
  "encodable_item d \<Longrightarrow> enc_item d = root_tag root # w \<Longrightarrow> root_matches d root"
proof (cases d)
  case (DScalar v)
  then show "enc_item d = root_tag root # w \<Longrightarrow> root_matches d root"
    by (cases v; cases root) (auto simp: root_tag_def split: if_splits)
qed (cases root; simp add: root_matches_def root_tag_def)+

lemma decode_encode:
  assumes "encode alloc d root = Ok bs" "wf_item d" "length bs < 2 ^ 63" "granting alloc'"
  shows "decode alloc' bs root = Ok (canon_item d)"
proof -
  from encode_Ok_iff[OF assms(1)] have bs: "bs = FORMAT_VERSION # enc_item d"
    and enc: "encodable_item d" and root: "root_matches d root" by auto
  let ?c = "\<lparr>cursor_bytes = bs, cursor_position = 0\<rparr>"
  have "ahead ?c (FORMAT_VERSION # enc_item d)" using bs assms(3) by (simp add: ahead_def)
  from byte_ahead[OF this] have v: "cursor_byte ?c = Inr (FORMAT_VERSION, advance ?c 1)"
    and a: "ahead (advance ?c 1) (enc_item d @ [])" by auto
  have "item_loop alloc' (advance ?c 1) [] =
    finish alloc' (advance (advance ?c 1) (length (enc_item d))) [] (canon_item d)"
    by (rule item_loop_ahead(1)[OF assms(4) a enc assms(2)])
  then have i: "cursor_item alloc' (advance ?c 1) = Inr (canon_item d, advance ?c (1 + length (enc_item d)))"
    by (simp add: cursor_item_def finish_def)
  have tag: "\<exists>w. enc_item d = root_tag root # w" "root_matches (canon_item d) root"
    using root by (cases rule: root_matches_cases; simp add: root_tag_def root_matches_def)+
  with v i bs show ?thesis by (auto simp: decode_def validate_size_def)
qed

text \<open>
  C1. Round trip. Whenever encoding a well-formed document tree succeeds, decoding the bytes with
  the same root kind and enough memory returns that tree, with every NaN and every zero in canonical form.
\<close>

theorem document_roundtrip:
  assumes "encode alloc d root = Ok bs" "wf_item d" "length bs < 2 ^ 63" "granting alloc'"
  shows "decode alloc' bs root = Ok (canon_item d)"
  using assms by (rule decode_encode)

theorem document_roundtrip_witness:
  "encode (\<lambda>_. True) (DMap [([97], DScalar (SFloat 0x8000000000000000))]) RootMap =
     Ok [3, 14, 1, 0, 0, 0, 0, 0, 0, 0, 1, 0, 0, 0, 0, 0, 0, 0, 97, 4, 0, 0, 0, 0, 0, 0, 0, 0] \<and>
   decode (\<lambda>_. True)
     [3, 14, 1, 0, 0, 0, 0, 0, 0, 0, 1, 0, 0, 0, 0, 0, 0, 0, 97, 4, 0, 0, 0, 0, 0, 0, 0, 0] RootMap =
     Ok (DMap [([97], DScalar (SFloat 0))])"
proof -
  let ?d = "DMap [([97], DScalar (SFloat 0x8000000000000000))]"
  have e: "encode (\<lambda>_. True) ?d RootMap =
    Ok [3, 14, 1, 0, 0, 0, 0, 0, 0, 0, 1, 0, 0, 0, 0, 0, 0, 0, 97, 4, 0, 0, 0, 0, 0, 0, 0, 0]"
    by code_simp
  have "wf_item ?d" by code_simp
  from document_roundtrip[OF e this, of "\<lambda>_. True"] have
    "decode (\<lambda>_. True)
     [3, 14, 1, 0, 0, 0, 0, 0, 0, 0, 1, 0, 0, 0, 0, 0, 0, 0, 97, 4, 0, 0, 0, 0, 0, 0, 0, 0] RootMap =
     Ok (canon_item ?d)" by (simp add: granting_def)
  moreover have "canon_item ?d = DMap [([97], DScalar (SFloat 0))]" by code_simp
  ultimately show ?thesis using e by simp
qed

text \<open>
  C2. Canonical bytes. Whatever the decoder accepts is the one encoding of the tree it returns:
  encoding that tree again, with enough memory, gives back the same bytes, and the tree is well formed and canonical.
\<close>

theorem document_canonical:
  assumes "decode alloc bs root = Ok d" "granting alloc'"
  shows "encode alloc' d root = Ok bs \<and> wf_item d \<and> canon_item d = d"
  using decode_sound[OF assms(1)] encode_total[OF assms(2)] by (auto simp: good_item_def)

theorem document_canonical_witness:
  "decode (\<lambda>_. True) [3, 13, 1, 0, 0, 0, 0, 0, 0, 0, 2] RootList =
     Ok (DList [DScalar (SBoolean True)]) \<and>
   encode (\<lambda>_. True) (DList [DScalar (SBoolean True)]) RootList =
     Ok [3, 13, 1, 0, 0, 0, 0, 0, 0, 0, 2]"
proof -
  have d: "decode (\<lambda>_. True) [3, 13, 1, 0, 0, 0, 0, 0, 0, 0, 2] RootList =
     Ok (DList [DScalar (SBoolean True)])" by code_simp
  from document_canonical[OF d, of "\<lambda>_. True"] d show ?thesis by (simp add: granting_def)
qed

text \<open>
  C3. The validator agrees with the decoder. On every input a Rust slice can hold,
  \<open>validate_canonical\<close> succeeds exactly when decoding with enough memory does, and otherwise fails with
  the very same error, although it never builds a value.
\<close>

theorem validate_canonical_equivalent:
  assumes "length bs < 2 ^ 63" "granting alloc"
  shows "validate_canonical alloc bs root = and_then (decode alloc bs root) (\<lambda>_. Ok ())"
proof (cases "cursor_byte \<lparr>cursor_bytes = bs, cursor_position = 0\<rparr>")
  case (Inl e)
  then show ?thesis by (simp add: validate_canonical_def decode_def and_then_assoc)
next
  case (Inr vc)
  obtain v c where vc: "vc = (v, c)" by (cases vc)
  note b = Inr[unfolded vc]
  have rd: "reads \<lparr>cursor_bytes = bs, cursor_position = 0\<rparr> c [v]" by (rule cursor_byte_reads[OF b])
  have bd: "bounded c" using reads_bounded[OF rd] assms(1) by (simp add: bounded_def)
  have c: "cursor_bytes c = bs" "cursor_position c = 1" using rd by (auto simp: reads_def)
  have sk: "skip_loop alloc c [] = and_then (cursor_item alloc c) (\<lambda>(d, c). Ok c)"
    using skip_loop_erase[OF bd assms(2), of "[]"] by (simp add: cursor_item_def)
  have root: "root_matches d root"
    if "cursor_item alloc c = Inr (d, c')" "bs ! 1 = root_tag root" "1 < length bs"
      "cursor_position c' = length bs" for d c'
  proof -
    from that(1) obtain w where w: "reads c c' w" "w = enc_item d" "good_item d"
      using item_loop_sound[of alloc c "[]" d c'] by (auto simp: cursor_item_def)
    then have "enc_item d = drop 1 bs" using c that(4) by (auto simp: reads_def)
    with that(2,3) have "enc_item d = root_tag root # drop 2 bs"
      by (metis Cons_nth_drop_Suc Suc_1 One_nat_def)
    with w(3) show ?thesis by (auto simp: good_item_def intro: root_matches_tag)
  qed
  show ?thesis
    using b c sk root
    by (cases "cursor_item alloc c") (auto simp: validate_canonical_def decode_def and_then_assoc)
qed

theorem validate_canonical_equivalent_witness:
  "validate_canonical (\<lambda>_. True) [3, 13, 1, 0, 0, 0, 0, 0, 0, 0, 15] RootList =
     Err (corrupt ''document value tag is invalid'') \<and>
   decode (\<lambda>_. True) [3, 13, 1, 0, 0, 0, 0, 0, 0, 0, 15] RootList =
     Err (corrupt ''document value tag is invalid'')"
proof -
  have d: "decode (\<lambda>_. True) [3, 13, 1, 0, 0, 0, 0, 0, 0, 0, 15] RootList =
     Err (corrupt ''document value tag is invalid'')" by code_simp
  with validate_canonical_equivalent[of "[3, 13, 1, 0, 0, 0, 0, 0, 0, 0, 15]" "\<lambda>_. True" RootList]
  show ?thesis by (simp add: granting_def)
qed

text \<open>
  C4. Refinement of the encoder loop. When memory is granted, the explicit-stack encoder succeeds
  exactly on the trees whose root kind matches, whose lengths fit the 64-bit field and which hold
  no wrapped document, and then writes the version byte followed by the recursive reference
  encoding.
\<close>

theorem encode_refines:
  assumes "granting alloc"
  shows "encode alloc d root = Ok bs \<longleftrightarrow>
    root_matches d root \<and> encodable_item d \<and> bs = FORMAT_VERSION # enc_item d"
  using encode_Ok_iff[of alloc d root bs] encode_total[OF assms, of d root] by auto

theorem encode_refines_witness:
  "encode (\<lambda>_. True) (DList []) RootList = Ok [3, 13, 0, 0, 0, 0, 0, 0, 0, 0]"
proof -
  have "[3, 13, 0, 0, 0, 0, 0, 0, 0, 0] = FORMAT_VERSION # enc_item (DList [])" by code_simp
  moreover have "root_matches (DList []) RootList \<and> encodable_item (DList [])" by code_simp
  ultimately show ?thesis using encode_refines[of "\<lambda>_. True" "DList []" RootList]
    by (simp add: granting_def)
qed

end
