(* ===== verification/Result_Value.thy ===== *)
theory Result_Value
  imports Document_Validate
begin

text \<open>
  Typed execution values of \<^verbatim>\<open>crates/execution/src/result.rs\<close>: nodes, relationships, paths,
  vectors, lists and maps, and the conversion between result values and canonical property
  documents (\<open>from_property\<close>, \<open>into_property\<close>). The recursion through decoded documents ends
  because a decoded tree holds no further wrapped document.
\<close>

subsection \<open>Values\<close>

record ResultNode =
  node_id :: u64
  node_layer :: Layer
  node_revision :: u64
  node_labels :: "str list"
  node_properties :: "ScalarValue btree_map"

record ResultEdge =
  edge_id :: u64
  edge_source :: u64
  edge_target :: u64
  edge_relationship_type :: str
  edge_layer :: Layer
  edge_revision :: u64
  edge_properties :: "ScalarValue btree_map"

datatype ResultValue =
    RScalar ScalarValue
  | RNode ResultNode
  | RRelationship ResultEdge
  | RPath "ResultNode list" "ResultEdge list"
  | RVector "f32 list"
  | RList "ResultValue list"
  | RMap "(str \<times> ResultValue) list"

datatype ColumnType =
    CAny | CNull | CBoolean | CInteger | CFloat | CString | CBytes | CTemporal | CDuration
  | CNode | CRelationship | CPath | CVector | CList | CMap

definition column_type :: "ResultValue \<Rightarrow> ColumnType" where
  "column_type v = (case v of
       RScalar s \<Rightarrow> (case s of
           SNull \<Rightarrow> CNull
         | SBoolean _ \<Rightarrow> CBoolean
         | SInteger _ \<Rightarrow> CInteger
         | SFloat _ \<Rightarrow> CFloat
         | SString _ \<Rightarrow> CString
         | SBytes _ \<Rightarrow> CBytes
         | SDate _ \<Rightarrow> CTemporal
         | SLocalTime _ \<Rightarrow> CTemporal
         | SZonedTime _ _ \<Rightarrow> CTemporal
         | SLocalDateTime _ _ \<Rightarrow> CTemporal
         | SZonedDateTime _ _ _ \<Rightarrow> CTemporal
         | SDuration _ _ _ _ \<Rightarrow> CDuration
         | SList _ \<Rightarrow> CList
         | SMap _ \<Rightarrow> CMap)
     | RNode _ \<Rightarrow> CNode
     | RRelationship _ \<Rightarrow> CRelationship
     | RPath _ _ \<Rightarrow> CPath
     | RVector _ \<Rightarrow> CVector
     | RList _ \<Rightarrow> CList
     | RMap _ \<Rightarrow> CMap)"

subsection \<open>How many wrapped documents a value holds\<close>

fun item_docs :: "DocumentItem \<Rightarrow> nat"
  and items_docs :: "DocumentItem list \<Rightarrow> nat"
  and entries_docs :: "(str \<times> DocumentItem) list \<Rightarrow> nat" where
  "item_docs (DScalar v) = (if is_document v then 1 else 0)"
| "item_docs (DList ds) = items_docs ds"
| "item_docs (DMap kvs) = entries_docs kvs"
| "items_docs [] = 0"
| "items_docs (d # ds) = item_docs d + items_docs ds"
| "entries_docs [] = 0"
| "entries_docs ((k, d) # kvs) = item_docs d + entries_docs kvs"

fun value_docs :: "ResultValue \<Rightarrow> nat"
  and values_docs :: "ResultValue list \<Rightarrow> nat"
  and fields_docs :: "(str \<times> ResultValue) list \<Rightarrow> nat" where
  "value_docs (RScalar v) = (if is_document v then 1 else 0)"
| "value_docs (RNode n) = 0"
| "value_docs (RRelationship r) = 0"
| "value_docs (RPath ns rs) = 0"
| "value_docs (RVector vs) = 0"
| "value_docs (RList vs) = values_docs vs"
| "value_docs (RMap kvs) = fields_docs kvs"
| "values_docs [] = 0"
| "values_docs (v # vs) = value_docs v + values_docs vs"
| "fields_docs [] = 0"
| "fields_docs ((k, v) # kvs) = value_docs v + fields_docs kvs"

lemma encodable_no_docs:
  "encodable_item d \<Longrightarrow> item_docs d = 0"
  "encodable_items ds \<Longrightarrow> items_docs ds = 0"
  "encodable_entries kvs \<Longrightarrow> entries_docs kvs = 0"
proof (induction d and ds and kvs rule: item_docs_items_docs_entries_docs.induct)
  case (1 v)
  then show ?case by (cases v) auto
qed auto

lemma item_docs_member:
  "d \<in> set ds \<Longrightarrow> item_docs d \<le> items_docs ds"
  "(k, d) \<in> set kvs \<Longrightarrow> item_docs d \<le> entries_docs kvs"
  by (induction ds) (auto, induction kvs, auto)

lemma value_docs_member:
  "v \<in> set vs \<Longrightarrow> value_docs v \<le> values_docs vs"
  "(k, v) \<in> set fs \<Longrightarrow> value_docs v \<le> fields_docs fs"
  by (induction vs) (auto, induction fs, auto)

lemma size_member:
  "(k, d) \<in> set kvs \<Longrightarrow> size d < size (DMap kvs)"
  "d \<in> set ds \<Longrightarrow> size d < size (DList ds)"
  "(k, v) \<in> set fs \<Longrightarrow> size v < size (RMap fs)"
  "v \<in> set vs \<Longrightarrow> size v < size (RList vs)"
     apply (induction kvs) apply auto
    apply (induction ds) apply auto
   apply (induction fs) apply auto
  apply (induction vs) apply auto
  done

lemma document_items_Inr: "document_items alloc l = Inr ds \<longleftrightarrow> decode alloc l RootList = Inr (DList ds)"
  by (cases "decode alloc l RootList") (auto simp: document_items_def split: DocumentItem.splits)

lemma document_entries_Inr:
  "document_entries alloc m = Inr kvs \<longleftrightarrow> decode alloc m RootMap = Inr (DMap kvs)"
  by (cases "decode alloc m RootMap") (auto simp: document_entries_def split: DocumentItem.splits)

lemma decoded_no_docs:
  "document_items alloc l = Inr ds \<Longrightarrow> items_docs ds = 0"
  "document_entries alloc m = Inr kvs \<Longrightarrow> entries_docs kvs = 0"
  by (auto simp: document_items_Inr document_entries_Inr good_item_def
      dest!: decode_sound encodable_no_docs)

subsection \<open>Materialising documents\<close>

function from_property :: "allocator \<Rightarrow> ScalarValue \<Rightarrow> ResultValue result"
  and document_item_to_result :: "allocator \<Rightarrow> DocumentItem \<Rightarrow> ResultValue result" where
  "from_property alloc v = (case v of
       SList l \<Rightarrow>
         and_then (document_items alloc l) (\<lambda>ds.
         and_then (collect_results (map (\<lambda>d. document_item_to_result alloc d) ds)) (\<lambda>vs.
           Ok (RList vs)))
     | SMap m \<Rightarrow>
         and_then (document_entries alloc m) (\<lambda>kvs.
         and_then (collect_results (map (\<lambda>(name, d).
             and_then (document_item_to_result alloc d) (\<lambda>v. Ok (name, v))) kvs)) (\<lambda>fs.
           Ok (RMap fs)))
     | v \<Rightarrow> Ok (RScalar v))"
| "document_item_to_result alloc (DScalar v) = from_property alloc v"
| "document_item_to_result alloc (DList ds) =
     and_then (collect_results (map (\<lambda>d. document_item_to_result alloc d) ds)) (\<lambda>vs.
       Ok (RList vs))"
| "document_item_to_result alloc (DMap kvs) =
     and_then (collect_results (map (\<lambda>(name, d).
         and_then (document_item_to_result alloc d) (\<lambda>v. Ok (name, v))) kvs)) (\<lambda>fs.
       Ok (RMap fs))"
  by pat_completeness auto
termination
proof (relation "measures
    [\<lambda>x. case x of Inl (alloc, v) \<Rightarrow> if is_document v then 1 else 0
          | Inr (alloc, d) \<Rightarrow> if item_docs d = 0 then 0 else 2,
     \<lambda>x. case x of Inl _ \<Rightarrow> 0 | Inr (alloc, d) \<Rightarrow> Suc (size d)]", goal_cases)
  case (2 alloc v l ds d)
  then show ?case using item_docs_member(1)[of d ds] decoded_no_docs(1)[of alloc l ds] by auto
next
  case (3 alloc v m kvs kd k d)
  then show ?case using item_docs_member(2)[of k d kvs] decoded_no_docs(2)[of alloc m kvs] by auto
next
  case (5 alloc ds d)
  then show ?case using item_docs_member(1)[of d ds] size_member(2)[of d ds] by auto
next
  case (6 alloc kvs kd k d)
  then show ?case using item_docs_member(2)[of k d kvs] size_member(1)[of k d kvs] by auto
qed auto

declare from_property.simps [simp del]

lemma from_property_scalar [simp]: "\<not> is_document v \<Longrightarrow> from_property alloc v = Ok (RScalar v)"
  by (cases v) (simp_all add: from_property.simps)

lemma values_docs_zero: "values_docs vs = 0 \<longleftrightarrow> (\<forall>v\<in>set vs. value_docs v = 0)"
  by (induction vs) auto

lemma fields_docs_zero: "fields_docs fs = 0 \<longleftrightarrow> (\<forall>(k, v)\<in>set fs. value_docs v = 0)"
  by (induction fs) auto

lemma collected_values_no_docs:
  assumes "collect_results (map f ds) = Inr vs"
    and "\<And>d v. d \<in> set ds \<Longrightarrow> f d = Inr v \<Longrightarrow> value_docs v = 0"
  shows "value_docs (RList vs) = 0"
  using assms by (auto simp: collect_results_map_Inr_iff values_docs_zero dest: list_all2_member2)

lemma collected_fields_no_docs:
  assumes "collect_results (map (\<lambda>(n, d). and_then (f d) (\<lambda>v. Ok (n, v))) kvs) = Inr fs"
    and "\<And>k d v. (k, d) \<in> set kvs \<Longrightarrow> f d = Inr v \<Longrightarrow> value_docs v = 0"
  shows "value_docs (RMap fs) = 0"
  using assms by (fastforce simp: collect_results_fields_Inr_iff fields_docs_zero dest: list_all2_member2)

lemma materialised_no_docs:
  "from_property alloc v = Inr r \<Longrightarrow> value_docs r = 0"
  "document_item_to_result alloc d = Inr r \<Longrightarrow> value_docs r = 0"
proof (induction alloc v and alloc d arbitrary: r and r rule: from_property_document_item_to_result.induct)
  case (1 alloc v)
  show ?case
  proof (cases v)
    case (SList l)
    with "1.prems" obtain ds vs where ds: "document_items alloc l = Inr ds"
      and vs: "collect_results (map (\<lambda>d. document_item_to_result alloc d) ds) = Inr vs" and r: "r = RList vs"
      by (auto simp: from_property.simps and_then_eq_Inr_iff)
    with collected_values_no_docs[OF vs] "1.IH"(1)[OF SList ds] show ?thesis by blast
  next
    case (SMap m)
    with "1.prems" obtain kvs fs where kvs: "document_entries alloc m = Inr kvs"
      and fs: "collect_results (map (\<lambda>(name, d).
        and_then (document_item_to_result alloc d) (\<lambda>v. Ok (name, v))) kvs) = Inr fs" and r: "r = RMap fs"
      by (auto simp: from_property.simps and_then_eq_Inr_iff)
    with collected_fields_no_docs[OF fs] "1.IH"(2)[OF SMap kvs _ refl] show ?thesis by blast
  qed (use "1.prems" in \<open>auto simp: from_property.simps\<close>)
next
  case (3 alloc ds)
  then obtain vs where vs: "collect_results (map (\<lambda>d. document_item_to_result alloc d) ds) = Inr vs"
    and r: "r = RList vs" by (auto simp: and_then_eq_Inr_iff)
  with collected_values_no_docs[OF vs] "3.IH" show ?case by blast
next
  case (4 alloc kvs)
  then obtain fs where fs: "collect_results (map (\<lambda>(name, d).
      and_then (document_item_to_result alloc d) (\<lambda>v. Ok (name, v))) kvs) = Inr fs" and r: "r = RMap fs"
    by (auto simp: and_then_eq_Inr_iff)
  with collected_fields_no_docs[OF fs] "4.IH"[OF _ refl] show ?case by blast
qed simp

subsection \<open>Building documents\<close>

function result_to_document_item :: "allocator \<Rightarrow> ResultValue \<Rightarrow> DocumentItem result" where
  "result_to_document_item alloc (RScalar v) =
     (if is_document v then
        and_then (from_property alloc v) (\<lambda>r. case r of
            RList vs \<Rightarrow>
              and_then (collect_results (map (\<lambda>v. result_to_document_item alloc v) vs)) (\<lambda>ds.
                Ok (DList ds))
          | RMap fs \<Rightarrow>
              and_then (collect_results (map (\<lambda>(name, v).
                  and_then (result_to_document_item alloc v) (\<lambda>d. Ok (name, d))) fs)) (\<lambda>kvs.
                Ok (DMap kvs))
          | _ \<Rightarrow> Err (new_error CorruptStorage ''document property decoded to a scalar root''))
      else Ok (DScalar v))"
| "result_to_document_item alloc (RList vs) =
     and_then (collect_results (map (\<lambda>v. result_to_document_item alloc v) vs)) (\<lambda>ds.
       Ok (DList ds))"
| "result_to_document_item alloc (RMap fs) =
     and_then (collect_results (map (\<lambda>(name, v).
         and_then (result_to_document_item alloc v) (\<lambda>d. Ok (name, d))) fs)) (\<lambda>kvs.
       Ok (DMap kvs))"
| "result_to_document_item alloc (RNode n) =
     Err (new_error QueryType ''property documents may contain only scalar, list, and map values'')"
| "result_to_document_item alloc (RRelationship r) =
     Err (new_error QueryType ''property documents may contain only scalar, list, and map values'')"
| "result_to_document_item alloc (RPath ns rs) =
     Err (new_error QueryType ''property documents may contain only scalar, list, and map values'')"
| "result_to_document_item alloc (RVector fs) =
     Err (new_error QueryType ''property documents may contain only scalar, list, and map values'')"
  by pat_completeness auto
termination
proof (relation "measures [\<lambda>(alloc, v). value_docs v, \<lambda>(alloc, v). size v]", goal_cases)
  case (2 alloc v r vs x)
  then show ?case using materialised_no_docs(1)[of alloc v r] value_docs_member(1)[of x vs] by auto
next
  case (3 alloc v r fs kx k x)
  then show ?case using materialised_no_docs(1)[of alloc v r] value_docs_member(2)[of k x fs] by auto
next
  case (4 alloc vs x)
  then show ?case using value_docs_member(1)[of x vs] size_member(4)[of x vs] by auto
next
  case (5 alloc fs kx k x)
  then show ?case using value_docs_member(2)[of k x fs] size_member(3)[of k x fs] by auto
qed auto

definition into_property :: "allocator \<Rightarrow> ResultValue \<Rightarrow> ScalarValue result" where
  "into_property alloc v = (case v of
       RScalar s \<Rightarrow> Ok s
     | RList vs \<Rightarrow>
         and_then (collect_results (map (result_to_document_item alloc) vs)) (\<lambda>ds.
         and_then (document_list_new alloc ds) (\<lambda>l. Ok (SList l)))
     | RMap fs \<Rightarrow>
         and_then (collect_results (map (\<lambda>(name, v).
             and_then (result_to_document_item alloc v) (\<lambda>d. Ok (name, d))) fs)) (\<lambda>kvs.
         and_then (document_map_new alloc kvs) (\<lambda>m. Ok (SMap m)))
     | _ \<Rightarrow>
         Err (new_error QueryType ''property documents may contain only scalar, list, and map values''))"

subsection \<open>Documents round-trip through result values\<close>

fun wf_value :: "ResultValue \<Rightarrow> bool"
  and wf_values :: "ResultValue list \<Rightarrow> bool"
  and wf_fields :: "(str \<times> ResultValue) list \<Rightarrow> bool" where
  "wf_value (RScalar v) = scalar_utf8 v"
| "wf_value (RNode n) = True"
| "wf_value (RRelationship r) = True"
| "wf_value (RPath ns rs) = True"
| "wf_value (RVector vs) = True"
| "wf_value (RList vs) = wf_values vs"
| "wf_value (RMap fs) = (btree_ok fs \<and> wf_fields fs)"
| "wf_values [] = True"
| "wf_values (v # vs) = (wf_value v \<and> wf_values vs)"
| "wf_fields [] = True"
| "wf_fields ((k, v) # fs) = (valid_utf8 k \<and> wf_value v \<and> wf_fields fs)"

fun canon_value :: "ResultValue \<Rightarrow> ResultValue"
  and canon_values :: "ResultValue list \<Rightarrow> ResultValue list"
  and canon_fields :: "(str \<times> ResultValue) list \<Rightarrow> (str \<times> ResultValue) list" where
  "canon_value (RScalar v) = RScalar (canon_scalar v)"
| "canon_value (RNode n) = RNode n"
| "canon_value (RRelationship r) = RRelationship r"
| "canon_value (RPath ns rs) = RPath ns rs"
| "canon_value (RVector vs) = RVector vs"
| "canon_value (RList vs) = RList (canon_values vs)"
| "canon_value (RMap fs) = RMap (canon_fields fs)"
| "canon_values [] = []"
| "canon_values (v # vs) = canon_value v # canon_values vs"
| "canon_fields [] = []"
| "canon_fields ((k, v) # fs) = (k, canon_value v) # canon_fields fs"

lemma is_document_canon [simp]: "is_document (canon_scalar v) = is_document v"
  by (cases v) auto

lemma result_item_roundtrip:
  "value_docs v = 0 \<Longrightarrow> wf_value v \<Longrightarrow> result_to_document_item alloc v = Inr d \<Longrightarrow>
     wf_item d \<and> document_item_to_result alloc' (canon_item d) = Inr (canon_value v)"
  "values_docs vs = 0 \<Longrightarrow> wf_values vs \<Longrightarrow>
   collect_results (map (\<lambda>v. result_to_document_item alloc v) vs) = Inr ds \<Longrightarrow>
     wf_items ds \<and>
     collect_results (map (\<lambda>d. document_item_to_result alloc' d) (canon_items ds)) = Inr (canon_values vs)"
  "fields_docs fs = 0 \<Longrightarrow> wf_fields fs \<Longrightarrow>
   collect_results (map (\<lambda>(name, v).
     and_then (result_to_document_item alloc v) (\<lambda>d. Ok (name, d))) fs) = Inr kvs \<Longrightarrow>
     wf_entries kvs \<and> map fst kvs = map fst fs \<and>
     collect_results (map (\<lambda>(name, d).
       and_then (document_item_to_result alloc' d) (\<lambda>v. Ok (name, v))) (canon_entries kvs)) =
       Inr (canon_fields fs)"
proof (induction v and vs and fs arbitrary: d and ds and kvs
    rule: value_docs_values_docs_fields_docs.induct)
  case (1 v)
  then show ?case by (auto split: if_splits)
next
  case (6 vs)
  then show ?case by (auto simp: and_then_eq_Inr_iff)
next
  case (7 fs)
  then show ?case by (fastforce simp: and_then_eq_Inr_iff btree_ok_def)
next
  case (9 v vs)
  then show ?case by (fastforce simp: and_then_eq_Inr_iff)
next
  case (11 k v fs)
  then show ?case by (fastforce simp: and_then_eq_Inr_iff)
qed auto

text \<open>
  A value with every stored document inside it opened, that is, replaced by the list or map the document
  reads as. A document that cannot be read stays closed.
\<close>

fun opened :: "allocator \<Rightarrow> ResultValue \<Rightarrow> ResultValue"
  and opened_values :: "allocator \<Rightarrow> ResultValue list \<Rightarrow> ResultValue list"
  and opened_fields :: "allocator \<Rightarrow> (str \<times> ResultValue) list \<Rightarrow> (str \<times> ResultValue) list" where
  "opened alloc (RScalar v) = (case from_property alloc v of Inr r \<Rightarrow> r | Inl _ \<Rightarrow> RScalar v)"
| "opened alloc (RNode n) = RNode n"
| "opened alloc (RRelationship r) = RRelationship r"
| "opened alloc (RPath ns rs) = RPath ns rs"
| "opened alloc (RVector xs) = RVector xs"
| "opened alloc (RList vs) = RList (opened_values alloc vs)"
| "opened alloc (RMap fs) = RMap (opened_fields alloc fs)"
| "opened_values alloc [] = []"
| "opened_values alloc (v # vs) = opened alloc v # opened_values alloc vs"
| "opened_fields alloc [] = []"
| "opened_fields alloc ((k, v) # fs) = (k, opened alloc v) # opened_fields alloc fs"

lemma opened_lists:
  "opened_values alloc vs = map (opened alloc) vs"
  "opened_fields alloc fs = map (\<lambda>(k, v). (k, opened alloc v)) fs"
  by (induction vs) (simp_all, induction fs, auto)

lemma opened_plain:
  "value_docs v = 0 \<Longrightarrow> opened alloc v = v"
  "values_docs vs = 0 \<Longrightarrow> opened_values alloc vs = vs"
  "fields_docs fs = 0 \<Longrightarrow> opened_fields alloc fs = fs"
  by (induction v and vs and fs rule: value_docs_values_docs_fields_docs.induct) (auto split: if_splits)

lemma wf_lists:
  "wf_items ds \<longleftrightarrow> (\<forall>d \<in> set ds. wf_item d)" "wf_values vs \<longleftrightarrow> (\<forall>v \<in> set vs. wf_value v)"
  "wf_entries kvs \<longleftrightarrow> (\<forall>(k, d) \<in> set kvs. valid_utf8 k \<and> wf_item d)"
  "wf_fields fs \<longleftrightarrow> (\<forall>(k, v) \<in> set fs. valid_utf8 k \<and> wf_value v)"
proof -
  show "wf_items ds \<longleftrightarrow> (\<forall>d \<in> set ds. wf_item d)" by (induction ds) simp_all
  show "wf_values vs \<longleftrightarrow> (\<forall>v \<in> set vs. wf_value v)" by (induction vs) simp_all
  show "wf_entries kvs \<longleftrightarrow> (\<forall>(k, d) \<in> set kvs. valid_utf8 k \<and> wf_item d)" by (induction kvs) auto
  show "wf_fields fs \<longleftrightarrow> (\<forall>(k, v) \<in> set fs. valid_utf8 k \<and> wf_value v)" by (induction fs) auto
qed

lemma collected_values_wf:
  assumes "collect_results (map f ds) = Inr vs" "wf_items ds"
    and "\<And>d v. d \<in> set ds \<Longrightarrow> f d = Inr v \<Longrightarrow> wf_item d \<Longrightarrow> wf_value v"
  shows "wf_value (RList vs)"
  using assms by (fastforce simp: collect_results_map_Inr_iff wf_lists dest: list_all2_member2)

lemma collected_fields_wf:
  assumes "collect_results (map (\<lambda>(n, d). and_then (f d) (\<lambda>v. Ok (n, v))) kvs) = Inr fs" "wf_entries kvs" "btree_ok kvs"
    and "\<And>k d v. (k, d) \<in> set kvs \<Longrightarrow> f d = Inr v \<Longrightarrow> wf_item d \<Longrightarrow> wf_value v"
  shows "wf_value (RMap fs)"
proof -
  have l: "list_all2 (\<lambda>(n, x) (m, y). m = n \<and> f x = Inr y) kvs fs"
    using assms(1) by (simp add: collect_results_fields_Inr_iff)
  then have "map fst fs = map fst kvs" by (induction rule: list_all2_induct) auto
  moreover have "wf_fields fs"
    using l assms(2,4) by (fastforce simp: wf_lists dest: list_all2_member2)
  ultimately show ?thesis using assms(3) by (simp add: btree_ok_def)
qed

lemma materialised_wf:
  "from_property alloc v = Inr r \<Longrightarrow> scalar_utf8 v \<Longrightarrow> wf_value r"
  "document_item_to_result alloc d = Inr r \<Longrightarrow> wf_item d \<Longrightarrow> wf_value r"
proof (induction alloc v and alloc d arbitrary: r and r rule: from_property_document_item_to_result.induct)
  case (1 alloc v)
  show ?case
  proof (cases v)
    case (SList l)
    with "1.prems" obtain ds vs where ds: "document_items alloc l = Inr ds"
      and vs: "collect_results (map (\<lambda>d. document_item_to_result alloc d) ds) = Inr vs" and r: "r = RList vs"
      by (auto simp: from_property.simps and_then_eq_Inr_iff)
    have "wf_items ds" using decode_sound[of alloc l RootList "DList ds"] ds by (simp add: document_items_Inr good_item_def)
    with collected_values_wf[OF vs] "1.IH"(1)[OF SList ds] r show ?thesis by blast
  next
    case (SMap m)
    with "1.prems" obtain kvs fs where kvs: "document_entries alloc m = Inr kvs"
      and fs: "collect_results (map (\<lambda>(name, d).
        and_then (document_item_to_result alloc d) (\<lambda>v. Ok (name, v))) kvs) = Inr fs" and r: "r = RMap fs"
      by (auto simp: from_property.simps and_then_eq_Inr_iff)
    have "wf_entries kvs" "btree_ok kvs"
      using decode_sound[of alloc m RootMap "DMap kvs"] kvs by (simp_all add: document_entries_Inr good_item_def)
    with collected_fields_wf[OF fs] "1.IH"(2)[OF SMap kvs _ refl] r show ?thesis by blast
  qed (use "1.prems" in \<open>auto simp: from_property.simps\<close>)
next
  case (3 alloc ds)
  then obtain vs where vs: "collect_results (map (\<lambda>d. document_item_to_result alloc d) ds) = Inr vs"
    and r: "r = RList vs" by (auto simp: and_then_eq_Inr_iff)
  with collected_values_wf[OF vs] "3.IH" "3.prems"(2) show ?case by simp
next
  case (4 alloc kvs)
  then obtain fs where fs: "collect_results (map (\<lambda>(name, d).
      and_then (document_item_to_result alloc d) (\<lambda>v. Ok (name, v))) kvs) = Inr fs" and r: "r = RMap fs"
    by (auto simp: and_then_eq_Inr_iff)
  with collected_fields_wf[OF fs] "4.IH"[OF _ refl] "4.prems"(2) show ?case by simp
qed simp

text \<open>Opening a value does not change the document it is stored as.\<close>

lemma opened_item:
  "wf_value v \<Longrightarrow> result_to_document_item alloc v = Inr d \<Longrightarrow>
     value_docs (opened alloc v) = 0 \<and> wf_value (opened alloc v) \<and> result_to_document_item alloc (opened alloc v) = Inr d"
  "wf_values vs \<Longrightarrow> collect_results (map (\<lambda>v. result_to_document_item alloc v) vs) = Inr ds \<Longrightarrow>
     values_docs (opened_values alloc vs) = 0 \<and> wf_values (opened_values alloc vs) \<and>
     collect_results (map (\<lambda>v. result_to_document_item alloc v) (opened_values alloc vs)) = Inr ds"
  "wf_fields fs \<Longrightarrow> collect_results (map (\<lambda>(name, v).
     and_then (result_to_document_item alloc v) (\<lambda>d. Ok (name, d))) fs) = Inr kvs \<Longrightarrow>
     fields_docs (opened_fields alloc fs) = 0 \<and> wf_fields (opened_fields alloc fs) \<and>
     map fst (opened_fields alloc fs) = map fst fs \<and>
     collect_results (map (\<lambda>(name, v).
       and_then (result_to_document_item alloc v) (\<lambda>d. Ok (name, d))) (opened_fields alloc fs)) = Inr kvs"
proof (induction v and vs and fs arbitrary: d and ds and kvs
    rule: value_docs_values_docs_fields_docs.induct)
  case (1 v)
  show ?case
  proof (cases "is_document v")
    case True
    with "1.prems"(2) obtain r where r: "from_property alloc v = Inr r"
      by (auto simp: and_then_eq_Inr_iff)
    with "1.prems"(2) True have "result_to_document_item alloc r = Inr d"
      by (cases r) simp_all
    with r materialised_no_docs(1)[OF r] materialised_wf(1)[OF r] "1.prems"(1) show ?thesis by simp
  qed (use "1.prems" in simp)
next
  case (6 vs)
  then show ?case by (auto simp: and_then_eq_Inr_iff)
next
  case (7 fs)
  then show ?case by (fastforce simp: and_then_eq_Inr_iff btree_ok_def)
next
  case (9 v vs)
  then show ?case by (fastforce simp: and_then_eq_Inr_iff)
next
  case (11 k v fs)
  then show ?case by (fastforce simp: and_then_eq_Inr_iff)
qed auto

lemma plain_roundtrip:
  assumes "into_property alloc v = Ok p" "wf_value v" "value_docs v = 0" "\<And>s. v \<noteq> RScalar s"
    "p = SList bs \<or> p = SMap bs" "length bs < 2 ^ 63" "granting alloc'"
  shows "from_property alloc' p = Ok (canon_value v)"
proof (cases v)
  case (RList vs)
  with assms obtain ds where
    ds: "collect_results (map (\<lambda>v. result_to_document_item alloc v) vs) = Inr ds"
    and p: "encode alloc (DList ds) RootList = Inr bs" "p = SList bs"
    by (auto simp: into_property_def and_then_eq_Inr_iff document_list_new_def)
  have wf: "wf_items ds" and rd: "collect_results
      (map (\<lambda>d. document_item_to_result alloc' d) (canon_items ds)) = Inr (canon_values vs)"
    using result_item_roundtrip(2)[OF _ _ ds] RList assms(2,3) by auto
  have "decode alloc' bs RootList = Ok (canon_item (DList ds))"
    by (rule decode_encode[OF p(1) _ assms(6,7)]) (simp add: wf)
  with p rd RList show ?thesis by (simp add: from_property.simps document_items_def)
next
  case (RMap fs)
  with assms obtain kvs where
    kvs: "collect_results (map (\<lambda>(name, v).
        and_then (result_to_document_item alloc v) (\<lambda>d. Ok (name, d))) fs) = Inr kvs"
    and p: "encode alloc (DMap kvs) RootMap = Inr bs" "p = SMap bs"
    by (auto simp: into_property_def and_then_eq_Inr_iff document_map_new_def)
  have wf: "wf_entries kvs" "map fst kvs = map fst fs" and rd: "collect_results (map (\<lambda>(name, d).
      and_then (document_item_to_result alloc' d) (\<lambda>v. Ok (name, v))) (canon_entries kvs)) =
      Inr (canon_fields fs)"
    using result_item_roundtrip(3)[OF _ _ kvs] RMap assms(2,3) by auto
  have "decode alloc' bs RootMap = Ok (canon_item (DMap kvs))"
    by (rule decode_encode[OF p(1) _ assms(6,7)])
      (use wf RMap assms(2) in \<open>simp add: btree_ok_def\<close>)
  with p rd RMap show ?thesis by (simp add: from_property.simps document_entries_def)
qed (use assms in \<open>auto simp: into_property_def\<close>)

lemma opened_property:
  assumes "into_property alloc v = Ok p" "wf_value v" "\<And>s. v \<noteq> RScalar s"
  shows "into_property alloc (opened alloc v) = Ok p \<and> wf_value (opened alloc v) \<and> value_docs (opened alloc v) = 0 \<and>
    (\<forall>s. opened alloc v \<noteq> RScalar s)"
proof (cases v)
  case (RList vs)
  with assms(1) obtain ds where "collect_results (map (\<lambda>v. result_to_document_item alloc v) vs) = Inr ds"
    by (auto simp: into_property_def and_then_eq_Inr_iff)
  with opened_item(2)[OF _ this] assms(1,2) RList show ?thesis by (simp add: into_property_def)
next
  case (RMap fs)
  with assms(1) obtain kvs where kvs: "collect_results (map (\<lambda>(name, v).
      and_then (result_to_document_item alloc v) (\<lambda>d. Ok (name, d))) fs) = Inr kvs"
    by (auto simp: into_property_def and_then_eq_Inr_iff)
  with opened_item(3)[OF _ this] assms(1,2) RMap show ?thesis by (auto simp: into_property_def btree_ok_def)
qed (use assms in \<open>auto simp: into_property_def\<close>)

text \<open>
  C5. Property round trip. A list or map value stored as a property and read back at the query boundary,
  with memory for reading it, is the value with every stored document inside it opened and with every
  NaN and every zero in canonical form. Opening leaves a value without stored documents as it is.
\<close>

theorem property_roundtrip:
  assumes "into_property alloc v = Ok p" "wf_value v" "\<And>s. v \<noteq> RScalar s"
    "p = SList bs \<or> p = SMap bs" "length bs < 2 ^ 63" "granting alloc'"
  shows "from_property alloc' p = Ok (canon_value (opened alloc v)) \<and>
    value_docs (opened alloc v) = 0 \<and> (value_docs v = 0 \<longrightarrow> opened alloc v = v)"
  using opened_property[OF assms(1-3)] plain_roundtrip[OF _ _ _ _ assms(4-6)] opened_plain(1) by blast

theorem property_roundtrip_witness:
  "\<exists>bs. into_property (\<lambda>_. True) (RList [RScalar (SFloat 0x8000000000000000),
         RScalar (SList [3, 13, 1, 0, 0, 0, 0, 0, 0, 0, 0])]) = Ok (SList bs) \<and>
     from_property (\<lambda>_. True) (SList bs) = Ok (RList [RScalar (SFloat 0), RList [RScalar SNull]])"
proof -
  let ?v = "RList [RScalar (SFloat 0x8000000000000000), RScalar (SList [3, 13, 1, 0, 0, 0, 0, 0, 0, 0, 0])]"
  obtain bs where i: "into_property (\<lambda>_. True) ?v = Ok (SList bs)" "length bs < 2 ^ 63"
  proof
    show "into_property (\<lambda>_. True) ?v = Ok (SList
      [3, 13, 2, 0, 0, 0, 0, 0, 0, 0, 4, 0, 0, 0, 0, 0, 0, 0, 0, 13, 1, 0, 0, 0, 0, 0, 0, 0, 0])"
      by code_simp
  qed simp
  have c: "canon_value (opened (\<lambda>_. True) ?v) = RList [RScalar (SFloat 0), RList [RScalar SNull]]" by code_simp
  have "from_property (\<lambda>_. True) (SList bs) = Ok (canon_value (opened (\<lambda>_. True) ?v))"
    by (rule property_roundtrip[OF i(1), where bs = bs, THEN conjunct1]) (use i(2) in \<open>simp_all add: granting_def\<close>)
  with i c show ?thesis by auto
qed

subsection \<open>Result batches\<close>

record ResultColumn =
  col_name :: str
  col_value_type :: ColumnType
  col_values :: "ResultValue list"

record ResultBatch =
  batch_row_count :: nat
  batch_columns :: "ResultColumn list"

definition validate_batch :: "ResultBatch \<Rightarrow> bool" where
  "validate_batch b = list_all (\<lambda>c. length (col_values c) = batch_row_count b) (batch_columns b)"

end
