(* ===== verification/Order_Codec.thy ===== *)
theory Order_Codec
  imports Byte_Codec "HOL-Library.Sublist"
begin

text \<open>
  Order-preserving encodings. A codec maps the values of a carrier to bytes such that byte order of
  the encodings, whatever follows them, is the order of the values. Everything a radix sort needs
  follows from that one law: keys compare like values, no key is a proper prefix of another, and the
  value order is a total preorder. The digit layer of \<^verbatim>\<open>crates/execution/src/order_key.rs\<close> is
  modelled here and shown to be such codecs.
\<close>

unbundle bit_operations_syntax

subsection \<open>The interface\<close>

locale order_codec =
  fixes carrier :: "'a \<Rightarrow> bool"
    and enc :: "'a \<Rightarrow> bytes"
    and ord :: "'a \<Rightarrow> 'a \<Rightarrow> Ordering"
  assumes enc_order: "carrier x \<Longrightarrow> carrier y \<Longrightarrow>
    bytes_cmp (enc x @ r) (enc y @ s) = then_with (ord x y) (bytes_cmp r s)"
begin

lemma enc_compare: "carrier x \<Longrightarrow> carrier y \<Longrightarrow> bytes_cmp (enc x) (enc y) = ord x y"
  using enc_order[of x y "[]" "[]"] by simp

lemma equal_iff: "carrier x \<Longrightarrow> carrier y \<Longrightarrow> enc x = enc y \<longleftrightarrow> ord x y = Equal"
  by (metis enc_compare slice_cmp_Equal_iff)

lemma prefix_free: "carrier x \<Longrightarrow> carrier y \<Longrightarrow> prefix (enc x) (enc y) \<Longrightarrow> enc x = enc y"
proof -
  assume c: "carrier x" "carrier y" and "prefix (enc x) (enc y)"
  then obtain r where r: "enc y = enc x @ r" by (auto simp: prefix_def)
  then have "bytes_cmp (enc x @ r) (enc y @ []) = Equal" by simp
  with enc_order[OF c, of r "[]"] have "bytes_cmp r [] = Equal" by (simp add: ordering_simps)
  with r show ?thesis by simp
qed

lemma ord_refl: "carrier x \<Longrightarrow> ord x x = Equal"
  by (metis enc_compare slice_cmp_Equal_iff)

lemma ord_flip: "carrier x \<Longrightarrow> carrier y \<Longrightarrow> ord y x = reverse_ordering (ord x y)"
  by (metis enc_compare cmp_flip slice_cmp_flip)

lemma ord_Less_trans: "carrier x \<Longrightarrow> carrier y \<Longrightarrow> carrier z \<Longrightarrow>
    ord x y = Less \<Longrightarrow> ord y z = Less \<Longrightarrow> ord x z = Less"
  by (metis enc_compare slice_cmp_Less_trans)

lemma ord_Equal_cong: "carrier x \<Longrightarrow> carrier y \<Longrightarrow> carrier z \<Longrightarrow> ord x y = Equal \<Longrightarrow> ord x z = ord y z"
  by (metis enc_compare slice_cmp_Equal_iff)

end

text \<open>
  A codec whose encodings start with a non-zero digit can be repeated: a zero terminator makes the
  sequence a codec for the element-wise order in which a prefix is smaller.
\<close>

lemma bytes_cmp_sequence:
  assumes "\<And>x y r s. x \<in> set xs \<Longrightarrow> y \<in> set ys \<Longrightarrow>
      bytes_cmp (e x @ r) (f y @ s) = then_with (c x y) (bytes_cmp r s)"
    and "\<And>x. x \<in> set xs \<Longrightarrow> \<exists>d w. e x = d # w \<and> 0 < d" "\<And>y. y \<in> set ys \<Longrightarrow> \<exists>d w. f y = d # w \<and> 0 < d"
  shows "bytes_cmp (concat (map e xs) @ 0 # r) (concat (map f ys) @ 0 # s) =
    then_with (slice_cmp c xs ys) (bytes_cmp r s)"
  using assms
proof (induction c xs ys rule: slice_cmp.induct)
  case (2 c y ys)
  then obtain d w where "f y = d # w" "0 < d" by (meson list.set_intros(1))
  then show ?case by (simp add: cmp_def)
next
  case (3 c x xs)
  then obtain d w where "e x = d # w" "0 < d" by (meson list.set_intros(1))
  moreover from this have "cmp d 0 = Greater" by (simp only: cmp_iffs)
  ultimately show ?case by (simp del: cmp_iffs)
next
  case (4 c x xs y ys)
  then show ?case by (simp add: ordering_simps)
qed simp

text \<open>The same number of codec values needs no terminator.\<close>

lemma bytes_cmp_same_count:
  assumes "length xs = length ys"
    and "\<And>x y r s. x \<in> set xs \<Longrightarrow> y \<in> set ys \<Longrightarrow>
      bytes_cmp (e x @ r) (f y @ s) = then_with (c x y) (bytes_cmp r s)"
  shows "bytes_cmp (concat (map e xs) @ r) (concat (map f ys) @ s) =
    then_with (slice_cmp c xs ys) (bytes_cmp r s)"
  using assms by (induction xs ys rule: list_induct2) (simp_all add: ordering_simps)

locale digit_codec = order_codec +
  assumes leading_digit: "carrier x \<Longrightarrow> \<exists>d w. enc x = d # w \<and> 0 < d"

sublocale digit_codec \<subseteq> sequence: order_codec "list_all carrier"
  "\<lambda>xs. concat (map enc xs) @ [0]" "slice_cmp ord"
proof
  fix xs ys r s
  assume "list_all carrier xs" "list_all carrier ys"
  then show "bytes_cmp ((concat (map enc xs) @ [0]) @ r) ((concat (map enc ys) @ [0]) @ s) =
      then_with (slice_cmp ord xs ys) (bytes_cmp r s)"
    using bytes_cmp_sequence[of xs ys enc enc ord r s] enc_order leading_digit
    by (simp add: list_all_iff)
qed

subsection \<open>Digits\<close>

definition append_octet :: "bytes \<Rightarrow> u8 \<Rightarrow> bytes" where
  "append_octet out b = out @ [drop_bit 4 b + 1, (b AND 0x0F) + 1]"

definition append_octets :: "bytes \<Rightarrow> bytes \<Rightarrow> bytes" where
  "append_octets out bs = foldl append_octet out bs"

definition append_bytes :: "bytes \<Rightarrow> bytes \<Rightarrow> bytes" where
  "append_bytes out bs = foldl append_octet out bs @ [0]"

definition append_u16 :: "bytes \<Rightarrow> u16 \<Rightarrow> bytes" where
  "append_u16 out v = append_octets out (to_be_bytes v)"

definition append_u32 :: "bytes \<Rightarrow> u32 \<Rightarrow> bytes" where
  "append_u32 out v = append_octets out (to_be_bytes v)"

definition append_u64 :: "bytes \<Rightarrow> u64 \<Rightarrow> bytes" where
  "append_u64 out v = append_octets out (to_be_bytes v)"

definition append_i32 :: "bytes \<Rightarrow> i32 \<Rightarrow> bytes" where
  "append_i32 out v = append_u32 out (v XOR push_bit 31 1)"

definition append_i64 :: "bytes \<Rightarrow> i64 \<Rightarrow> bytes" where
  "append_i64 out v = append_u64 out (v XOR push_bit 63 1)"

definition append_i128 :: "bytes \<Rightarrow> i128 \<Rightarrow> bytes" where
  "append_i128 out v = append_octets out (to_be_bytes (v XOR push_bit 127 1))"

text \<open>The two radix digits of an octet.\<close>

definition digits :: "u8 \<Rightarrow> bytes" where
  "digits b = [drop_bit 4 b + 1, (b AND 0x0F) + 1]"

lemma unat_digits:
  "unat (drop_bit 4 b + 1) = unat b div 16 + 1" "unat ((b AND 0x0F) + 1) = unat b mod 16 + 1"
  for b :: u8
proof -
  have b: "unat b < 256" using unsigned_less[of b, where ?'a = nat] by simp
  have "(b AND 0x0F) = take_bit 4 b" by (simp add: take_bit_eq_mask mask_eq_exp_minus_1)
  then have m: "unat (b AND 0x0F) = unat b mod 16"
    by (simp only: unsigned_take_bit_eq) (simp add: take_bit_eq_mod)
  have d: "unat (drop_bit 4 b) = unat b div 16" by (simp only: unat_drop_bit_eq) (simp add: drop_bit_eq_div)
  show "unat (drop_bit 4 b + 1) = unat b div 16 + 1" "unat ((b AND 0x0F) + 1) = unat b mod 16 + 1"
    using b by (simp_all add: unat_word_ariths m d)
qed

lemma digits_order: "bytes_cmp (digits a @ r) (digits b @ s) = then_with (cmp a b) (bytes_cmp r s)"
proof -
  have "cmp a b = cmp (unat a) (unat b)" by (simp add: cmp_unat)
  also have "\<dots> = then_with (cmp (unat a div 16) (unat b div 16)) (cmp (unat a mod 16) (unat b mod 16))"
    using cmp_base_split[of "unat a mod 16" 16 "unat b mod 16" "unat a div 16" "unat b div 16"] by simp
  also have "\<dots> = then_with (cmp (drop_bit 4 a + 1) (drop_bit 4 b + 1))
      (cmp ((a AND 0x0F) + 1) ((b AND 0x0F) + 1))"
    by (simp add: cmp_unat[symmetric] unat_digits) (simp add: cmp_def)
  finally show ?thesis by (simp add: digits_def ordering_simps)
qed

lemma digits_lead: "\<exists>d w. digits b = d # w \<and> 0 < d"
proof -
  have "drop_bit 4 b + 1 \<noteq> 0" using unat_digits(1)[of b] by (metis add_is_0 one_neq_zero unsigned_0)
  then show ?thesis by (simp add: digits_def word_gt_0)
qed

interpretation octet: digit_codec "\<lambda>_. True" digits cmp
  by unfold_locales (rule digits_order, rule digits_lead)

lemma foldl_append_octet: "foldl append_octet out bs = out @ concat (map digits bs)"
  by (induction bs arbitrary: out) (simp_all add: append_octet_def digits_def)

lemma append_digits [simp]:
  "append_octets out bs = out @ concat (map digits bs)"
  "append_bytes out bs = out @ concat (map digits bs) @ [0]"
  by (simp_all add: append_octets_def append_bytes_def foldl_append_octet)

subsection \<open>Integers\<close>

lemma word_codec:
  "8 dvd LENGTH('a) \<Longrightarrow>
   bytes_cmp (concat (map digits (to_be_bytes (v :: 'a::len word))) @ r)
     (concat (map digits (to_be_bytes w)) @ s) = then_with (cmp v w) (bytes_cmp r s)"
  using bytes_cmp_same_count[of "to_be_bytes v" "to_be_bytes w" digits digits cmp r s]
  by (simp add: digits_order bytes_cmp_to_be_bytes)

definition key_word :: "'a::len word \<Rightarrow> bytes" where
  "key_word v = concat (map digits (to_be_bytes v))"

definition flip_sign :: "'a::len word \<Rightarrow> 'a word" where
  "flip_sign v = v XOR push_bit (LENGTH('a) - 1) 1"

lemma to_be_bytes_lead:
  "8 \<le> LENGTH('a) \<Longrightarrow> \<exists>b bs. to_be_bytes (v :: 'a::len word) = b # bs"
proof -
  assume "8 \<le> LENGTH('a)"
  then have "length (to_be_bytes v) \<noteq> 0" by (simp add: div_eq_0_iff)
  then show ?thesis by (cases "to_be_bytes v") auto
qed

lemma key_word_lead: "8 \<le> LENGTH('a) \<Longrightarrow> \<exists>d w. key_word (v :: 'a::len word) = d # w \<and> 0 < d"
proof -
  assume "8 \<le> LENGTH('a)"
  then obtain b bs where "to_be_bytes v = b # bs" using to_be_bytes_lead by blast
  moreover obtain d w where "digits b = d # w" "0 < d" using digits_lead by blast
  ultimately show ?thesis by (simp add: key_word_def)
qed

lemma flip_sign_add: "flip_sign v = v + 2 ^ (LENGTH('a) - 1)" for v :: "'a::len word"
proof -
  have "2 ^ (LENGTH('a) - 1) + 2 ^ (LENGTH('a) - 1) = (2 ^ LENGTH('a) :: 'a word)"
    by (metis len_gt_0 mult_2 power_minus_mult mult.commute)
  then have "v - 2 ^ (LENGTH('a) - 1) = v + 2 ^ (LENGTH('a) - 1)"
    by (simp add: algebra_simps)
  then show ?thesis
    unfolding flip_sign_def flip_bit_def[symmetric] flip_bit_eq_if set_bit_eq unset_bit_eq by simp
qed

lemma uint_flip_sign: "uint (flip_sign v) = sint v + 2 ^ (LENGTH('a) - 1)" for v :: "'a::len word"
proof -
  have "sint v = take_bit LENGTH('a) (uint v + 2 ^ (LENGTH('a) - 1)) - 2 ^ (LENGTH('a) - 1)"
    by (simp add: sint_uint signed_take_bit_eq_take_bit_shift)
  moreover have "uint (v + word_of_int (2 ^ (LENGTH('a) - 1))) =
      take_bit LENGTH('a) (uint v + 2 ^ (LENGTH('a) - 1))"
    by (simp only: uint_word_arith_bintrs uint_word_of_int take_bit_eq_mod mod_add_right_eq)
  ultimately show ?thesis by (simp add: flip_sign_add)
qed

lemma flip_sign_order: "cmp (flip_sign v) (flip_sign w) = cmp (sint v) (sint w)"
  for v w :: "'a::len word"
proof -
  have "cmp (flip_sign v) (flip_sign w) = cmp (uint (flip_sign v)) (uint (flip_sign w))"
    by (auto simp: cmp_def word_less_def intro: unsigned_word_eqI)
  then show ?thesis unfolding uint_flip_sign by (simp add: cmp_def)
qed

interpretation key_u16: digit_codec "\<lambda>_. True" "key_word :: u16 \<Rightarrow> bytes" cmp
  by unfold_locales (simp add: key_word_def word_codec, rule key_word_lead, simp)

interpretation key_u32: digit_codec "\<lambda>_. True" "key_word :: u32 \<Rightarrow> bytes" cmp
  by unfold_locales (simp add: key_word_def word_codec, rule key_word_lead, simp)

interpretation key_u64: digit_codec "\<lambda>_. True" "key_word :: u64 \<Rightarrow> bytes" cmp
  by unfold_locales (simp add: key_word_def word_codec, rule key_word_lead, simp)

definition scmp :: "'a::len word \<Rightarrow> 'a word \<Rightarrow> Ordering" where
  "scmp a b = cmp (sint a) (sint b)"

definition key_signed :: "'a::len word \<Rightarrow> bytes" where
  "key_signed v = key_word (flip_sign v)"

interpretation key_i32: digit_codec "\<lambda>_. True" "key_signed :: i32 \<Rightarrow> bytes" scmp
  by unfold_locales
    (simp add: key_signed_def scmp_def key_word_def word_codec flip_sign_order,
     simp only: key_signed_def, rule key_word_lead, simp)

interpretation key_i64: digit_codec "\<lambda>_. True" "key_signed :: i64 \<Rightarrow> bytes" scmp
  by unfold_locales
    (simp add: key_signed_def scmp_def key_word_def word_codec flip_sign_order,
     simp only: key_signed_def, rule key_word_lead, simp)

interpretation key_i128: digit_codec "\<lambda>_. True" "key_signed :: i128 \<Rightarrow> bytes" scmp
  by unfold_locales
    (simp add: key_signed_def scmp_def key_word_def word_codec flip_sign_order,
     simp only: key_signed_def, rule key_word_lead, simp)

lemma append_words [simp]:
  "append_u16 out u = out @ key_word u"
  "append_u32 out v = out @ key_word v"
  "append_u64 out w = out @ key_word w"
  "append_i32 out x = out @ key_signed x"
  "append_i64 out y = out @ key_signed y"
  "append_i128 out z = out @ key_signed z"
  by (simp_all add: append_u16_def append_u32_def append_u64_def append_i32_def append_i64_def
      append_i128_def key_word_def key_signed_def flip_sign_def)

lemma length_digits [simp]: "length (concat (map digits bs)) = 2 * length bs"
  by (induction bs) (simp_all add: digits_def)

lemma length_key_word [simp]:
  "length (key_word (v :: 'a::len word)) = 2 * (LENGTH('a) div 8)"
  "length (key_signed v) = 2 * (LENGTH('a) div 8)"
  by (simp_all add: key_word_def key_signed_def)

end
