(* ===== verification/Total_Compare.thy ===== *)
theory Total_Compare
  imports Ordered_Number Result_Value Order_Codec
begin

text \<open>
  The total order of result values, \<^verbatim>\<open>crates/execution/src/ordering.rs\<close>, used by \<open>ORDER BY\<close>,
  grouping and tie-breaking. Comparing malformed paths indexes past the end of a slice and panics;
  the comparison therefore returns an option, \<open>None\<close> being the panic.
\<close>

unbundle bit_operations_syntax

subsection \<open>Saturating time arithmetic\<close>

definition saturating_i64 :: "int \<Rightarrow> i64" where
  "saturating_i64 x = word_of_int (max (- (2 ^ 63)) (min (2 ^ 63 - 1) x))"

definition saturating_i128 :: "int \<Rightarrow> i128" where
  "saturating_i128 x = word_of_int (max (- (2 ^ 127)) (min (2 ^ 127 - 1) x))"

definition normalized_zoned_time :: "i64 \<Rightarrow> i32 \<Rightarrow> i64" where
  "normalized_zoned_time nanos offset_seconds =
     saturating_i64 (sint nanos - sint (saturating_i64 (sint offset_seconds * 1000000000)))"

definition normalized_duration :: "i64 \<Rightarrow> i64 \<Rightarrow> i64 \<Rightarrow> i32 \<Rightarrow> i128" where
  "normalized_duration months days seconds nanos =
     (let m = saturating_i128 (sint months * 2629746000000000);
          md = saturating_i128 (sint m + sint (saturating_i128 (sint days * 86400000000000)));
          mds = saturating_i128 (sint md + sint (saturating_i128 (sint seconds * 1000000000)))
      in saturating_i128 (sint mds + sint nanos))"

subsection \<open>Scalars\<close>

definition scalar_rank :: "ScalarValue \<Rightarrow> nat" where
  "scalar_rank v = (case v of
       SZonedDateTime _ _ _ \<Rightarrow> 0
     | SLocalDateTime _ _ \<Rightarrow> 1
     | SDate _ \<Rightarrow> 2
     | SZonedTime _ _ \<Rightarrow> 3
     | SLocalTime _ \<Rightarrow> 4
     | SDuration _ _ _ _ \<Rightarrow> 5
     | SString _ \<Rightarrow> 6
     | SBytes _ \<Rightarrow> 6
     | SBoolean _ \<Rightarrow> 7
     | SInteger _ \<Rightarrow> 8
     | SFloat _ \<Rightarrow> 8
     | SNull \<Rightarrow> 9
     | SList _ \<Rightarrow> 10
     | SMap _ \<Rightarrow> 11)"

definition value_rank :: "ResultValue \<Rightarrow> nat" where
  "value_rank v = (case v of
       RMap _ \<Rightarrow> 0
     | RNode _ \<Rightarrow> 1
     | RRelationship _ \<Rightarrow> 2
     | RList _ \<Rightarrow> 3
     | RPath _ _ \<Rightarrow> 4
     | RVector _ \<Rightarrow> 5
     | RScalar s \<Rightarrow> min 255 (6 + scalar_rank s))"

definition compare_same_scalar ::
  "float_order \<Rightarrow> ScalarValue \<Rightarrow> ScalarValue \<Rightarrow> Ordering option result" where
  "compare_same_scalar fo left right = (case (left, right) of
       (SBoolean l, SBoolean r) \<Rightarrow> Ok (Some (cmp l r))
     | (SInteger l, SInteger r) \<Rightarrow> Ok (Some (scmp l r))
     | (SFloat l, SFloat r) \<Rightarrow> Ok (Some (fo l r))
     | (SString l, SString r) \<Rightarrow> Ok (Some (bytes_cmp l r))
     | (SDate l, SDate r) \<Rightarrow> Ok (Some (scmp l r))
     | (SLocalTime l, SLocalTime r) \<Rightarrow> Ok (Some (scmp l r))
     | (SZonedTime l lo, SZonedTime r ro) \<Rightarrow>
         Ok (Some (then_with (scmp (normalized_zoned_time l lo) (normalized_zoned_time r ro)) (scmp lo ro)))
     | (SLocalDateTime l lnanos, SLocalDateTime r rnanos) \<Rightarrow>
         Ok (Some (then_with (scmp l r) (cmp lnanos rnanos)))
     | (SZonedDateTime l lnanos lz, SZonedDateTime r rnanos rz) \<Rightarrow>
         Ok (Some (then_with (scmp l r) (then_with (cmp lnanos rnanos) (bytes_cmp lz rz))))
     | (SDuration _ _ _ _, SDuration _ _ _ _) \<Rightarrow> Ok None
     | _ \<Rightarrow> Ok None)"

definition compare_duration :: "ScalarValue \<Rightarrow> ScalarValue \<Rightarrow> Ordering" where
  "compare_duration left right = (case (left, right) of
       (SDuration lmonths ldays lsecs lnanos, SDuration rmonths rdays rsecs rnanos) \<Rightarrow>
         scmp (normalized_duration lmonths ldays lsecs lnanos)
           (normalized_duration rmonths rdays rsecs rnanos)
     | _ \<Rightarrow> Equal)"

definition total_compare_scalar :: "float_order \<Rightarrow> ScalarValue \<Rightarrow> ScalarValue \<Rightarrow> Ordering" where
  "total_compare_scalar fo l r = (case (l, r) of
       (SInteger i, SFloat f) \<Rightarrow> compare_i64_f64 i f
     | (SFloat f, SInteger i) \<Rightarrow> reverse_ordering (compare_i64_f64 i f)
     | (SString _, SBytes _) \<Rightarrow> Less
     | (SBytes _, SString _) \<Rightarrow> Greater
     | (SBytes a, SBytes b) \<Rightarrow> bytes_cmp a b
     | _ \<Rightarrow>
        if scalar_rank l \<noteq> scalar_rank r then cmp (scalar_rank l) (scalar_rank r)
        else (case compare_same_scalar fo l r of
            Inr (Some o') \<Rightarrow> o'
          | Inr None \<Rightarrow> compare_duration l r
          | Inl _ \<Rightarrow> Equal))"

subsection \<open>Comparisons that may panic\<close>

text \<open>
  The source looks for the first element comparison that is not \<open>Equal\<close> and stops there; a
  comparison that panics before that point aborts the search.
\<close>

fun find_order :: "('a \<Rightarrow> Ordering option) \<Rightarrow> 'a list \<Rightarrow> Ordering option" where
  "find_order f [] = Some Equal"
| "find_order f (x # xs) = (case f x of
       None \<Rightarrow> None
     | Some Equal \<Rightarrow> find_order f xs
     | Some o' \<Rightarrow> Some o')"

lemma find_order_cong [fundef_cong]:
  "xs = ys \<Longrightarrow> (\<And>x. x \<in> set ys \<Longrightarrow> f x = g x) \<Longrightarrow> find_order f xs = find_order g ys"
proof -
  have "(\<And>x. x \<in> set ys \<Longrightarrow> f x = g x) \<Longrightarrow> find_order f ys = find_order g ys"
    by (induction ys) (auto split: option.splits Ordering.splits)
  then show "xs = ys \<Longrightarrow> (\<And>x. x \<in> set ys \<Longrightarrow> f x = g x) \<Longrightarrow> find_order f xs = find_order g ys"
    by simp
qed

definition then_order :: "Ordering option \<Rightarrow> Ordering option \<Rightarrow> Ordering option" where
  "then_order a b = (case a of None \<Rightarrow> None | Some Equal \<Rightarrow> b | Some o' \<Rightarrow> Some o')"

text \<open>\<open>f32::total_cmp\<close> of the standard library: the IEEE-754 \<open>totalOrder\<close> predicate.\<close>

definition f32_total_key :: "f32 \<Rightarrow> int" where
  "f32_total_key b = sint (if drop_bit 31 b = 0 then b else b XOR 0x7FFFFFFF)"

definition f32_total_cmp :: "f32 \<Rightarrow> f32 \<Rightarrow> Ordering" where
  "f32_total_cmp a b = cmp (f32_total_key a) (f32_total_key b)"

definition slice_index :: "'a list \<Rightarrow> nat \<Rightarrow> 'a option" where
  "slice_index xs i = (if i < length xs then Some (xs ! i) else None)"

definition path_id :: "ResultNode list \<Rightarrow> ResultEdge list \<Rightarrow> nat \<Rightarrow> u64 option" where
  "path_id ns es i =
     (if i mod 2 = 0 then map_option node_id (slice_index ns (i div 2))
      else map_option edge_id (slice_index es (i div 2)))"

definition compare_path_ids ::
  "ResultNode list \<Rightarrow> ResultEdge list \<Rightarrow> ResultNode list \<Rightarrow> ResultEdge list \<Rightarrow> Ordering option" where
  "compare_path_ids lns les rns res =
     (let ll = saturating_add_usize (length lns) (length les);
          rl = saturating_add_usize (length rns) (length res)
      in then_order
           (find_order (\<lambda>i. case (path_id lns les i, path_id rns res i) of
               (Some a, Some b) \<Rightarrow> Some (cmp a b)
             | _ \<Rightarrow> None) [0..<min ll rl])
           (Some (cmp ll rl)))"

subsection \<open>Values\<close>

text \<open>The leading document check of the comparison: a document scalar that decodes.\<close>

definition materialized :: "allocator \<Rightarrow> ResultValue \<Rightarrow> ResultValue option" where
  "materialized alloc v = (case v of
       RScalar s \<Rightarrow>
         if is_document s then (case from_property alloc s of Inr m \<Rightarrow> Some m | Inl _ \<Rightarrow> None)
         else None
     | _ \<Rightarrow> None)"

lemma materialized_docs:
  "materialized alloc v = Some m \<Longrightarrow> value_docs m < value_docs v"
  using materialised_no_docs(1)[of alloc] by (auto simp: materialized_def split: ResultValue.splits if_splits sum.splits)

definition compare_sequences ::
  "(ResultValue \<Rightarrow> ResultValue \<Rightarrow> Ordering option) \<Rightarrow> ResultValue list \<Rightarrow> ResultValue list \<Rightarrow>
   Ordering option" where
  "compare_sequences c ls rs =
     then_order (find_order (\<lambda>(x, y). c x y) (zip ls rs)) (Some (cmp (length ls) (length rs)))"

definition compare_maps ::
  "(ResultValue \<Rightarrow> ResultValue \<Rightarrow> Ordering option) \<Rightarrow> ResultValue btree_map \<Rightarrow>
   ResultValue btree_map \<Rightarrow> Ordering option" where
  "compare_maps c ls rs =
     then_order (Some (cmp (length ls) (length rs)))
     (then_order (Some (slice_cmp bytes_cmp (map fst ls) (map fst rs)))
       (find_order (\<lambda>(x, y). c x y) (zip (map snd ls) (map snd rs))))"

text \<open>The match on two values of equal rank, with the recursive comparison as an argument.\<close>

definition compare_same_rank ::
  "(ResultValue \<Rightarrow> ResultValue \<Rightarrow> Ordering option) \<Rightarrow> float_order \<Rightarrow> ResultValue \<Rightarrow>
   ResultValue \<Rightarrow> Ordering option" where
  "compare_same_rank c fo l r = (case (l, r) of
       (RMap ls, RMap rs) \<Rightarrow> compare_maps c ls rs
     | (RNode a, RNode b) \<Rightarrow> Some (cmp (node_id a) (node_id b))
     | (RRelationship a, RRelationship b) \<Rightarrow> Some (cmp (edge_id a) (edge_id b))
     | (RList ls, RList rs) \<Rightarrow> compare_sequences c ls rs
     | (RPath lns les, RPath rns res) \<Rightarrow> compare_path_ids lns les rns res
     | (RVector ls, RVector rs) \<Rightarrow>
         then_order (find_order (\<lambda>(x, y). Some (f32_total_cmp x y)) (zip ls rs))
           (Some (cmp (length ls) (length rs)))
     | (RScalar a, RScalar b) \<Rightarrow> Some (total_compare_scalar fo a b)
     | _ \<Rightarrow> Some Equal)"

text \<open>The recursion descends to members only.\<close>

fun member_of :: "ResultValue \<Rightarrow> ResultValue \<Rightarrow> bool" where
  "member_of x (RList vs) = (x \<in> set vs)"
| "member_of x (RMap fs) = (x \<in> snd ` set fs)"
| "member_of x _ = False"

lemma member_of_smaller: "member_of x v \<Longrightarrow> value_docs x \<le> value_docs v \<and> size x < size v"
  using value_docs_member size_member by (cases v) fastforce+

lemma compare_same_rank_cong [fundef_cong]:
  assumes "l = l'" "r = r'" "fo = fo'"
    and eq: "\<And>x y. member_of x l' \<Longrightarrow> member_of y r' \<Longrightarrow> c x y = d x y"
  shows "compare_same_rank c fo l r = compare_same_rank d fo' l' r'"
proof -
  have seq: "find_order (\<lambda>(x, y). c x y) (zip ls rs) = find_order (\<lambda>(x, y). d x y) (zip ls rs)"
    if "\<And>x y. x \<in> set ls \<Longrightarrow> y \<in> set rs \<Longrightarrow> c x y = d x y" for ls rs
    using that by (intro find_order_cong) (auto dest: set_zip_leftD set_zip_rightD)
  have "find_order (\<lambda>(x, y). c x y) (zip (map snd fs) (map snd gs)) =
      find_order (\<lambda>(x, y). d x y) (zip (map snd fs) (map snd gs))"
    if "l' = RMap fs" "r' = RMap gs" for fs gs
    by (rule seq) (use eq that in auto)
  with eq seq show ?thesis
    unfolding assms(1-3) compare_same_rank_def
    by (cases l'; cases r') (simp_all add: compare_sequences_def compare_maps_def)
qed

function total_compare ::
  "float_order \<Rightarrow> allocator \<Rightarrow> ResultValue \<Rightarrow> ResultValue \<Rightarrow> Ordering option" where
  "total_compare fo alloc l r =
     (case materialized alloc l of
        Some l' \<Rightarrow> total_compare fo alloc l' r
      | None \<Rightarrow> (case materialized alloc r of
          Some r' \<Rightarrow> total_compare fo alloc l r'
        | None \<Rightarrow>
            if value_rank l \<noteq> value_rank r then Some (cmp (value_rank l) (value_rank r))
            else compare_same_rank (\<lambda>x y. total_compare fo alloc x y) fo l r))"
  by pat_completeness auto
termination
  by (relation "measures [\<lambda>(fo, alloc, l, r). value_docs l + value_docs r,
      \<lambda>(fo, alloc, l, r). size l + size r]")
    (auto dest!: materialized_docs member_of_smaller)

declare total_compare.simps [simp del]

end
