(* ===== verification/Order_Key.thy ===== *)
theory Order_Key
  imports Total_Compare
begin

text \<open>
  Prefix-free radix keys, \<^verbatim>\<open>crates/execution/src/order_key.rs\<close> (and its copy in
  \<^verbatim>\<open>crates/cypher/src/order_key.rs\<close>): the key of a value, its length, and the proof that byte
  order of keys is the total order of values.
\<close>

unbundle bit_operations_syntax

subsection \<open>The encoder\<close>

abbreviation KEY_MAP :: u8 where "KEY_MAP \<equiv> 1"
abbreviation KEY_NODE :: u8 where "KEY_NODE \<equiv> 2"
abbreviation KEY_RELATIONSHIP :: u8 where "KEY_RELATIONSHIP \<equiv> 3"
abbreviation KEY_LIST :: u8 where "KEY_LIST \<equiv> 4"
abbreviation KEY_PATH :: u8 where "KEY_PATH \<equiv> 5"
abbreviation KEY_VECTOR :: u8 where "KEY_VECTOR \<equiv> 6"
abbreviation KEY_ZONED_DATETIME :: u8 where "KEY_ZONED_DATETIME \<equiv> 7"
abbreviation KEY_LOCAL_DATETIME :: u8 where "KEY_LOCAL_DATETIME \<equiv> 8"
abbreviation KEY_DATE :: u8 where "KEY_DATE \<equiv> 9"
abbreviation KEY_ZONED_TIME :: u8 where "KEY_ZONED_TIME \<equiv> 10"
abbreviation KEY_LOCAL_TIME :: u8 where "KEY_LOCAL_TIME \<equiv> 11"
abbreviation KEY_DURATION :: u8 where "KEY_DURATION \<equiv> 12"
abbreviation KEY_STRING_OR_BYTES :: u8 where "KEY_STRING_OR_BYTES \<equiv> 13"
abbreviation KEY_BOOLEAN :: u8 where "KEY_BOOLEAN \<equiv> 14"
abbreviation KEY_NUMBER :: u8 where "KEY_NUMBER \<equiv> 15"
abbreviation KEY_NULL :: u8 where "KEY_NULL \<equiv> 16"
abbreviation KEY_STRING :: u8 where "KEY_STRING \<equiv> 1"
abbreviation KEY_BYTES :: u8 where "KEY_BYTES \<equiv> 2"

definition key_too_large :: Error where
  "key_too_large = new_error ResultBudgetExceeded
     ''total-order key length exceeds the addressable result budget''"

definition key_allocation_failed :: Error where
  "key_allocation_failed = new_error ResultBudgetExceeded
     ''total-order key bytes cannot be admitted within the result memory budget''"

definition unmaterialized_document :: Error where
  "unmaterialized_document = new_error CorruptStorage
     ''document scalar reached total-order encoding without materialization''"

definition validate_path :: "nat \<Rightarrow> nat \<Rightarrow> unit result" where
  "validate_path nodes relationships =
     (if nodes \<noteq> saturating_add_usize relationships 1 then
        Err (new_error QueryType ''path result must contain exactly one more node than relationship'')
      else Ok ())"

definition length_u64 :: "nat \<Rightarrow> u64 result" where
  "length_u64 n = (if n < 2 ^ 64 then Ok (word_of_nat n) else Err key_too_large)"

definition checked_add :: "nat \<Rightarrow> nat \<Rightarrow> nat result" where
  "checked_add a b = ok_or (checked_add_usize a b) key_too_large"

definition encoded_bytes_len :: "nat \<Rightarrow> nat result" where
  "encoded_bytes_len n =
     ok_or (Option.bind (checked_mul_usize n 2) (\<lambda>m. checked_add_usize m 1)) key_too_large"

definition append_number :: "bytes \<Rightarrow> OrderedNumber \<Rightarrow> bytes" where
  "append_number out n = append_u64 (append_u16 (out @ [category n]) (exponent n)) (significand n)"

definition sortable_f32_bits :: "f32 \<Rightarrow> u32" where
  "sortable_f32_bits b = (if drop_bit 31 b = 0 then b XOR push_bit 31 1 else NOT b)"

fun append_scalar :: "bytes \<Rightarrow> ScalarValue \<Rightarrow> bytes result" where
  "append_scalar out (SZonedDateTime seconds nanos timezone) =
     Ok (append_bytes (append_u32 (append_i64 (out @ [KEY_ZONED_DATETIME]) seconds) nanos) timezone)"
| "append_scalar out (SLocalDateTime seconds nanos) =
     Ok (append_u32 (append_i64 (out @ [KEY_LOCAL_DATETIME]) seconds) nanos)"
| "append_scalar out (SDate v) = Ok (append_i64 (out @ [KEY_DATE]) v)"
| "append_scalar out (SZonedTime nanos offset_seconds) =
     Ok (append_i32 (append_i64 (out @ [KEY_ZONED_TIME]) (normalized_zoned_time nanos offset_seconds))
       offset_seconds)"
| "append_scalar out (SLocalTime v) = Ok (append_i64 (out @ [KEY_LOCAL_TIME]) v)"
| "append_scalar out (SDuration months days seconds nanos) =
     Ok (append_i128 (out @ [KEY_DURATION]) (normalized_duration months days seconds nanos))"
| "append_scalar out (SString v) = Ok (append_bytes (out @ [KEY_STRING_OR_BYTES, KEY_STRING]) v)"
| "append_scalar out (SBytes v) = Ok (append_bytes (out @ [KEY_STRING_OR_BYTES, KEY_BYTES]) v)"
| "append_scalar out (SBoolean v) = Ok (out @ [KEY_BOOLEAN, (if v then 1 else 0) + 1])"
| "append_scalar out (SInteger v) = Ok (append_number (out @ [KEY_NUMBER]) (ordered_integer v))"
| "append_scalar out (SFloat v) = Ok (append_number (out @ [KEY_NUMBER]) (ordered_float v))"
| "append_scalar out SNull = Ok (out @ [KEY_NULL])"
| "append_scalar out (SList _) = Err unmaterialized_document"
| "append_scalar out (SMap _) = Err unmaterialized_document"

text \<open>\<open>validate_path\<close> has run, so the indices below are in range (\<open>path_id_valid\<close>).\<close>

definition append_path_ids :: "bytes \<Rightarrow> ResultNode list \<Rightarrow> ResultEdge list \<Rightarrow> bytes" where
  "append_path_ids out ns es =
     foldl (\<lambda>out i.
        if i mod 2 = 0 then append_u64 out (node_id (ns ! (i div 2)))
        else append_u64 out (edge_id (es ! (i div 2))))
       out [0..<saturating_add_usize (length ns) (length es)]"

function append_value :: "allocator \<Rightarrow> bytes \<Rightarrow> ResultValue \<Rightarrow> bytes result" where
  "append_value alloc out (RMap fs) =
     and_then (length_u64 (length fs)) (\<lambda>n.
       try_fold (\<lambda>out v. append_value alloc out v)
         (foldl (\<lambda>out (name, _). append_bytes out name) (append_u64 (out @ [KEY_MAP]) n) fs)
         (map snd fs))"
| "append_value alloc out (RNode n) = Ok (append_u64 (out @ [KEY_NODE]) (node_id n))"
| "append_value alloc out (RRelationship e) = Ok (append_u64 (out @ [KEY_RELATIONSHIP]) (edge_id e))"
| "append_value alloc out (RList vs) =
     and_then (try_fold (\<lambda>out v. append_value alloc out v) (out @ [KEY_LIST]) vs) (\<lambda>out.
       Ok (out @ [0]))"
| "append_value alloc out (RPath ns es) =
     and_then (validate_path (length ns) (length es)) (\<lambda>_.
       Ok (append_path_ids (out @ [KEY_PATH]) ns es @ [0]))"
| "append_value alloc out (RVector vs) =
     Ok (foldl (\<lambda>out v. append_u32 out (sortable_f32_bits v)) (out @ [KEY_VECTOR]) vs @ [0])"
| "append_value alloc out (RScalar s) =
     (if is_document s then and_then (from_property alloc s) (\<lambda>v. append_value alloc out v)
      else append_scalar out s)"
  by pat_completeness auto
termination
proof (relation "measures [\<lambda>(alloc, out, v). value_docs v, \<lambda>(alloc, out, v). size v]", goal_cases)
  case (2 alloc out fs n v out')
  then show ?case using member_of_smaller[of v "RMap fs"] by auto
next
  case (3 alloc out vs v out')
  then show ?case using member_of_smaller[of v "RList vs"] by auto
next
  case (4 alloc out s v)
  then show ?case using materialised_no_docs(1)[of alloc s v] by auto
qed simp

fun scalar_key_len :: "ScalarValue \<Rightarrow> nat result" where
  "scalar_key_len (SZonedDateTime _ _ timezone) =
     and_then (encoded_bytes_len (length timezone)) (\<lambda>n. checked_add 25 n)"
| "scalar_key_len (SLocalDateTime _ _) = Ok 25"
| "scalar_key_len (SZonedTime _ _) = Ok 25"
| "scalar_key_len (SDate _) = Ok 17"
| "scalar_key_len (SLocalTime _) = Ok 17"
| "scalar_key_len (SDuration _ _ _ _) = Ok 33"
| "scalar_key_len (SString v) = and_then (encoded_bytes_len (length v)) (\<lambda>n. checked_add 2 n)"
| "scalar_key_len (SBytes v) = and_then (encoded_bytes_len (length v)) (\<lambda>n. checked_add 2 n)"
| "scalar_key_len (SBoolean _) = Ok 2"
| "scalar_key_len (SInteger _) = Ok 22"
| "scalar_key_len (SFloat _) = Ok 22"
| "scalar_key_len SNull = Ok 1"
| "scalar_key_len (SList _) = Err unmaterialized_document"
| "scalar_key_len (SMap _) = Err unmaterialized_document"

function total_order_key_len :: "allocator \<Rightarrow> ResultValue \<Rightarrow> nat result" where
  "total_order_key_len alloc (RMap fs) =
     and_then (try_fold (\<lambda>n (name, _). and_then (encoded_bytes_len (length name)) (checked_add n)) 0 fs) (\<lambda>keys.
     and_then (try_fold (\<lambda>n v. and_then (total_order_key_len alloc v) (checked_add n)) 0 (map snd fs)) (\<lambda>nested.
     and_then (checked_add keys nested) (checked_add 17)))"
| "total_order_key_len alloc (RNode _) = Ok 17"
| "total_order_key_len alloc (RRelationship _) = Ok 17"
| "total_order_key_len alloc (RList vs) =
     try_fold (\<lambda>n v. and_then (total_order_key_len alloc v) (checked_add n)) 2 vs"
| "total_order_key_len alloc (RPath ns es) =
     and_then (validate_path (length ns) (length es)) (\<lambda>_.
     and_then (ok_or (Option.bind (checked_add_usize (length ns) (length es))
         (\<lambda>n. checked_mul_usize n 16)) key_too_large) (checked_add 2))"
| "total_order_key_len alloc (RVector vs) =
     and_then (ok_or (checked_mul_usize (length vs) 8) key_too_large) (checked_add 2)"
| "total_order_key_len alloc (RScalar s) =
     (if is_document s then and_then (from_property alloc s) (\<lambda>v. total_order_key_len alloc v)
      else scalar_key_len s)"
  by pat_completeness auto
termination
proof (relation "measures [\<lambda>(alloc, v). value_docs v, \<lambda>(alloc, v). size v]", goal_cases)
  case (2 alloc fs keys v n)
  then show ?case using member_of_smaller[of v "RMap fs"] by auto
next
  case (3 alloc vs v n)
  then show ?case using member_of_smaller[of v "RList vs"] by auto
next
  case (4 alloc s v)
  then show ?case using materialised_no_docs(1)[of alloc s v] by auto
qed simp

definition encode_total_order_key :: "allocator \<Rightarrow> ResultValue \<Rightarrow> bytes result" where
  "encode_total_order_key alloc v =
     and_then (total_order_key_len alloc v) (\<lambda>capacity.
       if alloc capacity then append_value alloc [] v else Err key_allocation_failed)"

definition append_total_order_key :: "allocator \<Rightarrow> bytes \<Rightarrow> ResultValue \<Rightarrow> (bytes \<times> nat) result" where
  "append_total_order_key alloc out v =
     and_then (total_order_key_len alloc v) (\<lambda>n.
       if alloc (length out + n) then and_then (append_value alloc out v) (\<lambda>out. Ok (out, n))
       else Err key_allocation_failed)"

definition max_total_order_key_len :: "allocator \<Rightarrow> ResultValue list \<Rightarrow> nat result" where
  "max_total_order_key_len alloc vs =
     try_fold (\<lambda>m v. and_then (total_order_key_len alloc v) (\<lambda>n. Ok (max m n))) 0 vs"

subsection \<open>Keys are appended, and their length is announced exactly\<close>

lemma try_fold_append:
  assumes "\<And>x out. x \<in> set xs \<Longrightarrow> f out x = and_then (f [] x) (\<lambda>k. Ok (out @ k))"
  shows "try_fold f out xs = and_then (collect_results (map (f []) xs)) (\<lambda>ks. Ok (out @ concat ks))"
  using assms
proof (induction xs arbitrary: out)
  case (Cons x xs)
  have hd: "f out x = and_then (f [] x) (\<lambda>k. Ok (out @ k))" by (rule Cons.prems) simp
  have tl: "try_fold f out' xs = and_then (collect_results (map (f []) xs)) (\<lambda>ks. Ok (out' @ concat ks))" for out'
    by (rule Cons.IH) (rule Cons.prems, simp)
  show ?case by (simp only: try_fold.simps hd tl) (simp add: and_then_assoc)
qed simp

lemma foldl_append: "(\<And>out x. f out x = out @ g x) \<Longrightarrow> foldl f out xs = out @ concat (map g xs)"
  by (induction xs arbitrary: out) simp_all

lemma append_number_key: "append_number out n = out @ category n # key_word (exponent n) @ key_word (significand n)"
  by (simp add: append_number_def)

lemma append_scalar_shift: "append_scalar out s = and_then (append_scalar [] s) (\<lambda>k. Ok (out @ k))"
  by (cases s) (simp_all add: append_number_key)

definition path_ids :: "ResultNode list \<Rightarrow> ResultEdge list \<Rightarrow> u64 list" where
  "path_ids ns es =
     map (\<lambda>i. if i mod 2 = 0 then node_id (ns ! (i div 2)) else edge_id (es ! (i div 2)))
       [0..<saturating_add_usize (length ns) (length es)]"

lemma append_path_ids_key: "append_path_ids out ns es = out @ concat (map key_word (path_ids ns es))"
  unfolding append_path_ids_def path_ids_def
  by (subst foldl_append[where g = "\<lambda>i. key_word (if i mod 2 = 0 then node_id (ns ! (i div 2)) else edge_id (es ! (i div 2)))"])
    (simp_all add: o_def)

lemma try_fold_values:
  assumes "\<And>v out. v \<in> set vs \<Longrightarrow> append_value alloc out v = and_then (append_value alloc [] v) (\<lambda>k. Ok (out @ k))"
  shows "try_fold (\<lambda>out v. append_value alloc out v) out vs =
    and_then (collect_results (map (append_value alloc []) vs)) (\<lambda>ks. Ok (out @ concat ks))"
  using try_fold_append[of vs "append_value alloc" out] assms by blast

definition key_name :: "str \<Rightarrow> bytes" where
  "key_name name = concat (map digits name) @ [0]"

lemma foldl_names:
  "foldl (\<lambda>out (name, _). append_bytes out name) out fs = out @ concat (map (key_name \<circ> fst) fs)"
  by (rule foldl_append) (simp add: case_prod_beta key_name_def)

lemma foldl_floats:
  "foldl (\<lambda>out v. append_u32 out (sortable_f32_bits v)) out vs = out @ concat (map (key_word \<circ> sortable_f32_bits) vs)"
  by (rule foldl_append) simp

lemma append_value_shift:
  "append_value alloc out v = and_then (append_value alloc [] v) (\<lambda>k. Ok (out @ k))"
proof (induction alloc out v rule: append_value.induct)
  case (1 alloc out fs)
  show ?case
  proof (cases "length_u64 (length fs)")
    case (Inr n)
    note tf = try_fold_values[OF "1.IH"[OF Inr]]
    show ?thesis by (simp only: append_value.simps Inr and_then_simps tf foldl_names) (simp add: and_then_assoc)
  qed simp
next
  case (4 alloc out vs)
  note tf = try_fold_values[OF "4.IH"]
  show ?case by (simp only: append_value.simps tf) (simp add: and_then_assoc)
next
  case (5 alloc out ns es)
  then show ?case by (simp add: append_path_ids_key and_then_assoc)
next
  case (6 alloc out vs)
  show ?case by (simp only: append_value.simps foldl_floats) simp
next
  case (7 alloc out s)
  then show ?case
    using append_scalar_shift[of out s] by (cases "from_property alloc s") (auto split: if_splits)
qed (simp_all add: and_then_assoc)

text \<open>The key of a value, as the encoder writes it from an empty buffer.\<close>

definition order_key :: "allocator \<Rightarrow> ResultValue \<Rightarrow> bytes" where
  "order_key alloc v = (case append_value alloc [] v of Inr k \<Rightarrow> k | Inl _ \<Rightarrow> [])"

lemma checked_add_Inr [simp]: "checked_add a b = Inr n \<longleftrightarrow> n = a + b \<and> a + b < usize_limit"
  by (auto simp: checked_add_def checked_add_usize_def)

lemma encoded_bytes_len_Inr [simp]:
  "encoded_bytes_len n = Inr m \<longleftrightarrow> m = 2 * n + 1 \<and> 2 * n + 1 < usize_limit"
  by (auto simp: encoded_bytes_len_def checked_mul_usize_def checked_add_usize_def split: if_splits)

lemma length_number_key [simp]: "length (append_number out n) = length out + 21"
  by (simp add: append_number_key)

lemma scalar_key_len_exact:
  "scalar_key_len s = Inr n \<Longrightarrow> \<exists>k. append_scalar [] s = Inr k \<and> length k = n"
  by (cases s) (auto simp: and_then_eq_Inr_iff)

lemma try_fold_lengths:
  assumes "try_fold (\<lambda>n v. and_then (g v) (checked_add n)) m vs = Inr n"
    and "\<And>v l. v \<in> set vs \<Longrightarrow> g v = Inr l \<Longrightarrow> \<exists>k. f v = Inr k \<and> length k = l"
  shows "\<exists>ks. collect_results (map f vs) = Inr ks \<and> n = m + length (concat ks)"
  using assms
proof (induction vs arbitrary: m)
  case (Cons v vs)
  from Cons.prems(1) obtain l where l: "g v = Inr l"
    and tl: "try_fold (\<lambda>n v. and_then (g v) (checked_add n)) (m + l) vs = Inr n"
    by (auto simp: and_then_eq_Inr_iff)
  obtain k where k: "f v = Inr k" "length k = l" using Cons.prems(2)[OF _ l] by auto
  obtain ks where "collect_results (map f vs) = Inr ks" "n = m + l + length (concat ks)"
    using Cons.IH[OF tl] Cons.prems(2) by auto
  with k show ?case by simp
qed simp

lemma name_lengths:
  "(\<lambda>n (name, v). and_then (encoded_bytes_len (length name)) (checked_add n)) =
   (\<lambda>n kv. and_then (encoded_bytes_len (length (fst kv))) (checked_add n))"
  by (intro ext) (simp split: prod.splits)

lemma collect_results_Ok [simp]: "collect_results (map (\<lambda>x. Ok (h x)) xs) = Ok (map h xs)"
  by (induction xs) auto

lemma length_concat_const: "(\<And>x. length (f x) = c) \<Longrightarrow> length (concat (map f xs)) = c * length xs"
  by (induction xs) auto

lemma try_fold_names:
  assumes "try_fold (\<lambda>n (name, v). and_then (encoded_bytes_len (length name)) (checked_add n)) 0 fs = Inr n"
  shows "n = length (concat (map (key_name \<circ> fst) fs))" "length fs \<le> n"
proof -
  from try_fold_lengths[OF assms[unfolded name_lengths], where f = "\<lambda>kv. Inr (key_name (fst kv))"]
  show n: "n = length (concat (map (key_name \<circ> fst) fs))"
    by (auto simp: key_name_def o_def)
  have "length fs \<le> length (concat (map (key_name \<circ> fst) fs))"
    by (induction fs) (auto simp: key_name_def)
  with n show "length fs \<le> n" by simp
qed

lemma key_len_exact:
  "total_order_key_len alloc v = Inr n \<Longrightarrow> \<exists>k. append_value alloc [] v = Inr k \<and> length k = n"
proof (induction alloc v arbitrary: n rule: total_order_key_len.induct)
  case (1 alloc fs)
  then obtain keys nested where
    k: "try_fold (\<lambda>n (name, v). and_then (encoded_bytes_len (length name)) (checked_add n)) 0 fs = Inr keys"
    and v: "try_fold (\<lambda>n v. and_then (total_order_key_len alloc v) (checked_add n)) 0 (map snd fs) = Inr nested"
    and n: "n = 17 + (keys + nested)" "keys + nested < usize_limit"
    by (auto simp: and_then_eq_Inr_iff)
  from try_fold_lengths[OF v, of "append_value alloc []"] "1.IH"[OF k] obtain ks where
    ks: "collect_results (map (append_value alloc []) (map snd fs)) = Inr ks" "nested = length (concat ks)" by auto
  have len: "length_u64 (length fs) = Inr (word_of_nat (length fs))"
    using try_fold_names(2)[OF k] n(2) by (simp add: length_u64_def)
  show ?case
    using ks n len try_fold_names(1)[OF k] unfolding append_value.simps try_fold_values[OF append_value_shift] foldl_names
    by auto
next
  case (4 alloc vs)
  from try_fold_lengths[OF "4.prems"[simplified], of "append_value alloc []"] "4.IH" obtain ks where
    "collect_results (map (append_value alloc []) vs) = Inr ks" "n = 2 + length (concat ks)" by auto
  then show ?case unfolding append_value.simps try_fold_values[OF append_value_shift] by auto
next
  case (5 alloc ns es)
  then show ?case
    by (auto simp: and_then_eq_Inr_iff append_path_ids_key path_ids_def length_concat_const[where c = 16]
        checked_add_usize_def checked_mul_usize_def saturating_add_usize_def bind_eq_Some_conv split: if_splits)
next
  case (6 alloc vs)
  then show ?case unfolding append_value.simps foldl_floats
    by (auto simp: and_then_eq_Inr_iff checked_mul_usize_def length_concat_const[where c = 8] split: if_splits)
next
  case (7 alloc s)
  then show ?case using scalar_key_len_exact[of s n] by (auto simp: and_then_eq_Inr_iff split: if_splits)
qed auto

subsection \<open>The shape of a key\<close>

definition keyable :: "allocator \<Rightarrow> ResultValue \<Rightarrow> bool" where
  "keyable alloc v \<longleftrightarrow> (\<exists>n. total_order_key_len alloc v = Inr n)"

lemma keyable_append: "keyable alloc v \<Longrightarrow> append_value alloc [] v = Inr (order_key alloc v)"
  using key_len_exact by (fastforce simp: keyable_def order_key_def)

lemma try_fold_len_members:
  "try_fold (\<lambda>n v. and_then (g v) (checked_add n)) m vs = Inr n \<Longrightarrow> v \<in> set vs \<Longrightarrow> \<exists>l. g v = Inr l"
  by (induction vs arbitrary: m) (auto simp: and_then_eq_Inr_iff)

lemma keyable_member: "keyable alloc v \<Longrightarrow> member_of x v \<Longrightarrow> keyable alloc x"
  by (cases v) (auto simp: keyable_def and_then_eq_Inr_iff dest!: try_fold_len_members)

lemma keyable_collect:
  "\<forall>v\<in>set vs. keyable alloc v \<Longrightarrow>
   collect_results (map (append_value alloc []) vs) = Inr (map (order_key alloc) vs)"
  by (induction vs) (simp_all add: keyable_append)

lemma keyable_map_length: "keyable alloc (RMap fs) \<Longrightarrow> length fs < 2 ^ 64"
  using try_fold_names(2) by (fastforce simp: keyable_def and_then_eq_Inr_iff)

lemma order_key_map:
  assumes "keyable alloc (RMap fs)"
  shows "order_key alloc (RMap fs) = KEY_MAP # key_word (word_of_nat (length fs) :: u64) @
    concat (map key_name (map fst fs)) @ concat (map (order_key alloc) (map snd fs))"
proof -
  have m: "\<forall>v\<in>set (map snd fs). keyable alloc v" using keyable_member[OF assms] by auto
  show ?thesis
    using keyable_append[OF assms] keyable_map_length[OF assms]
    unfolding append_value.simps try_fold_values[OF append_value_shift] foldl_names keyable_collect[OF m]
    by (simp add: length_u64_def)
qed

lemma order_key_list:
  assumes "keyable alloc (RList vs)"
  shows "order_key alloc (RList vs) = KEY_LIST # concat (map (order_key alloc) vs) @ [0]"
proof -
  have m: "\<forall>v\<in>set vs. keyable alloc v" using keyable_member[OF assms] by auto
  show ?thesis
    using keyable_append[OF assms]
    unfolding append_value.simps try_fold_values[OF append_value_shift] keyable_collect[OF m] by simp
qed

lemma order_key_simps:
  "order_key alloc (RNode n) = KEY_NODE # key_word (node_id n)"
  "order_key alloc (RRelationship e) = KEY_RELATIONSHIP # key_word (edge_id e)"
  "order_key alloc (RVector vs) = KEY_VECTOR # concat (map (key_word \<circ> sortable_f32_bits) vs) @ [0]"
  by (simp_all add: order_key_def foldl_floats del: append_words(2))

lemma order_key_path:
  assumes "keyable alloc (RPath ns es)"
  shows "order_key alloc (RPath ns es) = KEY_PATH # concat (map key_word (path_ids ns es)) @ [0]"
    "length ns = Suc (length es)" "length ns + length es < usize_limit"
  using keyable_append[OF assms] assms
  by (auto simp: append_path_ids_key keyable_def and_then_eq_Inr_iff validate_path_def
    saturating_add_usize_def checked_add_usize_def bind_eq_Some_conv split: if_splits)

lemma keyable_document:
  assumes "keyable alloc (RScalar s)" "is_document s"
  obtains v where "from_property alloc s = Inr v" "keyable alloc v"
    "order_key alloc (RScalar s) = order_key alloc v" "materialized alloc (RScalar s) = Some v"
  using assms by (auto simp: keyable_def and_then_eq_Inr_iff order_key_def materialized_def)

lemma not_materialized: "keyable alloc v \<Longrightarrow> materialized alloc v = None \<Longrightarrow> \<not> (\<exists>s. v = RScalar s \<and> is_document s)"
  by (metis keyable_document option.distinct(1))


subsection \<open>Byte order of keys is the order of values\<close>

lemma then_order_simps [simp]:
  "then_order None ob = None" "then_order (Some a) (Some b) = Some (then_with a b)"
  by (simp_all add: then_order_def) (cases a; simp)

lemma find_order_Some:
  "(\<And>x y. (x, y) \<in> set (zip xs ys) \<Longrightarrow> f (x, y) = Some (c x y)) \<Longrightarrow>
   then_order (find_order f (zip xs ys)) (Some (cmp (length xs) (length ys))) = Some (slice_cmp c xs ys)"
proof (induction c xs ys rule: slice_cmp.induct)
  case (4 c x xs y ys)
  have "then_order (find_order f (zip xs ys)) (Some (cmp (length xs) (length ys))) = Some (slice_cmp c xs ys)"
    by (rule "4.IH") (use "4.prems" in auto)
  moreover have "f (x, y) = Some (c x y)" by (rule "4.prems") simp
  moreover have "cmp (length (x # xs)) (length (y # ys)) = cmp (length xs) (length ys)" by (simp add: cmp_def)
  ultimately show ?case by (cases "c x y") (simp_all add: then_order_def)
qed (simp_all add: cmp_def)

lemma find_order_same_length:
  "length xs = length ys \<Longrightarrow> (\<And>x y. (x, y) \<in> set (zip xs ys) \<Longrightarrow> f (x, y) = Some (c x y)) \<Longrightarrow>
   find_order f (zip xs ys) = Some (slice_cmp c xs ys)"
  using find_order_Some[of xs ys f c]
  by (cases "find_order f (zip xs ys)") simp_all

lemma find_order_map: "find_order f (map g xs) = find_order (f \<circ> g) xs"
  by (induction xs) (simp_all split: option.split Ordering.split)

lemma zip_as_map: "zip xs ys = map (\<lambda>i. (xs ! i, ys ! i)) [0..<min (length xs) (length ys)]"
  by (rule nth_equalityI) simp_all

lemma sortable_f32_bits_flip:
  "sortable_f32_bits b = flip_sign (if drop_bit 31 b = 0 then b else b XOR 0x7FFFFFFF)"
proof -
  have "NOT b = b XOR (- 1)" by simp
  also have "(- 1 :: u32) = 0x7FFFFFFF XOR push_bit 31 1" by simp
  finally have "NOT b = (b XOR 0x7FFFFFFF) XOR push_bit 31 1" by (simp only: xor.assoc)
  then show ?thesis by (simp add: sortable_f32_bits_def flip_sign_def)
qed

lemma sortable_f32_order: "cmp (sortable_f32_bits a) (sortable_f32_bits b) = f32_total_cmp a b"
  unfolding sortable_f32_bits_flip flip_sign_order f32_total_cmp_def f32_total_key_def ..

interpretation key_f32: digit_codec "\<lambda>_. True" "key_word \<circ> sortable_f32_bits" f32_total_cmp
proof unfold_locales
  show "bytes_cmp ((key_word \<circ> sortable_f32_bits) x @ r) ((key_word \<circ> sortable_f32_bits) y @ s) =
      then_with (f32_total_cmp x y) (bytes_cmp r s)" for x y r s
    by (simp add: key_u32.enc_order sortable_f32_order)
  show "\<exists>d w. (key_word \<circ> sortable_f32_bits) x = d # w \<and> 0 < d" for x
    using key_u32.leading_digit by simp
qed

interpretation key_name: order_codec "\<lambda>_. True" key_name "bytes_cmp"
  using octet.sequence.enc_order by unfold_locales (simp add: key_name_def list_all_iff)

definition key_number :: "OrderedNumber \<Rightarrow> bytes" where
  "key_number n = category n # key_word (exponent n) @ key_word (significand n)"

interpretation key_number: order_codec "\<lambda>_. True" key_number cmp
proof
  show "bytes_cmp (key_number x @ r) (key_number y @ s) = then_with (cmp x y) (bytes_cmp r s)" for x y r s
    by (cases x; cases y)
      (simp add: key_number_def cmp_OrderedNumber key_u16.enc_order key_u64.enc_order ordering_simps)
qed

lemma key_tag:
  assumes "keyable alloc v" "materialized alloc v = None"
  shows "\<exists>d w. order_key alloc v = d # w \<and> unat d = value_rank v + 1"
proof (cases v)
  case (RScalar s)
  then have nd: "\<not> is_document s" using not_materialized[OF assms] by blast
  then have "\<exists>d w. append_scalar [] s = Inr (d # w) \<and> unat d = 7 + scalar_rank s \<and> scalar_rank s < 12"
    by (cases s) (simp_all add: scalar_rank_def append_number_key)
  with RScalar nd show ?thesis by (auto simp: order_key_def value_rank_def)
next
  case (RMap fs)
  have "keyable alloc (RMap fs)" using assms(1) RMap by simp
  from order_key_map[OF this] show ?thesis by (simp add: RMap value_rank_def)
next
  case (RList vs)
  have "keyable alloc (RList vs)" using assms(1) RList by simp
  from order_key_list[OF this] show ?thesis by (simp add: RList value_rank_def)
next
  case (RPath ns es)
  have "keyable alloc (RPath ns es)" using assms(1) RPath by simp
  from order_key_path(1)[OF this] show ?thesis by (simp add: RPath value_rank_def)
qed (simp_all add: order_key_simps value_rank_def)

lemma materialized_keyable:
  assumes "keyable alloc v" "materialized alloc v = Some m"
  shows "keyable alloc m" "order_key alloc v = order_key alloc m" "materialized alloc m = None"
proof -
  obtain s where s: "v = RScalar s" "is_document s"
    using assms(2) by (auto simp: materialized_def split: ResultValue.splits if_splits)
  from keyable_document[OF assms(1)[unfolded s(1)] s(2)] show "keyable alloc m" "order_key alloc v = order_key alloc m"
    using assms(2) s by (metis option.inject)+
  have "value_docs m = 0" using materialized_docs[OF assms(2)] s by simp
  then show "materialized alloc m = None"
    by (auto simp: materialized_def split: ResultValue.splits if_splits)
qed

lemma key_lead: "keyable alloc v \<Longrightarrow> \<exists>d w. order_key alloc v = d # w \<and> 0 < d"
proof -
  assume k: "keyable alloc v"
  obtain m where m: "keyable alloc m" "order_key alloc v = order_key alloc m" "materialized alloc m = None"
    using k materialized_keyable[OF k] by (cases "materialized alloc v") auto
  from key_tag[OF m(1,3)] obtain d w where d: "order_key alloc m = d # w" "unat d = value_rank m + 1" by blast
  then have "d \<noteq> 0" by auto
  with d m show ?thesis by (simp add: word_gt_0)
qed

lemma scalar_rank_simps [simp]:
  "scalar_rank (SZonedDateTime a b c) = 0" "scalar_rank (SLocalDateTime a b) = 1" "scalar_rank (SDate a) = 2"
  "scalar_rank (SZonedTime a d) = 3" "scalar_rank (SLocalTime a) = 4" "scalar_rank (SDuration a e f d) = 5"
  "scalar_rank (SString c) = 6" "scalar_rank (SBytes c) = 6" "scalar_rank (SBoolean g) = 7"
  "scalar_rank (SInteger a) = 8" "scalar_rank (SFloat a) = 8" "scalar_rank SNull = 9"
  "scalar_rank (SList l) = 10" "scalar_rank (SMap l) = 11"
  by (simp_all add: scalar_rank_def)

lemma scalar_rank_iffs:
  "scalar_rank v = 0 \<longleftrightarrow> (\<exists>a b c. v = SZonedDateTime a b c)"
  "scalar_rank v = Suc 0 \<longleftrightarrow> (\<exists>a b. v = SLocalDateTime a b)"
  "scalar_rank v = 2 \<longleftrightarrow> (\<exists>a. v = SDate a)"
  "scalar_rank v = 3 \<longleftrightarrow> (\<exists>a b. v = SZonedTime a b)"
  "scalar_rank v = 4 \<longleftrightarrow> (\<exists>a. v = SLocalTime a)"
  "scalar_rank v = 5 \<longleftrightarrow> (\<exists>a b c d. v = SDuration a b c d)"
  "scalar_rank v = 6 \<longleftrightarrow> (\<exists>a. v = SString a \<or> v = SBytes a)"
  "scalar_rank v = 7 \<longleftrightarrow> (\<exists>a. v = SBoolean a)"
  "scalar_rank v = 8 \<longleftrightarrow> (\<exists>a. v = SInteger a \<or> v = SFloat a)"
  "scalar_rank v = 9 \<longleftrightarrow> v = SNull"
           apply (cases v; simp add: scalar_rank_def)
          apply (cases v; simp add: scalar_rank_def)
         apply (cases v; simp add: scalar_rank_def)
        apply (cases v; simp add: scalar_rank_def)
       apply (cases v; simp add: scalar_rank_def)
      apply (cases v; simp add: scalar_rank_def)
     apply (cases v; simp add: scalar_rank_def)
    apply (cases v; simp add: scalar_rank_def)
   apply (cases v; simp add: scalar_rank_def)
  apply (cases v; simp add: scalar_rank_def)
  done

lemma number_key_order:
  assumes "ordered_float_law fo"
  shows "cmp (ordered_integer i) (ordered_integer j) = scmp i j"
    "cmp (ordered_float f) (ordered_float g) = fo f g"
    "cmp (ordered_float f) (ordered_integer i) = reverse_ordering (cmp (ordered_integer i) (ordered_float f))"
proof -
  have "cmp (ordered_integer i) (ordered_integer j) = cmp (sint i * 2 ^ 1137) (sint j * 2 ^ 1137)"
    by (simp only: cmp_number_scaled ordered_integer_scaled)
  also have "\<dots> = scmp i j" unfolding scmp_def by (rule cmp_scale) simp
  finally show "cmp (ordered_integer i) (ordered_integer j) = scmp i j" .
qed (rule cmp_ordered_float[OF assms], rule cmp_flip)

lemma order_key_scalar:
  "\<not> is_document s \<Longrightarrow>
   order_key alloc (RScalar s) = (case append_scalar [] s of Inr k \<Rightarrow> k | Inl _ \<Rightarrow> [])"
  by (simp add: order_key_def)

lemma cmp_tags: "cmp (1 :: u8) 2 = Less" "cmp (2 :: u8) 1 = Greater"
  by simp_all

lemma scalar_key_order:
  assumes "ordered_float_law fo" "\<not> is_document a" "\<not> is_document b" "scalar_rank a = scalar_rank b"
  shows "bytes_cmp (order_key alloc (RScalar a) @ x) (order_key alloc (RScalar b) @ y) =
    then_with (total_compare_scalar fo a b) (bytes_cmp x y)"
proof -
  note defs = total_compare_scalar_def compare_same_scalar_def compare_duration_def
    append_number_key key_number_def[symmetric] key_name_def[symmetric]
    compare_i64_f64_def number_key_order[OF assms(1)]
  note orders = key_number.enc_order key_name.enc_order key_i32.enc_order key_i64.enc_order
    key_i128.enc_order key_u32.enc_order then_with_assoc
  show ?thesis
    unfolding order_key_scalar[OF assms(2)] order_key_scalar[OF assms(3)]
    using assms(2,3) assms(4)[symmetric]
    by (cases a) (auto simp: scalar_rank_iffs defs orders cmp_concrete cmp_tags)
qed

lemma path_id_valid:
  assumes "length ns = Suc (length es)" "length ns + length es < usize_limit" "i < length ns + length es"
  shows "path_id ns es i = Some (path_ids ns es ! i)"
proof -
  have "saturating_add_usize (length ns) (length es) = length ns + length es"
    using assms(2) by (simp add: saturating_add_usize_def)
  then have "path_ids ns es ! i = (if i mod 2 = 0 then node_id (ns ! (i div 2)) else edge_id (es ! (i div 2)))"
    using assms(3) by (simp add: path_ids_def)
  moreover have "i div 2 < length ns" using assms(1,3) by simp
  moreover have "i div 2 < length es" if "i mod 2 \<noteq> 0" using assms(1,3) that by presburger
  ultimately show ?thesis by (simp add: path_id_def slice_index_def)
qed

lemma compare_path_ids_valid:
  assumes "length lns = Suc (length les)" "length lns + length les < usize_limit"
    "length rns = Suc (length res)" "length rns + length res < usize_limit"
  shows "compare_path_ids lns les rns res = Some (slice_cmp cmp (path_ids lns les) (path_ids rns res))"
proof -
  let ?l = "path_ids lns les" and ?r = "path_ids rns res"
  have len: "length ?l = saturating_add_usize (length lns) (length les)"
    "length ?r = saturating_add_usize (length rns) (length res)"
    by (simp_all add: path_ids_def)
  have sat: "saturating_add_usize (length lns) (length les) = length lns + length les"
    "saturating_add_usize (length rns) (length res) = length rns + length res"
    using assms by (simp_all add: saturating_add_usize_def)
  have "find_order (\<lambda>i. case (path_id lns les i, path_id rns res i) of
        (Some a, Some b) \<Rightarrow> Some (cmp a b) | _ \<Rightarrow> None) [0..<min (length ?l) (length ?r)] =
      find_order (\<lambda>(a, b). Some (cmp a b)) (zip ?l ?r)"
    unfolding zip_as_map[of ?l ?r] find_order_map
    by (rule find_order_cong) (auto simp: len sat path_id_valid[OF assms(1,2)] path_id_valid[OF assms(3,4)])
  then show ?thesis
    using find_order_Some[of ?l ?r "\<lambda>(a, b). Some (cmp a b)" cmp]
    by (simp add: compare_path_ids_def len[symmetric])
qed

definition agrees :: "allocator \<Rightarrow> Ordering option \<Rightarrow> ResultValue \<Rightarrow> ResultValue \<Rightarrow> bool" where
  "agrees alloc o' l r \<longleftrightarrow> (\<exists>c. o' = Some c \<and> (\<forall>x y.
     bytes_cmp (order_key alloc l @ x) (order_key alloc r @ y) = then_with c (bytes_cmp x y)))"

lemma agrees_list:
  assumes "keyable alloc (RList ls)" "keyable alloc (RList rs)"
    and "\<And>x y. x \<in> set ls \<Longrightarrow> y \<in> set rs \<Longrightarrow> agrees alloc (c x y) x y"
  shows "agrees alloc (compare_sequences c ls rs) (RList ls) (RList rs)"
proof -
  let ?c = "\<lambda>x y. the (c x y)"
  have c: "c x y = Some (?c x y)" "bytes_cmp (order_key alloc x @ u) (order_key alloc y @ w) = then_with (?c x y) (bytes_cmp u w)"
    if "x \<in> set ls" "y \<in> set rs" for x y u w
    using assms(3)[OF that] by (auto simp: agrees_def)
  have lead: "\<exists>d w. order_key alloc v = d # w \<and> 0 < d" if "v \<in> set ls \<union> set rs" for v
    using that keyable_member[OF assms(1)] keyable_member[OF assms(2)] by (intro key_lead) auto
  have "compare_sequences c ls rs = Some (slice_cmp ?c ls rs)"
    unfolding compare_sequences_def
    by (rule find_order_Some) (auto dest: set_zip_leftD set_zip_rightD intro: c(1))
  moreover have "bytes_cmp (concat (map (order_key alloc) ls) @ 0 # x) (concat (map (order_key alloc) rs) @ 0 # y) =
      then_with (slice_cmp ?c ls rs) (bytes_cmp x y)" for x y
    by (rule bytes_cmp_sequence) (use c(2) lead in auto)
  ultimately show ?thesis by (simp add: agrees_def order_key_list assms)
qed

lemma word_of_nat_cmp: "m < 2 ^ 64 \<Longrightarrow> n < 2 ^ 64 \<Longrightarrow> cmp (word_of_nat m :: u64) (word_of_nat n) = cmp m n"
  by (simp add: cmp_unat[symmetric] unat_of_nat)

lemma agrees_map:
  assumes "keyable alloc (RMap ls)" "keyable alloc (RMap rs)"
    and "\<And>x y. x \<in> snd ` set ls \<Longrightarrow> y \<in> snd ` set rs \<Longrightarrow> agrees alloc (c x y) x y"
  shows "agrees alloc (compare_maps c ls rs) (RMap ls) (RMap rs)"
proof (cases "length ls = length rs")
  case True
  let ?c = "\<lambda>x y. the (c x y)"
  let ?names = "slice_cmp bytes_cmp (map fst ls) (map fst rs)"
  have c: "c x y = Some (?c x y)" "bytes_cmp (order_key alloc x @ u) (order_key alloc y @ w) = then_with (?c x y) (bytes_cmp u w)"
    if "x \<in> set (map snd ls)" "y \<in> set (map snd rs)" for x y u w
    using assms(3)[of x y] that by (auto simp: agrees_def)
  have "find_order (\<lambda>(x, y). c x y) (zip (map snd ls) (map snd rs)) = Some (slice_cmp ?c (map snd ls) (map snd rs))"
    by (rule find_order_same_length) (use True in \<open>auto dest: set_zip_leftD set_zip_rightD intro: c(1)\<close>)
  then have o: "compare_maps c ls rs = Some (then_with ?names (slice_cmp ?c (map snd ls) (map snd rs)))"
    using True by (simp add: compare_maps_def)
  have "bytes_cmp (concat (map (order_key alloc) (map snd ls)) @ x) (concat (map (order_key alloc) (map snd rs)) @ y) =
      then_with (slice_cmp ?c (map snd ls) (map snd rs)) (bytes_cmp x y)" for x y
    by (rule bytes_cmp_same_count) (use True c(2) in auto)
  moreover have "bytes_cmp (concat (map key_name (map fst ls)) @ x) (concat (map key_name (map fst rs)) @ y) =
      then_with ?names (bytes_cmp x y)" for x y
    by (rule bytes_cmp_same_count) (use True key_name.enc_order in auto)
  ultimately show ?thesis
    using True by (simp add: agrees_def o order_key_map assms key_u64.enc_order then_with_assoc del: map_map)
next
  case False
  then have ne: "cmp (length ls) (length rs) \<noteq> Equal" by simp
  then have o: "compare_maps c ls rs = Some (cmp (length ls) (length rs))"
    by (cases "cmp (length ls) (length rs)") (simp_all add: compare_maps_def then_order_def del: cmp_iffs)
  from ne show ?thesis
    using word_of_nat_cmp[OF keyable_map_length[OF assms(1)] keyable_map_length[OF assms(2)]]
    by (cases "cmp (length ls) (length rs)")
      (simp_all only: agrees_def o order_key_map assms append_Cons append_assoc slice_cmp.simps cmp_refl
        then_with.simps key_u64.enc_order, simp_all)
qed

lemma agrees_rank:
  assumes "keyable alloc l" "materialized alloc l = None" "keyable alloc r" "materialized alloc r = None"
    "value_rank l \<noteq> value_rank r"
  shows "agrees alloc (Some (cmp (value_rank l) (value_rank r))) l r"
proof -
  obtain d w where d: "order_key alloc l = d # w" "unat d = value_rank l + 1" using key_tag assms by blast
  obtain e v where e: "order_key alloc r = e # v" "unat e = value_rank r + 1" using key_tag assms by blast
  have "cmp d e = cmp (value_rank l) (value_rank r)"
    unfolding cmp_unat[symmetric] d e by (simp add: cmp_def)
  moreover have "cmp (value_rank l) (value_rank r) \<noteq> Equal" using assms(5) by simp
  ultimately show ?thesis
    by (cases "cmp (value_rank l) (value_rank r)") (simp_all add: agrees_def d e del: cmp_iffs)
qed

lemma agrees_same_rank:
  assumes "ordered_float_law fo" "value_rank l = value_rank r"
    and l: "keyable alloc l" "materialized alloc l = None"
    and r: "keyable alloc r" "materialized alloc r = None"
    and rec: "\<And>x y. member_of x l \<Longrightarrow> member_of y r \<Longrightarrow> agrees alloc (c x y) x y"
  shows "agrees alloc (compare_same_rank c fo l r) l r"
proof (cases l)
  case (RScalar a)
  with assms(2) obtain b where b: "r = RScalar b" by (cases r) (auto simp: value_rank_def)
  have nd: "\<not> is_document a" "\<not> is_document b"
    using RScalar b not_materialized[OF l] not_materialized[OF r] by blast+
  then have "scalar_rank a < 12" "scalar_rank b < 12" by (cases a; simp; fail)(cases b; simp)
  then have "scalar_rank a = scalar_rank b" using assms(2) RScalar b by (simp add: value_rank_def)
  with RScalar b show ?thesis
    using scalar_key_order[OF assms(1) nd] by (simp add: compare_same_rank_def agrees_def)
next
  case (RNode n)
  with assms(2) obtain m where "r = RNode m" by (cases r) (auto simp: value_rank_def)
  with RNode show ?thesis by (simp add: compare_same_rank_def agrees_def order_key_simps key_u64.enc_order)
next
  case (RRelationship n)
  with assms(2) obtain m where "r = RRelationship m" by (cases r) (auto simp: value_rank_def)
  with RRelationship show ?thesis
    by (simp add: compare_same_rank_def agrees_def order_key_simps key_u64.enc_order)
next
  case (RPath ns es)
  with assms(2) obtain ms fs where rr: "r = RPath ms fs" by (cases r) (auto simp: value_rank_def)
  note p = order_key_path[OF l(1)[unfolded RPath]] order_key_path[OF r(1)[unfolded rr]]
  have "bytes_cmp (concat (map key_word (path_ids ns es)) @ 0 # x) (concat (map key_word (path_ids ms fs)) @ 0 # y) =
      then_with (slice_cmp cmp (path_ids ns es) (path_ids ms fs)) (bytes_cmp x y)" for x y
    using key_u64.sequence.enc_order[of "path_ids ns es" "path_ids ms fs" x y] by (simp add: list_all_iff)
  with RPath rr compare_path_ids_valid[OF p(2,3,5,6)] show ?thesis
    by (simp add: compare_same_rank_def agrees_def p(1,4))
next
  case (RVector us)
  with assms(2) obtain vs where rr: "r = RVector vs" by (cases r) (auto simp: value_rank_def)
  have "bytes_cmp (concat (map (key_word \<circ> sortable_f32_bits) us) @ 0 # x)
      (concat (map (key_word \<circ> sortable_f32_bits) vs) @ 0 # y) =
      then_with (slice_cmp f32_total_cmp us vs) (bytes_cmp x y)" for x y
    using key_f32.sequence.enc_order[of us vs x y] by (simp add: list_all_iff)
  moreover have "then_order (find_order (\<lambda>(x, y). Some (f32_total_cmp x y)) (zip us vs))
      (Some (cmp (length us) (length vs))) = Some (slice_cmp f32_total_cmp us vs)"
    by (rule find_order_Some) simp
  ultimately show ?thesis using RVector rr by (simp add: compare_same_rank_def agrees_def order_key_simps)
next
  case (RList vs)
  with assms(2) obtain us where rr: "r = RList us" by (cases r) (auto simp: value_rank_def)
  with RList agrees_list[of alloc vs us c] l r rec show ?thesis by (simp add: compare_same_rank_def)
next
  case (RMap fs)
  with assms(2) obtain gs where rr: "r = RMap gs" by (cases r) (auto simp: value_rank_def)
  with RMap agrees_map[of alloc fs gs c] l r rec show ?thesis by (simp add: compare_same_rank_def)
qed

lemma total_compare_agrees:
  assumes "ordered_float_law fo"
  shows "keyable alloc l \<Longrightarrow> keyable alloc r \<Longrightarrow> agrees alloc (total_compare fo alloc l r) l r"
  using assms
proof (induction fo alloc l r rule: total_compare.induct)
  case (1 fo alloc l r)
  show ?case
  proof (cases "materialized alloc l")
    case (Some m)
    note m = materialized_keyable[OF "1.prems"(1) Some]
    have "agrees alloc (total_compare fo alloc m r) m r" by (rule "1.IH"(3)[OF Some m(1) "1.prems"(2,3)])
    with m Some show ?thesis by (simp add: total_compare.simps[of fo alloc l r] agrees_def)
  next
    case l: None
    show ?thesis
    proof (cases "materialized alloc r")
      case (Some m)
      note m = materialized_keyable[OF "1.prems"(2) Some]
      have "agrees alloc (total_compare fo alloc l m) l m" by (rule "1.IH"(2)[OF l Some "1.prems"(1) m(1) "1.prems"(3)])
      with m l Some show ?thesis by (simp add: total_compare.simps[of fo alloc l r] agrees_def)
    next
      case r: None
      show ?thesis
      proof (cases "value_rank l = value_rank r")
        case True
        have "agrees alloc (compare_same_rank (total_compare fo alloc) fo l r) l r"
        proof (rule agrees_same_rank[OF "1.prems"(3) True "1.prems"(1) l "1.prems"(2) r])
          fix x y assume "member_of x l" "member_of y r"
          then show "agrees alloc (total_compare fo alloc x y) x y"
            using "1.IH"(1)[OF l r] True "1.prems" keyable_member by blast
        qed
        with True l r show ?thesis by (simp add: total_compare.simps[of fo alloc l r])
      next
        case False
        with agrees_rank[OF "1.prems"(1) l "1.prems"(2) r] l r show ?thesis
          by (simp add: total_compare.simps[of fo alloc l r])
      qed
    qed
  qed
qed

subsection \<open>Keys as a codec of values\<close>

lemma ordered_float_law_unique: "ordered_float_law fo \<Longrightarrow> fo = reference_float_order"
  by (intro ext) (simp add: ordered_float_law_def reference_float_order_def)

definition value_order :: "allocator \<Rightarrow> ResultValue \<Rightarrow> ResultValue \<Rightarrow> Ordering" where
  "value_order alloc l r = the (total_compare reference_float_order alloc l r)"

interpretation value_codec: digit_codec "keyable alloc" "order_key alloc" "value_order alloc" for alloc
proof
  fix l r x y
  assume "keyable alloc l" "keyable alloc r"
  from total_compare_agrees[OF reference_float_order_law this]
  show "bytes_cmp (order_key alloc l @ x) (order_key alloc r @ y) =
      then_with (value_order alloc l r) (bytes_cmp x y)"
    by (auto simp: agrees_def value_order_def)
qed (rule key_lead)

lemma total_compare_keyable:
  assumes "ordered_float_law fo" "keyable alloc l" "keyable alloc r"
  shows "total_compare fo alloc l r = Some (value_order alloc l r)"
  using total_compare_agrees[OF assms] ordered_float_law_unique[OF assms(1)]
  by (auto simp: agrees_def value_order_def)

lemma encode_total_order_key_Ok:
  "encode_total_order_key alloc v = Inr k \<Longrightarrow> keyable alloc v \<and> k = order_key alloc v"
  by (auto simp: encode_total_order_key_def and_then_eq_Inr_iff keyable_def order_key_def split: if_splits)

lemma encode_total_order_key_keyable:
  "granting alloc \<Longrightarrow> keyable alloc v \<Longrightarrow> encode_total_order_key alloc v = Inr (order_key alloc v)"
  using keyable_append by (auto simp: encode_total_order_key_def keyable_def granting_def)

lemma length_order_key: "total_order_key_len alloc v = Inr n \<Longrightarrow> length (order_key alloc v) = n"
  using key_len_exact by (fastforce simp: order_key_def)

text \<open>
  C8. Radix keys sort like values. When two values have keys, the total comparison does not panic
  and is the byte order of the keys.
\<close>

theorem order_key_preserves_order:
  assumes "ordered_float_law fo" "encode_total_order_key alloc l = Ok kl"
    "encode_total_order_key alloc r = Ok kr"
  shows "total_compare fo alloc l r = Some (bytes_cmp kl kr)"
  using assms(2,3)[THEN encode_total_order_key_Ok] total_compare_keyable[OF assms(1)]
  by (simp add: value_codec.enc_compare)

theorem order_key_preserves_order_witness:
  "ordered_float_law reference_float_order \<and>
   total_compare reference_float_order (\<lambda>_. True) (RList [RScalar (SBoolean False)])
     (RList [RScalar (SBoolean True), RScalar SNull]) = Some Less"
proof -
  let ?l = "RList [RScalar (SBoolean False)]" and ?r = "RList [RScalar (SBoolean True), RScalar SNull]"
  have "encode_total_order_key (\<lambda>_. True) ?l = Ok [4, 14, 1, 0]"
    "encode_total_order_key (\<lambda>_. True) ?r = Ok [4, 14, 2, 16, 0]" by code_simp+
  from order_key_preserves_order[OF reference_float_order_law this] show ?thesis
    by (simp add: reference_float_order_law cmp_tags)
qed

text \<open>
  C9. Announced length. When memory is granted, a value has a key of \<open>n\<close> bytes exactly when the
  length function announces \<open>n\<close>; the encoder fails exactly when the length function does.
\<close>

theorem order_key_exact_length:
  assumes "granting alloc"
  shows "(\<exists>k. encode_total_order_key alloc v = Ok k \<and> length k = n) \<longleftrightarrow> total_order_key_len alloc v = Ok n"
proof
  assume "\<exists>k. encode_total_order_key alloc v = Ok k \<and> length k = n"
  then obtain k where k: "encode_total_order_key alloc v = Ok k" "length k = n" by blast
  from encode_total_order_key_Ok[OF k(1)] obtain m where m: "total_order_key_len alloc v = Ok m"
    "k = order_key alloc v" unfolding keyable_def by blast
  with length_order_key[OF m(1)] k(2) show "total_order_key_len alloc v = Ok n" by simp
next
  assume n: "total_order_key_len alloc v = Ok n"
  then have "keyable alloc v" by (simp add: keyable_def)
  with encode_total_order_key_keyable[OF assms] length_order_key[OF n]
  show "\<exists>k. encode_total_order_key alloc v = Ok k \<and> length k = n" by blast
qed

theorem order_key_exact_length_witness:
  "\<exists>k. encode_total_order_key (\<lambda>_. True) (RList [RScalar (SString [0])]) = Ok k \<and> length k = 7"
proof -
  have "total_order_key_len (\<lambda>_. True) (RList [RScalar (SString [0])]) = Ok 7" by code_simp
  with order_key_exact_length[of "\<lambda>_. True" "RList [RScalar (SString [0])]" 7] show ?thesis
    by (simp add: granting_def)
qed

text \<open>C10. Keys are prefix-free: no key is a proper prefix of another value's key.\<close>

theorem order_key_prefix_free:
  assumes "encode_total_order_key alloc l = Ok kl" "encode_total_order_key alloc r = Ok kr" "prefix kl kr"
  shows "kl = kr"
  using assms(1,2)[THEN encode_total_order_key_Ok] assms(3) value_codec.prefix_free by blast

theorem order_key_prefix_free_witness:
  "encode_total_order_key (\<lambda>_. True) (RList []) =
     encode_total_order_key (\<lambda>_. True) (RScalar (SList [3, 13, 0, 0, 0, 0, 0, 0, 0, 0]))"
proof -
  have "encode_total_order_key (\<lambda>_. True) (RList []) = Ok [4, 0]"
    "encode_total_order_key (\<lambda>_. True) (RScalar (SList [3, 13, 0, 0, 0, 0, 0, 0, 0, 0])) = Ok [4, 0]"
    by code_simp+
  with order_key_prefix_free[OF this] show ?thesis by simp
qed

text \<open>
  C11. A total preorder. On values that have keys the comparison is reflexive, antisymmetric up to
  \<open>Equal\<close>, and transitive, so \<open>ORDER BY\<close> and grouping are well defined.
\<close>

theorem total_compare_preorder:
  assumes "ordered_float_law fo" "\<forall>v \<in> {x, y, z}. \<exists>k. encode_total_order_key alloc v = Ok k"
  shows "total_compare fo alloc x x = Some Equal \<and>
    total_compare fo alloc y x = map_option reverse_ordering (total_compare fo alloc x y) \<and>
    (total_compare fo alloc x y = Some Less \<and> total_compare fo alloc y z = Some Less \<longrightarrow>
       total_compare fo alloc x z = Some Less) \<and>
    (total_compare fo alloc x y = Some Equal \<longrightarrow>
       total_compare fo alloc x z = total_compare fo alloc y z)"
proof -
  have k: "keyable alloc x" "keyable alloc y" "keyable alloc z"
    using assms(2) encode_total_order_key_Ok by blast+
  note [simp] = total_compare_keyable[OF assms(1)] k
  show ?thesis
    using value_codec.ord_refl[OF k(1)] value_codec.ord_flip[OF k(1,2)]
      value_codec.ord_Less_trans[OF k] value_codec.ord_Equal_cong[OF k] by simp
qed

theorem total_compare_preorder_witness:
  "total_compare reference_float_order (\<lambda>_. True) (RScalar SNull) (RScalar SNull) = Some Equal"
proof -
  have "encode_total_order_key (\<lambda>_. True) (RScalar SNull) = Ok [16]" by code_simp
  with total_compare_preorder[OF reference_float_order_law,
      of "RScalar SNull" "RScalar SNull" "RScalar SNull" "\<lambda>_. True"]
  show ?thesis by blast
qed

text \<open>
  Appending a key to a column leaves the earlier bytes in place, adds exactly
  the key the stand-alone encoder produces, and reports its length.
\<close>

theorem append_total_order_key_appends:
  assumes "granting alloc"
  shows "append_total_order_key alloc out v =
    and_then (encode_total_order_key alloc v) (\<lambda>k. Ok (out @ k, length k))"
proof (cases "total_order_key_len alloc v")
  case (Inr n)
  then have "keyable alloc v" by (simp add: keyable_def)
  with Inr assms length_order_key[OF Inr] show ?thesis
    by (simp add: append_total_order_key_def encode_total_order_key_def granting_def
        append_value_shift[of alloc out] keyable_append)
qed (simp add: append_total_order_key_def encode_total_order_key_def)

theorem append_total_order_key_appends_witness:
  "append_total_order_key (\<lambda>_. True) [9] (RScalar SNull) = Ok ([9, 16], 1)"
proof -
  have "encode_total_order_key (\<lambda>_. True) (RScalar SNull) = Ok [16]" by code_simp
  with append_total_order_key_appends[of "\<lambda>_. True" "[9]" "RScalar SNull"] show ?thesis
    by (simp add: granting_def)
qed

end
