(* ===== verification/Cypher_Value.thy ===== *)
theory Cypher_Value
  imports Order_Key
begin

text \<open>
  Cypher value semantics, \<^verbatim>\<open>crates/cypher/src/value.rs\<close>: three-valued truth, equality with
  nulls, list membership and the four ordering predicates.
\<close>

subsection \<open>Three-valued truth\<close>

datatype Truth = TFalse | TTrue | TUnknown

definition into_value :: "Truth \<Rightarrow> ResultValue" where
  "into_value t = (case t of
       TFalse \<Rightarrow> RScalar (SBoolean False)
     | TTrue \<Rightarrow> RScalar (SBoolean True)
     | TUnknown \<Rightarrow> RScalar SNull)"

fun truth_not :: "Truth \<Rightarrow> Truth" where
  "truth_not TFalse = TTrue"
| "truth_not TTrue = TFalse"
| "truth_not TUnknown = TUnknown"

definition truth_and :: "Truth \<Rightarrow> Truth \<Rightarrow> Truth" where
  "truth_and a b = (if a = TFalse \<or> b = TFalse then TFalse
     else if a = TTrue \<and> b = TTrue then TTrue else TUnknown)"

definition truth_or :: "Truth \<Rightarrow> Truth \<Rightarrow> Truth" where
  "truth_or a b = (if a = TTrue \<or> b = TTrue then TTrue
     else if a = TFalse \<and> b = TFalse then TFalse else TUnknown)"

definition truth_xor :: "Truth \<Rightarrow> Truth \<Rightarrow> Truth" where
  "truth_xor a b = (if a = TUnknown \<or> b = TUnknown then TUnknown
     else if a = b then TFalse else TTrue)"

definition bool_truth :: "bool \<Rightarrow> Truth" where
  "bool_truth b = (if b then TTrue else TFalse)"

definition truth :: "ResultValue \<Rightarrow> Truth result" where
  "truth v = (case v of
       RScalar (SBoolean b) \<Rightarrow> Ok (if b then TTrue else TFalse)
     | RScalar SNull \<Rightarrow> Ok TUnknown
     | _ \<Rightarrow> Err (new_error QueryType ''predicate expression must be BOOLEAN or NULL''))"

definition is_null :: "ResultValue \<Rightarrow> bool" where
  "is_null v = (v = RScalar SNull)"

subsection \<open>Equality\<close>

definition vector_equal :: "f32 list \<Rightarrow> f32 list \<Rightarrow> bool" where
  "vector_equal l r = (length l = length r \<and> list_all (\<lambda>(a, b). a = b) (zip l r))"

definition scalar_family :: "ScalarValue \<Rightarrow> nat" where
  "scalar_family v = (case v of
       SInteger _ \<Rightarrow> 0
     | SFloat _ \<Rightarrow> 0
     | SBoolean _ \<Rightarrow> 1
     | SString _ \<Rightarrow> 2
     | SBytes _ \<Rightarrow> 3
     | SDate _ \<Rightarrow> 4
     | SLocalTime _ \<Rightarrow> 5
     | SZonedTime _ _ \<Rightarrow> 6
     | SLocalDateTime _ _ \<Rightarrow> 7
     | SZonedDateTime _ _ _ \<Rightarrow> 8
     | SDuration _ _ _ _ \<Rightarrow> 9
     | SNull \<Rightarrow> 10
     | SList _ \<Rightarrow> 11
     | SMap _ \<Rightarrow> 12)"

definition scalar_is_nan :: "ScalarValue \<Rightarrow> bool" where
  "scalar_is_nan v = (case v of SFloat f \<Rightarrow> f64_is_nan f | _ \<Rightarrow> False)"

text \<open>The derived \<open>PartialEq\<close>; \<open>OrderedFloat\<close> equality is its order's \<open>Equal\<close>.\<close>

definition scalar_eq :: "float_order \<Rightarrow> ScalarValue \<Rightarrow> ScalarValue \<Rightarrow> bool" where
  "scalar_eq fo l r = (case (l, r) of (SFloat a, SFloat b) \<Rightarrow> fo a b = Equal | _ \<Rightarrow> l = r)"

definition properties_eq :: "float_order \<Rightarrow> ScalarValue btree_map \<Rightarrow> ScalarValue btree_map \<Rightarrow> bool" where
  "properties_eq fo l r = list_all2 (\<lambda>(k, v) (k', v'). k = k' \<and> scalar_eq fo v v') l r"

definition node_eq :: "float_order \<Rightarrow> ResultNode \<Rightarrow> ResultNode \<Rightarrow> bool" where
  "node_eq fo a b = (node_id a = node_id b \<and> node_layer a = node_layer b \<and>
     node_revision a = node_revision b \<and> node_labels a = node_labels b \<and>
     properties_eq fo (node_properties a) (node_properties b))"

definition edge_eq :: "float_order \<Rightarrow> ResultEdge \<Rightarrow> ResultEdge \<Rightarrow> bool" where
  "edge_eq fo a b = (edge_id a = edge_id b \<and> edge_source a = edge_source b \<and>
     edge_target a = edge_target b \<and> edge_relationship_type a = edge_relationship_type b \<and>
     edge_layer a = edge_layer b \<and> edge_revision a = edge_revision b \<and>
     properties_eq fo (edge_properties a) (edge_properties b))"

text \<open>The loop shared by \<open>sequence_equal\<close> and \<open>map_equal\<close>: conjunction that stops at false.\<close>

fun equal_pairs :: "('a \<Rightarrow> 'a \<Rightarrow> Truth result) \<Rightarrow> Truth \<Rightarrow> ('a \<times> 'a) list \<Rightarrow> Truth result" where
  "equal_pairs c acc [] = Ok acc"
| "equal_pairs c acc ((x, y) # ps) =
     and_then (c x y) (\<lambda>t.
       let acc = truth_and acc t in if acc = TFalse then Ok acc else equal_pairs c acc ps)"

definition sequence_equal ::
  "(ResultValue \<Rightarrow> ResultValue \<Rightarrow> Truth result) \<Rightarrow> ResultValue list \<Rightarrow> ResultValue list \<Rightarrow> Truth result" where
  "sequence_equal c l r =
     (if length l \<noteq> length r then Ok TFalse else equal_pairs c TTrue (zip l r))"

definition map_equal ::
  "(ResultValue \<Rightarrow> ResultValue \<Rightarrow> Truth result) \<Rightarrow> ResultValue btree_map \<Rightarrow>
   ResultValue btree_map \<Rightarrow> Truth result" where
  "map_equal c l r =
     (if length l \<noteq> length r \<or> map fst l \<noteq> map fst r then Ok TFalse
      else equal_pairs c TTrue (zip (map snd l) (map snd r)))"

fun path_list_loop :: "ResultNode list \<Rightarrow> ResultEdge list \<Rightarrow> nat \<Rightarrow> ResultValue list \<Rightarrow> Truth" where
  "path_list_loop ns es i [] = TTrue"
| "path_list_loop ns es i (v # vs) =
     (if i mod 2 = 0 then
        (case slice_index ns (i div 2) of
           None \<Rightarrow> TFalse
         | Some n \<Rightarrow> (case v of
             RNode m \<Rightarrow> if node_id m = node_id n then path_list_loop ns es (Suc i) vs else TFalse
           | _ \<Rightarrow> TFalse))
      else
        (case slice_index es (i div 2) of
           None \<Rightarrow> TFalse
         | Some e \<Rightarrow> (case v of
             RRelationship f \<Rightarrow> if edge_id f = edge_id e then path_list_loop ns es (Suc i) vs else TFalse
           | _ \<Rightarrow> TFalse)))"

definition path_list_equal :: "ResultNode list \<Rightarrow> ResultEdge list \<Rightarrow> ResultValue list \<Rightarrow> Truth" where
  "path_list_equal ns es vs =
     (if length vs \<noteq> saturating_add_usize (length ns) (length es) \<or>
         length ns \<noteq> saturating_add_usize (length es) 1 then TFalse
      else path_list_loop ns es 0 vs)"

text \<open>The match on two materialised non-null values, with the recursive equality as an argument.\<close>

definition equal_values ::
  "(ResultValue \<Rightarrow> ResultValue \<Rightarrow> Truth result) \<Rightarrow> float_order \<Rightarrow> ResultValue \<Rightarrow>
   ResultValue \<Rightarrow> Truth result" where
  "equal_values c fo l r = (case (l, r) of
       (RScalar a, RScalar b) \<Rightarrow> (case (a, b) of
           (SInteger i, SFloat f) \<Rightarrow> Ok (bool_truth (\<not> f64_is_nan f \<and> compare_i64_f64 i f = Equal))
         | (SFloat f, SInteger i) \<Rightarrow> Ok (bool_truth (\<not> f64_is_nan f \<and> compare_i64_f64 i f = Equal))
         | _ \<Rightarrow>
            if scalar_family a \<noteq> scalar_family b then Ok TFalse
            else Ok (if scalar_is_nan a \<or> scalar_is_nan b then TFalse
                     else if scalar_eq fo a b then TTrue else TFalse))
     | (RNode a, RNode b) \<Rightarrow> Ok (bool_truth (node_id a = node_id b))
     | (RRelationship a, RRelationship b) \<Rightarrow> Ok (bool_truth (edge_id a = edge_id b))
     | (RPath ns es, RPath ms fs) \<Rightarrow> Ok (bool_truth (list_all2 (node_eq fo) ns ms \<and> list_all2 (edge_eq fo) es fs))
     | (RVector a, RVector b) \<Rightarrow> Ok (bool_truth (vector_equal a b))
     | (RList a, RList b) \<Rightarrow> sequence_equal c a b
     | (RMap a, RMap b) \<Rightarrow> map_equal c a b
     | (RPath ns es, RList vs) \<Rightarrow> Ok (path_list_equal ns es vs)
     | (RList vs, RPath ns es) \<Rightarrow> Ok (path_list_equal ns es vs)
     | _ \<Rightarrow> Ok TFalse)"

definition document_of :: "allocator \<Rightarrow> ResultValue \<Rightarrow> ResultValue result option" where
  "document_of alloc v = (case v of
       RScalar s \<Rightarrow> if is_document s then Some (from_property alloc s) else None
     | _ \<Rightarrow> None)"

lemma document_of_docs: "document_of alloc v = Some (Inr m) \<Longrightarrow> value_docs m < value_docs v"
  using materialised_no_docs(1)[of alloc]
  by (auto simp: document_of_def split: ResultValue.splits if_splits)

lemma equal_pairs_cong [fundef_cong]:
  "ps = qs \<Longrightarrow> acc = acc' \<Longrightarrow> (\<And>x y. (x, y) \<in> set qs \<Longrightarrow> c x y = d x y) \<Longrightarrow>
   equal_pairs c acc ps = equal_pairs d acc' qs"
proof -
  have "(\<And>x y. (x, y) \<in> set qs \<Longrightarrow> c x y = d x y) \<Longrightarrow> equal_pairs c acc' qs = equal_pairs d acc' qs"
    by (induction c acc' qs rule: equal_pairs.induct) (auto simp: Let_def intro!: and_then_cong)
  then show "ps = qs \<Longrightarrow> acc = acc' \<Longrightarrow> (\<And>x y. (x, y) \<in> set qs \<Longrightarrow> c x y = d x y) \<Longrightarrow>
   equal_pairs c acc ps = equal_pairs d acc' qs" by simp
qed

lemma equal_values_cong [fundef_cong]:
  assumes "l = l'" "r = r'" "fo = fo'"
    and eq: "\<And>x y. member_of x l' \<Longrightarrow> member_of y r' \<Longrightarrow> c x y = d x y"
  shows "equal_values c fo l r = equal_values d fo' l' r'"
proof -
  have seq: "equal_pairs c acc (zip ls rs) = equal_pairs d acc (zip ls rs)"
    if "\<And>x y. x \<in> set ls \<Longrightarrow> y \<in> set rs \<Longrightarrow> c x y = d x y" for ls rs acc
    using that by (intro equal_pairs_cong) (auto dest: set_zip_leftD set_zip_rightD)
  have "equal_pairs c TTrue (zip (map snd fs) (map snd gs)) = equal_pairs d TTrue (zip (map snd fs) (map snd gs))"
    if "l' = RMap fs" "r' = RMap gs" for fs gs
    by (rule seq) (use eq that in auto)
  with eq seq show ?thesis
    unfolding assms(1-3) equal_values_def
    by (cases l'; cases r') (simp_all add: sequence_equal_def map_equal_def)
qed

function equal :: "float_order \<Rightarrow> allocator \<Rightarrow> ResultValue \<Rightarrow> ResultValue \<Rightarrow> Truth result" where
  "equal fo alloc l r =
     (case document_of alloc l of
        Some m \<Rightarrow> and_then m (\<lambda>m. equal fo alloc m r)
      | None \<Rightarrow> (case document_of alloc r of
          Some m \<Rightarrow> and_then m (\<lambda>m. equal fo alloc l m)
        | None \<Rightarrow>
            if is_null l \<or> is_null r then Ok TUnknown
            else equal_values (\<lambda>x y. equal fo alloc x y) fo l r))"
  by pat_completeness auto
termination
  by (relation "measures [\<lambda>(fo, alloc, l, r). value_docs l + value_docs r,
      \<lambda>(fo, alloc, l, r). size l + size r]")
    (auto dest!: document_of_docs member_of_smaller)

declare equal.simps [simp del]

fun contains_loop :: "(ResultValue \<Rightarrow> Truth result) \<Rightarrow> bool \<Rightarrow> ResultValue list \<Rightarrow> Truth result" where
  "contains_loop c unknown [] = Ok (if unknown then TUnknown else TFalse)"
| "contains_loop c unknown (v # vs) =
     and_then (c v) (\<lambda>t. case t of
         TTrue \<Rightarrow> Ok TTrue
       | TUnknown \<Rightarrow> contains_loop c True vs
       | TFalse \<Rightarrow> contains_loop c unknown vs)"

definition list_contains ::
  "float_order \<Rightarrow> allocator \<Rightarrow> ResultValue list \<Rightarrow> ResultValue \<Rightarrow> Truth result" where
  "list_contains fo alloc vs needle =
     (if vs = [] then Ok TFalse else contains_loop (equal fo alloc needle) False vs)"

subsection \<open>Ordering predicates\<close>

datatype BinaryOperator =
    OpOr | OpXor | OpAnd | OpEqual | OpNotEqual | OpLess | OpLessOrEqual | OpGreater | OpGreaterOrEqual
  | OpIn | OpStartsWith | OpEndsWith | OpContains | OpRegexMatch | OpConcat | OpAdd | OpSubtract
  | OpMultiply | OpDivide | OpModulo | OpPower

datatype PartialComparison = Ordered Ordering | PUnknown | PUnordered

definition incomparable :: "string \<Rightarrow> string \<Rightarrow> string \<Rightarrow> Error" where
  "incomparable operation l r =
     new_error QueryType (operation @ '' is not defined between '' @ l @ '' and '' @ r)"

definition compare_same_family ::
  "float_order \<Rightarrow> ScalarValue \<Rightarrow> ScalarValue \<Rightarrow> Ordering option result" where
  "compare_same_family fo left right = (case (left, right) of
       (SBoolean l, SBoolean r) \<Rightarrow> Ok (Some (cmp l r))
     | (SInteger l, SInteger r) \<Rightarrow> Ok (Some (scmp l r))
     | (SFloat l, SFloat r) \<Rightarrow> Ok (Some (fo l r))
     | (SString l, SString r) \<Rightarrow> Ok (Some (bytes_cmp l r))
     | (SDate l, SDate r) \<Rightarrow> Ok (Some (scmp l r))
     | (SLocalTime l, SLocalTime r) \<Rightarrow> Ok (Some (scmp l r))
     | (SZonedTime l lo, SZonedTime r ro) \<Rightarrow>
         Ok (Some (then_with (scmp (normalized_zoned_time l lo) (normalized_zoned_time r ro)) (scmp lo ro)))
     | (SLocalDateTime l lnanos, SLocalDateTime r rnanos) \<Rightarrow>
         Ok (Some (then_with (scmp l r) (cmp lnanos rnanos)))
     | (SZonedDateTime l lnanos lz, SZonedDateTime r rnanos rz) \<Rightarrow>
         Ok (Some (then_with (scmp l r) (then_with (cmp lnanos rnanos) (bytes_cmp lz rz))))
     | (SDuration _ _ _ _, SDuration _ _ _ _) \<Rightarrow> Ok None
     | _ \<Rightarrow> Err (incomparable ''ordering'' (type_name left) (type_name right)))"

fun compare_pairs ::
  "('a \<Rightarrow> 'a \<Rightarrow> PartialComparison result) \<Rightarrow> Ordering \<Rightarrow> ('a \<times> 'a) list \<Rightarrow> PartialComparison result" where
  "compare_pairs c lengths [] = Ok (Ordered lengths)"
| "compare_pairs c lengths ((x, y) # ps) =
     and_then (c x y) (\<lambda>p. if p = Ordered Equal then compare_pairs c lengths ps else Ok p)"

definition compare_lists ::
  "(ResultValue \<Rightarrow> ResultValue \<Rightarrow> PartialComparison result) \<Rightarrow> ResultValue list \<Rightarrow>
   ResultValue list \<Rightarrow> PartialComparison result" where
  "compare_lists c l r = compare_pairs c (cmp (length l) (length r)) (zip l r)"

definition partial_values ::
  "(ResultValue \<Rightarrow> ResultValue \<Rightarrow> PartialComparison result) \<Rightarrow> float_order \<Rightarrow> ResultValue \<Rightarrow>
   ResultValue \<Rightarrow> PartialComparison result" where
  "partial_values c fo l r = (case (l, r) of
       (RScalar a, RScalar b) \<Rightarrow> (case (a, b) of
           (SInteger i, SFloat f) \<Rightarrow>
             Ok (if f64_is_nan f then PUnordered else Ordered (compare_i64_f64 i f))
         | (SFloat f, SInteger i) \<Rightarrow>
             Ok (if f64_is_nan f then PUnordered else Ordered (reverse_ordering (compare_i64_f64 i f)))
         | _ \<Rightarrow>
            if scalar_family a \<noteq> scalar_family b then Ok PUnknown
            else if scalar_is_nan a \<or> scalar_is_nan b then Ok PUnordered
            else Ok (case compare_same_family fo a b of
                Inr (Some o') \<Rightarrow> Ordered o'
              | _ \<Rightarrow> PUnknown))
     | (RList a, RList b) \<Rightarrow> compare_lists c a b
     | _ \<Rightarrow> Ok PUnknown)"

lemma compare_pairs_cong [fundef_cong]:
  "ps = qs \<Longrightarrow> k = k' \<Longrightarrow> (\<And>x y. (x, y) \<in> set qs \<Longrightarrow> c x y = d x y) \<Longrightarrow>
   compare_pairs c k ps = compare_pairs d k' qs"
proof -
  have "(\<And>x y. (x, y) \<in> set qs \<Longrightarrow> c x y = d x y) \<Longrightarrow> compare_pairs c k' qs = compare_pairs d k' qs"
    by (induction c k' qs rule: compare_pairs.induct) (auto intro!: and_then_cong)
  then show "ps = qs \<Longrightarrow> k = k' \<Longrightarrow> (\<And>x y. (x, y) \<in> set qs \<Longrightarrow> c x y = d x y) \<Longrightarrow>
   compare_pairs c k ps = compare_pairs d k' qs" by simp
qed

lemma partial_values_cong [fundef_cong]:
  assumes "l = l'" "r = r'" "fo = fo'"
    and eq: "\<And>x y. member_of x l' \<Longrightarrow> member_of y r' \<Longrightarrow> c x y = d x y"
  shows "partial_values c fo l r = partial_values d fo' l' r'"
proof -
  have "compare_pairs c k (zip ls rs) = compare_pairs d k (zip ls rs)"
    if "\<And>x y. x \<in> set ls \<Longrightarrow> y \<in> set rs \<Longrightarrow> c x y = d x y" for ls rs k
    using that by (intro compare_pairs_cong) (auto dest: set_zip_leftD set_zip_rightD)
  with eq show ?thesis
    unfolding assms(1-3) partial_values_def
    by (cases l'; cases r') (simp_all add: compare_lists_def)
qed

function partial_compare ::
  "float_order \<Rightarrow> allocator \<Rightarrow> ResultValue \<Rightarrow> ResultValue \<Rightarrow> PartialComparison result" where
  "partial_compare fo alloc l r =
     (case document_of alloc l of
        Some m \<Rightarrow> and_then m (\<lambda>m. partial_compare fo alloc m r)
      | None \<Rightarrow> (case document_of alloc r of
          Some m \<Rightarrow> and_then m (\<lambda>m. partial_compare fo alloc l m)
        | None \<Rightarrow>
            if is_null l \<or> is_null r then Ok PUnknown
            else partial_values (\<lambda>x y. partial_compare fo alloc x y) fo l r))"
  by pat_completeness auto
termination
  by (relation "measures [\<lambda>(fo, alloc, l, r). value_docs l + value_docs r,
      \<lambda>(fo, alloc, l, r). size l + size r]")
    (auto dest!: document_of_docs member_of_smaller)

declare partial_compare.simps [simp del]

definition compare_predicate ::
  "float_order \<Rightarrow> allocator \<Rightarrow> ResultValue \<Rightarrow> ResultValue \<Rightarrow> BinaryOperator \<Rightarrow> Truth result" where
  "compare_predicate fo alloc l r operation =
     and_then (partial_compare fo alloc l r) (\<lambda>p. case p of
         PUnknown \<Rightarrow> Ok TUnknown
       | PUnordered \<Rightarrow> Ok TFalse
       | Ordered o' \<Rightarrow> (case operation of
           OpLess \<Rightarrow> Ok (bool_truth (o' = Less))
         | OpLessOrEqual \<Rightarrow> Ok (bool_truth (o' \<noteq> Greater))
         | OpGreater \<Rightarrow> Ok (bool_truth (o' = Greater))
         | OpGreaterOrEqual \<Rightarrow> Ok (bool_truth (o' \<noteq> Less))
         | _ \<Rightarrow> Err (new_error Internal ''comparison predicate requires an ordering operator'')))"

subsection \<open>Predicates agree with the total order\<close>

lemma compare_pairs_find_order:
  assumes "compare_pairs c k ps = Inr (Ordered o')"
    and "\<And>x y q. (x, y) \<in> set ps \<Longrightarrow> c x y = Inr (Ordered q) \<Longrightarrow> f (x, y) = Some q"
  shows "then_order (find_order f ps) (Some k) = Some o'"
  using assms
proof (induction c k ps rule: compare_pairs.induct)
  case (2 c k x y ps)
  then obtain p where p: "c x y = Inr p" by (auto simp: and_then_eq_Inr_iff)
  show ?case
  proof (cases "p = Ordered Equal")
    case True
    with 2 p show ?thesis by (simp add: then_order_def)
  next
    case False
    with 2 p have "p = Ordered o'" "o' \<noteq> Equal" by auto
    with 2(3)[of x y o'] p show ?thesis by (cases o') (simp_all add: then_order_def)
  qed
qed (simp add: then_order_def)

lemma same_family_total:
  assumes "compare_same_family fo a b = Inr (Some o')"
  shows "total_compare_scalar fo a b = o'" "scalar_rank a = scalar_rank b"
  using assms
  by (auto simp: compare_same_family_def total_compare_scalar_def compare_same_scalar_def
      split: ScalarValue.splits)

lemma document_of_materialized:
  "document_of alloc v = Some (Inr m) \<Longrightarrow> materialized alloc v = Some m"
  "document_of alloc v = None \<Longrightarrow> materialized alloc v = None"
  by (auto simp: document_of_def materialized_def split: ResultValue.splits if_splits)

lemma partial_values_total:
  assumes "partial_values c fo l r = Inr (Ordered o')"
    and "\<And>x y q. member_of x l \<Longrightarrow> member_of y r \<Longrightarrow> c x y = Inr (Ordered q) \<Longrightarrow> d x y = Some q"
  shows "value_rank l = value_rank r \<and> compare_same_rank d fo l r = Some o'"
proof (cases l)
  case (RScalar a)
  with assms(1) obtain b where b: "r = RScalar b" by (cases r) (auto simp: partial_values_def)
  consider i f where "a = SInteger i" "b = SFloat f" | i f where "a = SFloat f" "b = SInteger i"
    | "compare_same_family fo a b = Inr (Some o')"
    using assms(1) RScalar b
    by (fastforce simp: partial_values_def split: ScalarValue.splits if_splits sum.splits option.splits)
  then show ?thesis
  proof cases
    case 3
    with same_family_total[OF 3] RScalar b show ?thesis by (simp add: value_rank_def compare_same_rank_def)
  qed (use assms(1) RScalar b in \<open>auto simp: partial_values_def value_rank_def scalar_rank_def
      compare_same_rank_def total_compare_scalar_def split: if_splits\<close>)
next
  case (RList vs)
  with assms(1) obtain us where us: "r = RList us" by (cases r) (auto simp: partial_values_def)
  have "then_order (find_order (\<lambda>(x, y). d x y) (zip vs us)) (Some (cmp (length vs) (length us))) = Some o'"
    by (rule compare_pairs_find_order[of c])
      (use assms RList us in \<open>auto simp: partial_values_def compare_lists_def elim!: in_set_zipE\<close>)
  with RList us show ?thesis by (simp add: value_rank_def compare_same_rank_def compare_sequences_def)
qed (use assms(1) in \<open>auto simp: partial_values_def\<close>)

lemma partial_compare_total:
  "partial_compare fo alloc l r = Inr (Ordered o') \<Longrightarrow> total_compare fo alloc l r = Some o'"
proof (induction fo alloc l r arbitrary: o' rule: partial_compare.induct)
  case (1 fo alloc l r)
  note ps = partial_compare.simps[of fo alloc l r] and ts = total_compare.simps[of fo alloc l r]
  show ?case
  proof (cases "document_of alloc l")
    case (Some d)
    then obtain m where m: "d = Inr m" "partial_compare fo alloc m r = Inr (Ordered o')"
      using "1.prems" by (auto simp: ps and_then_eq_Inr_iff)
    with "1.IH"(3)[OF Some m(1)] Some show ?thesis by (simp add: ts document_of_materialized(1))
  next
    case l: None
    show ?thesis
    proof (cases "document_of alloc r")
      case (Some d)
      then obtain m where m: "d = Inr m" "partial_compare fo alloc l m = Inr (Ordered o')"
        using "1.prems" l by (auto simp: ps and_then_eq_Inr_iff)
      with "1.IH"(2)[OF l Some m(1)] Some l show ?thesis by (simp add: ts document_of_materialized)
    next
      case r: None
      then have nn: "\<not> (is_null l \<or> is_null r)" and pv: "partial_values (partial_compare fo alloc) fo l r = Inr (Ordered o')"
        using "1.prems" l by (auto simp: ps split: if_splits)
      from partial_values_total[OF pv, of "total_compare fo alloc"] "1.IH"(1)[OF l r nn]
      show ?thesis using l r by (simp add: ts document_of_materialized)
    qed
  qed
qed

subsection \<open>Symmetry\<close>

lemma flips:
  "reverse_ordering (cmp x y) = cmp y x"
  "reverse_ordering (scmp u v) = scmp v u"
  "reverse_ordering (bytes_cmp bs cs) = bytes_cmp cs bs"
  "ordered_float_law fo \<Longrightarrow> reverse_ordering (fo f g) = fo g f"
  by (metis cmp_flip, metis cmp_flip scmp_def, metis cmp_flip slice_cmp_flip, metis cmp_flip cmp_ordered_float)

fun reverse_partial :: "PartialComparison \<Rightarrow> PartialComparison" where
  "reverse_partial (Ordered o') = Ordered (reverse_ordering o')"
| "reverse_partial p = p"

lemma reverse_partial_Ordered [simp]:
  "reverse_partial p = Ordered o' \<longleftrightarrow> p = Ordered (reverse_ordering o')"
  by (cases p) auto

lemma same_family_flip:
  assumes "ordered_float_law fo" "compare_same_family fo a b = Inr p"
  shows "compare_same_family fo b a = Inr (map_option reverse_ordering p)"
  using assms(2) unfolding compare_same_family_def
  by (cases a; cases b) (auto simp: reverse_then_with flips assms(1))

lemma document_of_plain: "value_docs v = 0 \<Longrightarrow> document_of alloc v = None"
  by (auto simp: document_of_def split: ResultValue.splits if_splits)

lemma document_of_result: "document_of alloc v = Some (Inr m) \<Longrightarrow> document_of alloc m = None"
  using materialised_no_docs(1)[of alloc]
  by (intro document_of_plain) (auto simp: document_of_def split: ResultValue.splits if_splits)

lemma partial_compare_right_document:
  assumes "document_of alloc l = Some (Inr m)"
  shows "partial_compare fo alloc r l = partial_compare fo alloc r m"
proof -
  have n: "partial_compare fo alloc n l = partial_compare fo alloc n m" if "document_of alloc n = None" for n
    using assms that by (subst partial_compare.simps) simp
  show ?thesis
  proof (cases "document_of alloc r")
    case (Some d)
    then show ?thesis
      using n document_of_result[of alloc r]
      by (cases d) (simp_all add: partial_compare.simps[of fo alloc r])
  qed (rule n)
qed

lemma compare_pairs_flip:
  assumes "compare_pairs c k ps = Inr p"
    and "\<And>x y q. (x, y) \<in> set ps \<Longrightarrow> c x y = Inr q \<Longrightarrow> c y x = Inr (reverse_partial q)"
  shows "compare_pairs c (reverse_ordering k) (map (\<lambda>(x, y). (y, x)) ps) = Inr (reverse_partial p)"
  using assms
proof (induction c k ps rule: compare_pairs.induct)
  case (2 c k x y ps)
  then obtain q where q: "c x y = Inr q" by (auto simp: and_then_eq_Inr_iff)
  with 2 have yx: "c y x = Inr (reverse_partial q)" by simp
  show ?case
  proof (cases "q = Ordered Equal")
    case True
    with 2 q yx show ?thesis by simp
  next
    case False
    with "2.prems"(1) q yx show ?thesis by (cases q) auto
  qed
qed auto

lemma zip_flip: "map (\<lambda>(x, y). (y, x)) (zip l r) = zip r l"
  by (induction l r rule: list_induct2') auto

definition mixed_numbers :: "ScalarValue \<Rightarrow> ScalarValue \<Rightarrow> bool" where
  "mixed_numbers a b = (case (a, b) of (SInteger _, SFloat _) \<Rightarrow> True | (SFloat _, SInteger _) \<Rightarrow> True | _ \<Rightarrow> False)"

lemma mixed_numbers_cases:
  "mixed_numbers a b \<Longrightarrow> \<exists>i f. a = SInteger i \<and> b = SFloat f \<or> a = SFloat f \<and> b = SInteger i"
  by (auto simp: mixed_numbers_def split: ScalarValue.splits)

lemma mixed_numbers_sym: "mixed_numbers a b = mixed_numbers b a"
  by (auto simp: mixed_numbers_def split: ScalarValue.splits)

definition family_comparison :: "float_order \<Rightarrow> ScalarValue \<Rightarrow> ScalarValue \<Rightarrow> PartialComparison" where
  "family_comparison fo a b =
     (case compare_same_family fo a b of Inr (Some o') \<Rightarrow> Ordered o' | _ \<Rightarrow> PUnknown)"

lemma partial_values_same_kind:
  "\<not> mixed_numbers a b \<Longrightarrow> partial_values c fo (RScalar a) (RScalar b) =
     (if scalar_family a \<noteq> scalar_family b then Ok PUnknown
      else if scalar_is_nan a \<or> scalar_is_nan b then Ok PUnordered
      else Ok (family_comparison fo a b))"
  by (auto simp: partial_values_def mixed_numbers_def family_comparison_def split: ScalarValue.splits)

lemma family_comparison_flip:
  assumes "ordered_float_law fo"
  shows "family_comparison fo b a = reverse_partial (family_comparison fo a b)"
proof (cases "compare_same_family fo a b")
  case (Inr p)
  with same_family_flip[OF assms Inr] show ?thesis by (cases p) (simp_all add: family_comparison_def)
next
  case (Inl e)
  then have "\<exists>e. compare_same_family fo b a = Inl e"
    using same_family_flip[OF assms, of b a] by (cases "compare_same_family fo b a") auto
  with Inl show ?thesis by (auto simp: family_comparison_def)
qed

lemma scalar_partial_flip:
  assumes "ordered_float_law fo" "partial_values c fo (RScalar a) (RScalar b) = Inr p"
  shows "partial_values c fo (RScalar b) (RScalar a) = Inr (reverse_partial p)"
proof (cases "mixed_numbers a b")
  case True
  with assms(2) mixed_numbers_cases[OF True] show ?thesis by (auto simp: partial_values_def split: if_splits)
next
  case False
  with assms(2) mixed_numbers_sym[of a b] family_comparison_flip[OF assms(1), of b a] show ?thesis
    by (auto simp: partial_values_same_kind split: if_splits)
qed

lemma partial_values_flip:
  assumes "ordered_float_law fo" "partial_values c fo l r = Inr p"
    and "\<And>x y q. member_of x l \<Longrightarrow> member_of y r \<Longrightarrow> c x y = Inr q \<Longrightarrow> c y x = Inr (reverse_partial q)"
  shows "partial_values c fo r l = Inr (reverse_partial p)"
proof (cases l; cases r)
  fix a b assume "l = RScalar a" "r = RScalar b"
  with scalar_partial_flip[OF assms(1), of c a b p] assms(2) show ?thesis by simp
next
  fix a b assume lr: "l = RList a" "r = RList b"
  with assms(2) have "compare_pairs c (cmp (length a) (length b)) (zip a b) = Inr p"
    by (simp add: partial_values_def compare_lists_def)
  from compare_pairs_flip[OF this] lr assms(3) show ?thesis
    by (auto simp: partial_values_def compare_lists_def zip_flip flips elim!: in_set_zipE)
qed (use assms(2) in \<open>auto simp: partial_values_def\<close>)

lemma partial_compare_flip:
  assumes "ordered_float_law fo"
  shows "partial_compare fo alloc l r = Inr p \<Longrightarrow> partial_compare fo alloc r l = Inr (reverse_partial p)"
  using assms
proof (induction fo alloc l r arbitrary: p rule: partial_compare.induct)
  case (1 fo alloc l r)
  note ps = partial_compare.simps[of fo alloc l r]
  show ?case
  proof (cases "document_of alloc l")
    case (Some d)
    then obtain m where m: "d = Inr m" "partial_compare fo alloc m r = Inr p"
      using "1.prems" by (auto simp: ps and_then_eq_Inr_iff)
    with "1.IH"(3)[OF Some m(1) m(2) "1.prems"(2)] Some show ?thesis
      by (simp add: partial_compare_right_document)
  next
    case l: None
    show ?thesis
    proof (cases "document_of alloc r")
      case (Some d)
      then obtain m where m: "d = Inr m" "partial_compare fo alloc l m = Inr p"
        using "1.prems" l by (auto simp: ps and_then_eq_Inr_iff)
      with "1.IH"(2)[OF l Some m(1) m(2) "1.prems"(2)] Some show ?thesis
        by (simp add: partial_compare.simps[of fo alloc r])
    next
      case r: None
      show ?thesis
      proof (cases "is_null l \<or> is_null r")
        case True
        with "1.prems"(1) l r show ?thesis by (auto simp: ps partial_compare.simps[of fo alloc r])
      next
        case False
        then have pv: "partial_values (partial_compare fo alloc) fo l r = Inr p"
          using "1.prems"(1) l r by (simp add: ps)
        from partial_values_flip[OF "1.prems"(2) pv] "1.IH"(1)[OF l r False _ _ _ "1.prems"(2)]
        show ?thesis using l r False by (auto simp: partial_compare.simps[of fo alloc r])
      qed
    qed
  qed
qed

lemma equal_right_document:
  assumes "document_of alloc l = Some (Inr m)"
  shows "equal fo alloc r l = equal fo alloc r m"
proof -
  have n: "equal fo alloc n l = equal fo alloc n m" if "document_of alloc n = None" for n
    using assms that by (subst equal.simps) simp
  show ?thesis
  proof (cases "document_of alloc r")
    case (Some d)
    then show ?thesis
      using n document_of_result[of alloc r] by (cases d) (simp_all add: equal.simps[of fo alloc r])
  qed (rule n)
qed

lemma equal_pairs_sym:
  assumes "equal_pairs c acc ps = Inr t" "\<And>x y q. (x, y) \<in> set ps \<Longrightarrow> c x y = Inr q \<Longrightarrow> c y x = Inr q"
  shows "equal_pairs c acc (map (\<lambda>(x, y). (y, x)) ps) = Inr t"
  using assms
  by (induction c acc ps rule: equal_pairs.induct) (auto simp: and_then_eq_Inr_iff Let_def split: if_splits)

lemma scalar_eq_sym: "ordered_float_law fo \<Longrightarrow> scalar_eq fo a b = scalar_eq fo b a"
proof -
  assume "ordered_float_law fo"
  then have "fo f g = Equal \<longleftrightarrow> fo g f = Equal" for f g by (metis flips(4) reverse_ordering_iffs(2))
  then show ?thesis by (auto simp: scalar_eq_def split: ScalarValue.splits)
qed

lemma list_all2_sym: "(\<And>x y. P x y = P y x) \<Longrightarrow> list_all2 P xs ys = list_all2 P ys xs"
  by (metis list_all2_conv_all_nth)

lemma properties_eq_sym: "ordered_float_law fo \<Longrightarrow> properties_eq fo a b = properties_eq fo b a"
  unfolding properties_eq_def by (rule list_all2_sym) (auto simp: scalar_eq_sym)

lemma node_eq_sym: "ordered_float_law fo \<Longrightarrow> node_eq fo a b = node_eq fo b a"
  by (auto simp: node_eq_def properties_eq_sym)

lemma edge_eq_sym: "ordered_float_law fo \<Longrightarrow> edge_eq fo a b = edge_eq fo b a"
  by (auto simp: edge_eq_def properties_eq_sym)

lemma vector_equal_iff: "vector_equal l r \<longleftrightarrow> l = r"
  by (auto simp: vector_equal_def list_all_iff list_eq_iff_zip_eq)

lemma equal_values_same_kind:
  "\<not> mixed_numbers a b \<Longrightarrow> equal_values c fo (RScalar a) (RScalar b) =
     (if scalar_family a \<noteq> scalar_family b then Ok TFalse
      else Ok (if scalar_is_nan a \<or> scalar_is_nan b then TFalse
               else if scalar_eq fo a b then TTrue else TFalse))"
  by (auto simp: equal_values_def mixed_numbers_def split: ScalarValue.splits)

lemma scalar_equal_sym:
  assumes "ordered_float_law fo"
  shows "equal_values c fo (RScalar a) (RScalar b) = equal_values c fo (RScalar b) (RScalar a)"
proof (cases "mixed_numbers a b")
  case True
  from mixed_numbers_cases[OF True] show ?thesis by (auto simp: equal_values_def)
next
  case False
  with mixed_numbers_sym[of a b] scalar_eq_sym[OF assms, of a b] show ?thesis
    by (simp add: equal_values_same_kind eq_commute disj_commute)
qed

lemma equal_values_sym:
  assumes "ordered_float_law fo" "equal_values c fo l r = Inr t"
    and "\<And>x y q. member_of x l \<Longrightarrow> member_of y r \<Longrightarrow> c x y = Inr q \<Longrightarrow> c y x = Inr q"
  shows "equal_values c fo r l = Inr t"
proof (cases l; cases r)
  fix a b assume "l = RScalar a" "r = RScalar b"
  with scalar_equal_sym[OF assms(1), of c a b] assms(2) show ?thesis by simp
next
  fix a b assume lr: "l = RList a" "r = RList b"
  show ?thesis
  proof (cases "length a = length b")
    case True
    with lr assms(2) have "equal_pairs c TTrue (zip a b) = Inr t"
      by (simp add: equal_values_def sequence_equal_def)
    from equal_pairs_sym[OF this] lr assms(3) True show ?thesis
      by (auto simp: equal_values_def sequence_equal_def zip_flip elim!: in_set_zipE)
  qed (use lr assms(2) in \<open>simp add: equal_values_def sequence_equal_def\<close>)
next
  fix a b assume lr: "l = RMap a" "r = RMap b"
  show ?thesis
  proof (cases "length a = length b \<and> map fst a = map fst b")
    case True
    with lr assms(2) have "equal_pairs c TTrue (zip (map snd a) (map snd b)) = Inr t"
      by (simp add: equal_values_def map_equal_def)
    from equal_pairs_sym[OF this] lr assms(3) True show ?thesis
      by (fastforce simp: equal_values_def map_equal_def zip_flip elim!: in_set_zipE)
  qed (use lr assms(2) in \<open>auto simp: equal_values_def map_equal_def\<close>)
next
  fix ns es ms fs assume "l = RPath ns es" "r = RPath ms fs"
  with assms(2) show ?thesis
    using list_all2_sym[of "node_eq fo" ns ms] list_all2_sym[of "edge_eq fo" es fs]
      node_eq_sym[OF assms(1)] edge_eq_sym[OF assms(1)]
    by (simp add: equal_values_def)
qed (use assms(2) in \<open>auto simp: equal_values_def vector_equal_iff eq_commute\<close>)

lemma equal_sym:
  assumes "ordered_float_law fo"
  shows "equal fo alloc l r = Inr t \<Longrightarrow> equal fo alloc r l = Inr t"
  using assms
proof (induction fo alloc l r arbitrary: t rule: equal.induct)
  case (1 fo alloc l r)
  note es = equal.simps[of fo alloc l r]
  show ?case
  proof (cases "document_of alloc l")
    case (Some d)
    then obtain m where m: "d = Inr m" "equal fo alloc m r = Inr t"
      using "1.prems" by (auto simp: es and_then_eq_Inr_iff)
    with "1.IH"(3)[OF Some m(1) m(2) "1.prems"(2)] Some show ?thesis
      by (simp add: equal_right_document)
  next
    case l: None
    show ?thesis
    proof (cases "document_of alloc r")
      case (Some d)
      then obtain m where m: "d = Inr m" "equal fo alloc l m = Inr t"
        using "1.prems" l by (auto simp: es and_then_eq_Inr_iff)
      with "1.IH"(2)[OF l Some m(1) m(2) "1.prems"(2)] Some show ?thesis
        by (simp add: equal.simps[of fo alloc r])
    next
      case r: None
      show ?thesis
      proof (cases "is_null l \<or> is_null r")
        case True
        with "1.prems"(1) l r show ?thesis by (auto simp: es equal.simps[of fo alloc r])
      next
        case False
        then have ev: "equal_values (equal fo alloc) fo l r = Inr t"
          using "1.prems"(1) l r by (simp add: es)
        from equal_values_sym[OF "1.prems"(2) ev] "1.IH"(1)[OF l r False _ _ _ "1.prems"(2)]
        show ?thesis using l r False by (auto simp: equal.simps[of fo alloc r])
      qed
    qed
  qed
qed

subsection \<open>Properties\<close>

text \<open>
  C12. Predicates follow the sort order. Whenever the partial comparison behind \<open><\<close>, \<open><=\<close>, \<open>>\<close>
  and \<open>>=\<close> orders two values, the total comparison of \<open>ORDER BY\<close> orders them the same way.
\<close>

theorem predicates_follow_order:
  assumes "partial_compare fo alloc l r = Ok (Ordered o')"
  shows "total_compare fo alloc l r = Some o'"
  using assms by (rule partial_compare_total)

theorem predicates_follow_order_witness:
  "total_compare reference_float_order (\<lambda>_. True)
     (RList [RScalar (SInteger 1)]) (RList [RScalar (SInteger 2)]) = Some Less"
proof -
  have "partial_compare reference_float_order (\<lambda>_. True)
     (RList [RScalar (SInteger 1)]) (RList [RScalar (SInteger 2)]) = Ok (Ordered Less)" by code_simp
  from predicates_follow_order[OF this] show ?thesis .
qed

definition mirror_operator :: "BinaryOperator \<Rightarrow> BinaryOperator" where
  "mirror_operator op = (case op of
       OpLess \<Rightarrow> OpGreater | OpGreater \<Rightarrow> OpLess
     | OpLessOrEqual \<Rightarrow> OpGreaterOrEqual | OpGreaterOrEqual \<Rightarrow> OpLessOrEqual | _ \<Rightarrow> op)"

text \<open>
  C13. Mirrored predicates. Swapping the operands and mirroring the operator leaves the truth value
  of an ordering predicate unchanged, unknown and NaN cases included.
\<close>

theorem compare_predicate_mirror:
  assumes "ordered_float_law fo" "compare_predicate fo alloc l r op = Ok t"
  shows "compare_predicate fo alloc r l (mirror_operator op) = Ok t"
proof -
  from assms(2) obtain p where p: "partial_compare fo alloc l r = Inr p"
    by (auto simp: compare_predicate_def and_then_eq_Inr_iff)
  from partial_compare_flip[OF assms(1) p] p assms(2) show ?thesis
    by (cases p; cases op)
      (auto simp: compare_predicate_def mirror_operator_def bool_truth_def split: if_splits)
qed

theorem compare_predicate_mirror_witness:
  "compare_predicate reference_float_order (\<lambda>_. True) (RScalar (SInteger 2)) (RScalar (SInteger 1)) OpGreater =
     Ok TTrue"
proof -
  have "compare_predicate reference_float_order (\<lambda>_. True) (RScalar (SInteger 1)) (RScalar (SInteger 2)) OpLess =
     Ok TTrue" by code_simp
  from compare_predicate_mirror[OF reference_float_order_law this] show ?thesis
    by (simp add: mirror_operator_def)
qed

text \<open>C14. Equality is symmetric: if it evaluates at all, swapping the operands gives the same truth value.\<close>

theorem equal_symmetric:
  assumes "ordered_float_law fo" "equal fo alloc l r = Ok t"
  shows "equal fo alloc r l = Ok t"
  using assms by (rule equal_sym)

theorem equal_symmetric_witness:
  "equal reference_float_order (\<lambda>_. True) (RList [RScalar SNull]) (RList [RScalar (SInteger 1)]) = Ok TUnknown"
proof -
  have "equal reference_float_order (\<lambda>_. True) (RList [RScalar (SInteger 1)]) (RList [RScalar SNull]) = Ok TUnknown"
    by code_simp
  from equal_symmetric[OF reference_float_order_law this] show ?thesis .
qed

lemma truth_or_False [simp]: "truth_or TFalse a = a"
  by (cases a) (simp_all add: truth_or_def)

lemma contains_loop_or:
  "\<forall>v \<in> set vs. c v = Inr (t v) \<Longrightarrow>
   contains_loop c unknown vs = Inr (truth_or (if unknown then TUnknown else TFalse) (foldr (truth_or \<circ> t) vs TFalse))"
proof (induction vs arbitrary: unknown)
  case (Cons v vs)
  then show ?case by (cases "t v") (auto simp: truth_or_def)
qed (simp add: truth_or_def)

text \<open>
  C15. Membership is a three-valued disjunction. When every element can be compared, \<open>IN\<close> is the
  disjunction of the element equalities, although the loop stops at the first match.
\<close>

theorem list_contains_disjunction:
  assumes "\<forall>v \<in> set vs. equal fo alloc needle v = Ok (t v)"
  shows "list_contains fo alloc vs needle = Ok (foldr (truth_or \<circ> t) vs TFalse)"
  using contains_loop_or[OF assms, of False]
  by (auto simp: list_contains_def)

theorem list_contains_disjunction_witness:
  "list_contains reference_float_order (\<lambda>_. True) [RScalar SNull, RScalar (SInteger 1)] (RScalar (SInteger 1)) =
     Ok TTrue"
proof -
  let ?t = "\<lambda>v. if v = RScalar SNull then TUnknown else TTrue"
  have "equal reference_float_order (\<lambda>_. True) (RScalar (SInteger 1)) (RScalar SNull) = Ok TUnknown"
    "equal reference_float_order (\<lambda>_. True) (RScalar (SInteger 1)) (RScalar (SInteger 1)) = Ok TTrue" by code_simp+
  then have "\<forall>v \<in> set [RScalar SNull, RScalar (SInteger 1)].
      equal reference_float_order (\<lambda>_. True) (RScalar (SInteger 1)) v = Ok (?t v)" by simp
  from list_contains_disjunction[OF this] show ?thesis by (simp add: truth_or_def)
qed

end
