(* ===== verification/Equality_Key.thy ===== *)
theory Equality_Key
  imports Cypher_Value
begin

text \<open>
  Grouping keys, \<^verbatim>\<open>crates/cypher/src/equality_key.rs\<close>: byte strings under which \<open>DISTINCT\<close> and
  grouping collect equal values, with an integer and an exactly equal float sharing one key. A
  malformed path indexes past the end of a slice and panics; \<open>None\<close> is the panic.
\<close>

unbundle bit_operations_syntax

subsection \<open>The encoder\<close>

definition key_push_len :: "bytes \<Rightarrow> nat \<Rightarrow> bytes" where
  "key_push_len out n = out @ to_be_bytes (if n < 2 ^ 64 then word_of_nat n else - 1 :: u64)"

definition key_push_bytes :: "bytes \<Rightarrow> bytes \<Rightarrow> bytes" where
  "key_push_bytes out bs = key_push_len out (length bs) @ bs"

text \<open>
  \<open>value.fract() == 0.0\<close>, the range test and \<open>value as i64\<close>, read off the exact multiple of
  \<open>2 ^ -1074\<close> a finite float denotes.
\<close>

definition exactly_equivalent_integer :: "f64 \<Rightarrow> i64 option" where
  "exactly_equivalent_integer f =
     (if f64_is_finite f \<and> f64_scaled f mod 2 ^ 1074 = 0 \<and>
         - (2 ^ 63) \<le> f64_scaled f div 2 ^ 1074 \<and> f64_scaled f div 2 ^ 1074 < 2 ^ 63
      then Some (word_of_int (f64_scaled f div 2 ^ 1074)) else None)"

definition append_integer :: "bytes \<Rightarrow> i64 \<Rightarrow> bytes" where
  "append_integer out v = out @ [2] @ to_be_bytes v"

definition canonical_key_bits :: "f64 \<Rightarrow> f64" where
  "canonical_key_bits f = (if f64_is_nan f then f64_nan else if f64_is_zero f then 0 else f)"

lemma decoded_member_no_docs:
  "document_items alloc l = Inr ds \<Longrightarrow> d \<in> set ds \<Longrightarrow> item_docs d = 0"
  "document_entries alloc m = Inr kvs \<Longrightarrow> (k, d) \<in> set kvs \<Longrightarrow> item_docs d = 0"
  using decoded_no_docs(1)[of alloc l ds] decoded_no_docs(2)[of alloc m kvs]
    item_docs_member(1)[of d ds] item_docs_member(2)[of k d kvs] by auto

lemma member_docs_positive:
  "d \<in> set ds \<Longrightarrow> 0 < item_docs d \<Longrightarrow> 0 < items_docs ds"
  "(k, d) \<in> set kvs \<Longrightarrow> 0 < item_docs d \<Longrightarrow> 0 < entries_docs kvs"
  using item_docs_member(1)[of d ds] item_docs_member(2)[of k d kvs] by auto

function eq_append_scalar :: "allocator \<Rightarrow> bytes \<Rightarrow> ScalarValue \<Rightarrow> bytes"
  and append_document_item :: "allocator \<Rightarrow> bytes \<Rightarrow> DocumentItem \<Rightarrow> bytes" where
  "eq_append_scalar alloc out v = (case v of
       SNull \<Rightarrow> out @ [0]
     | SBoolean b \<Rightarrow> out @ [1, if b then 1 else 0]
     | SInteger i \<Rightarrow> append_integer out i
     | SFloat f \<Rightarrow> (case exactly_equivalent_integer f of
           Some i \<Rightarrow> append_integer out i
         | None \<Rightarrow> out @ [3] @ to_be_bytes (canonical_key_bits f))
     | SString s \<Rightarrow> key_push_bytes (out @ [4]) s
     | SBytes bs \<Rightarrow> key_push_bytes (out @ [5]) bs
     | SDate d \<Rightarrow> out @ [6] @ to_be_bytes d
     | SLocalTime t \<Rightarrow> out @ [7] @ to_be_bytes t
     | SZonedTime n z \<Rightarrow> out @ [8] @ to_be_bytes n @ to_be_bytes z
     | SLocalDateTime s n \<Rightarrow> out @ [9] @ to_be_bytes s @ to_be_bytes n
     | SZonedDateTime s n z \<Rightarrow> key_push_bytes (out @ [10] @ to_be_bytes s @ to_be_bytes n) z
     | SDuration m d s n \<Rightarrow>
         out @ [11] @ to_be_bytes m @ to_be_bytes d @ to_be_bytes s @ to_be_bytes n
     | SList l \<Rightarrow> (case document_items alloc l of
           Inr ds \<Rightarrow> foldl (\<lambda>out d. append_document_item alloc out d) (key_push_len (out @ [18]) (length ds)) ds
         | Inl _ \<Rightarrow> key_push_bytes (out @ [18]) l)
     | SMap m \<Rightarrow> (case document_entries alloc m of
           Inr kvs \<Rightarrow> foldl (\<lambda>out (name, d). append_document_item alloc (key_push_bytes out name) d)
             (key_push_len (out @ [20]) (length kvs)) kvs
         | Inl _ \<Rightarrow> key_push_bytes (out @ [20]) m))"
| "append_document_item alloc out (DScalar v) = eq_append_scalar alloc out v"
| "append_document_item alloc out (DList ds) =
     foldl (\<lambda>out d. append_document_item alloc out d) (key_push_len (out @ [18]) (length ds)) ds"
| "append_document_item alloc out (DMap kvs) =
     foldl (\<lambda>out (name, d). append_document_item alloc (key_push_bytes out name) d)
       (key_push_len (out @ [20]) (length kvs)) kvs"
  by pat_completeness auto
termination
  by (relation "measures
      [\<lambda>x. case x of Inl (alloc, out, v) \<Rightarrow> if is_document v then 1 else 0
            | Inr (alloc, out, d) \<Rightarrow> if item_docs d = 0 then 0 else 2,
       \<lambda>x. case x of Inl _ \<Rightarrow> 0 | Inr (alloc, out, d) \<Rightarrow> Suc (size d)]")
    (auto intro: member_docs_positive dest: size_member(1,2) decoded_member_no_docs)

declare eq_append_scalar.simps [simp del]

definition append_path_step :: "ResultNode list \<Rightarrow> ResultEdge list \<Rightarrow> bytes \<Rightarrow> nat \<Rightarrow> bytes option" where
  "append_path_step ns es out i =
     (if i mod 2 = 0 then map_option (\<lambda>n. out @ [16] @ to_be_bytes (node_id n)) (slice_index ns (i div 2))
      else map_option (\<lambda>e. out @ [17] @ to_be_bytes (edge_id e)) (slice_index es (i div 2)))"

function eq_append_value :: "allocator \<Rightarrow> bytes \<Rightarrow> ResultValue \<Rightarrow> bytes option" where
  "eq_append_value alloc out (RScalar s) = Some (eq_append_scalar alloc out s)"
| "eq_append_value alloc out (RNode n) = Some (out @ [16] @ to_be_bytes (node_id n))"
| "eq_append_value alloc out (RRelationship e) = Some (out @ [17] @ to_be_bytes (edge_id e))"
| "eq_append_value alloc out (RPath ns es) =
     (let n = saturating_add_usize (length ns) (length es)
      in fold_panics (append_path_step ns es) (key_push_len (out @ [18]) n) [0..<n])"
| "eq_append_value alloc out (RVector fs) =
     Some (foldl (\<lambda>out f. out @ to_be_bytes f) (key_push_len (out @ [19]) (length fs)) fs)"
| "eq_append_value alloc out (RList vs) =
     fold_panics (\<lambda>out v. eq_append_value alloc out v) (key_push_len (out @ [18]) (length vs)) vs"
| "eq_append_value alloc out (RMap fs) =
     fold_panics (\<lambda>out (name, v). eq_append_value alloc (key_push_bytes out name) v)
       (key_push_len (out @ [20]) (length fs)) fs"
  by pat_completeness auto
termination
  by (relation "measure (\<lambda>(alloc, out, v). size v)") (auto dest: size_member(3,4))

definition value_key :: "allocator \<Rightarrow> ResultValue \<Rightarrow> bytes option" where
  "value_key alloc v = eq_append_value alloc [] v"

subsection \<open>Keys are concatenations\<close>

lemma push_shift:
  "key_push_len out n = out @ key_push_len [] n"
  "key_push_bytes out bs = out @ key_push_bytes [] bs"
  by (simp_all add: key_push_len_def key_push_bytes_def)

lemma foldl_shift:
  assumes "\<And>x out. x \<in> set xs \<Longrightarrow> f out x = out @ f [] x"
  shows "foldl f out xs = out @ concat (map (f []) xs)"
  using assms
proof (induction xs arbitrary: out)
  case (Cons x xs)
  have "foldl f (f out x) xs = f out x @ concat (map (f []) xs)" by (rule Cons.IH) (rule Cons.prems, simp)
  moreover have "f out x = out @ f [] x" by (rule Cons.prems) simp
  ultimately show ?case by simp
qed simp

lemma foldl_items_shift:
  assumes "\<And>d out. d \<in> set ds \<Longrightarrow> append_document_item alloc out d = out @ append_document_item alloc [] d"
  shows "foldl (\<lambda>out d. append_document_item alloc out d) out ds =
    out @ concat (map (append_document_item alloc []) ds)"
  using foldl_shift[of ds "append_document_item alloc" out] assms by blast

definition entry_key :: "allocator \<Rightarrow> str \<times> DocumentItem \<Rightarrow> bytes" where
  "entry_key alloc kv = key_push_bytes [] (fst kv) @ append_document_item alloc [] (snd kv)"

lemma foldl_entries_shift:
  assumes "\<And>k d out. (k, d) \<in> set kvs \<Longrightarrow>
      append_document_item alloc (key_push_bytes out k) d = key_push_bytes out k @ append_document_item alloc [] d"
  shows "foldl (\<lambda>out (name, d). append_document_item alloc (key_push_bytes out name) d) out kvs =
    out @ concat (map (entry_key alloc) kvs)"
proof -
  let ?f = "\<lambda>out (name, d). append_document_item alloc (key_push_bytes out name) d"
  have eq: "?f out kd = out @ entry_key alloc kd" if m: "kd \<in> set kvs" for out kd
  proof -
    obtain k d where kd: "kd = (k, d)" by (cases kd)
    have "append_document_item alloc (key_push_bytes out k) d = key_push_bytes out k @ append_document_item alloc [] d"
      using assms[of k d out] m kd by blast
    also have "\<dots> = out @ entry_key alloc kd" by (simp add: kd entry_key_def push_shift(2)[of out])
    finally show ?thesis by (simp add: kd)
  qed
  have "foldl ?f out kvs = out @ concat (map (?f []) kvs)"
    by (rule foldl_shift) (use eq in \<open>metis append_Nil\<close>)
  also have "map (?f []) kvs = map (entry_key alloc) kvs" using eq[of _ "[]"] by (intro map_cong) auto
  finally show ?thesis .
qed

lemma scalar_shift:
  "eq_append_scalar alloc out v = out @ eq_append_scalar alloc [] v"
  "append_document_item alloc out d = out @ append_document_item alloc [] d"
proof (induction alloc out v and alloc out d rule: eq_append_scalar_append_document_item.induct)
  case (1 alloc out v)
  show ?case
  proof (cases v)
    case (SList l)
    show ?thesis
    proof (cases "document_items alloc l")
      case (Inr ds)
      note sh = foldl_items_shift[OF "1.IH"(1)[OF SList Inr]]
      show ?thesis
        by (simp only: eq_append_scalar.simps SList ScalarValue.case Inr sum.case sh)
          (simp add: key_push_len_def)
    qed (simp add: SList eq_append_scalar.simps push_shift(2)[of "out @ [18]"] push_shift(2)[of "[18]"])
  next
    case (SMap m)
    show ?thesis
    proof (cases "document_entries alloc m")
      case (Inr kvs)
      note sh = foldl_entries_shift[OF "1.IH"(2)[OF SMap Inr _ refl]]
      show ?thesis
        by (simp only: eq_append_scalar.simps SMap ScalarValue.case Inr sum.case sh)
          (simp add: key_push_len_def)
    qed (simp add: SMap eq_append_scalar.simps push_shift(2)[of "out @ [20]"] push_shift(2)[of "[20]"])
  qed (simp_all add: eq_append_scalar.simps append_integer_def key_push_bytes_def key_push_len_def split: option.split)
next
  case (3 alloc out ds)
  note sh = foldl_items_shift[OF "3.IH"]
  show ?case by (simp only: append_document_item.simps sh) (simp add: key_push_len_def)
next
  case (4 alloc out kvs)
  note sh = foldl_entries_shift[OF "4.IH"[OF _ refl]]
  show ?case by (simp only: append_document_item.simps sh) (simp add: key_push_len_def)
qed simp

lemma fold_panics_shift:
  assumes "\<And>x out. x \<in> set xs \<Longrightarrow> f out x = map_option (\<lambda>k. out @ k) (g x)"
  shows "fold_panics f out xs = map_option (\<lambda>ks. out @ concat ks) (those (map g xs))"
  using assms
proof (induction xs arbitrary: out)
  case (Cons x xs)
  have "fold_panics f out' xs = map_option (\<lambda>ks. out' @ concat ks) (those (map g xs))" for out'
    by (rule Cons.IH) (rule Cons.prems, simp)
  moreover have "f out x = map_option (\<lambda>k. out @ k) (g x)" by (rule Cons.prems) simp
  ultimately show ?case by (cases "g x") (simp_all add: option.map_comp o_def)
qed simp

definition path_element :: "ResultNode list \<Rightarrow> ResultEdge list \<Rightarrow> nat \<Rightarrow> bytes option" where
  "path_element ns es i =
     (if i mod 2 = 0 then map_option (\<lambda>n. 16 # to_be_bytes (node_id n)) (slice_index ns (i div 2))
      else map_option (\<lambda>e. 17 # to_be_bytes (edge_id e)) (slice_index es (i div 2)))"

definition field_key :: "allocator \<Rightarrow> str \<times> ResultValue \<Rightarrow> bytes option" where
  "field_key alloc kv = map_option (\<lambda>k. key_push_bytes [] (fst kv) @ k) (value_key alloc (snd kv))"

lemma fold_panics_path:
  "fold_panics (append_path_step ns es) out is =
     map_option (\<lambda>ks. out @ concat ks) (those (map (path_element ns es) is))"
  by (rule fold_panics_shift)
    (simp add: append_path_step_def path_element_def option.map_comp o_def)

lemma fold_panics_values:
  assumes "\<And>v out. v \<in> set vs \<Longrightarrow> eq_append_value alloc out v = map_option (\<lambda>k. out @ k) (value_key alloc v)"
  shows "fold_panics (\<lambda>out v. eq_append_value alloc out v) out vs =
    map_option (\<lambda>ks. out @ concat ks) (those (map (value_key alloc) vs))"
  using assms by (rule fold_panics_shift)

lemma fold_panics_fields:
  assumes "\<And>k v out. (k, v) \<in> set fs \<Longrightarrow> eq_append_value alloc (key_push_bytes out k) v =
      map_option (\<lambda>b. key_push_bytes out k @ b) (value_key alloc v)"
  shows "fold_panics (\<lambda>out (name, v). eq_append_value alloc (key_push_bytes out name) v) out fs =
    map_option (\<lambda>ks. out @ concat ks) (those (map (field_key alloc) fs))"
proof (rule fold_panics_shift)
  fix kv :: "str \<times> ResultValue" and out
  obtain k v where kv: "kv = (k, v)" by (cases kv)
  assume "kv \<in> set fs"
  then show "(case kv of (name, v) \<Rightarrow> eq_append_value alloc (key_push_bytes out name) v) =
      map_option (\<lambda>k. out @ k) (field_key alloc kv)"
    using assms[of k v out] by (simp add: kv field_key_def option.map_comp o_def push_shift(2)[of out])
qed

lemma value_shift: "eq_append_value alloc out v = map_option (\<lambda>k. out @ k) (value_key alloc v)"
proof (induction alloc out v rule: eq_append_value.induct)
  case (1 alloc out s)
  show ?case using scalar_shift(1)[of alloc out s] by (simp add: value_key_def)
next
  case (4 alloc out ns es)
  show ?case
    by (simp add: value_key_def Let_def fold_panics_path option.map_comp o_def key_push_len_def)
next
  case (5 alloc out fs)
  show ?case
    by (simp add: value_key_def foldl_shift[of fs "\<lambda>out f. out @ to_be_bytes f"] key_push_len_def)
next
  case (6 alloc out vs)
  note sh = fold_panics_values[OF "6.IH"]
  show ?case
    by (simp only: value_key_def eq_append_value.simps sh[unfolded value_key_def])
      (simp add: option.map_comp o_def key_push_len_def)
next
  case (7 alloc out fs)
  note sh = fold_panics_fields[OF "7.IH"[OF _ refl]]
  show ?case
    by (simp only: value_key_def eq_append_value.simps sh[unfolded value_key_def])
      (simp add: option.map_comp o_def key_push_len_def)
qed (simp_all add: value_key_def)

definition key_len :: "nat \<Rightarrow> bytes" where
  "key_len n = key_push_len [] n"

lemma value_key_simps:
  "value_key alloc (RScalar s) = Some (eq_append_scalar alloc [] s)"
  "value_key alloc (RNode n) = Some (16 # to_be_bytes (node_id n))"
  "value_key alloc (RRelationship e) = Some (17 # to_be_bytes (edge_id e))"
  "value_key alloc (RPath ns es) =
     (let n = saturating_add_usize (length ns) (length es)
      in map_option (\<lambda>ks. 18 # key_len n @ concat ks) (those (map (path_element ns es) [0..<n])))"
  "value_key alloc (RVector xs) = Some (19 # key_len (length xs) @ concat (map to_be_bytes xs))"
  "value_key alloc (RList vs) =
     map_option (\<lambda>ks. 18 # key_len (length vs) @ concat ks) (those (map (value_key alloc) vs))"
  "value_key alloc (RMap fs) =
     map_option (\<lambda>ks. 20 # key_len (length fs) @ concat ks) (those (map (field_key alloc) fs))"
  by (simp_all add: value_key_def key_len_def Let_def fold_panics_path fold_panics_values[OF value_shift]
      fold_panics_fields[OF value_shift] foldl_shift[of xs "\<lambda>out f. out @ to_be_bytes f"]
      key_push_len_def del: upt_Suc)

subsection \<open>A document and its materialised value share a key\<close>

lemma item_key_simps:
  "append_document_item alloc [] (DList ds) =
     18 # key_len (length ds) @ concat (map (append_document_item alloc []) ds)"
  "append_document_item alloc [] (DMap kvs) =
     20 # key_len (length kvs) @ concat (map (entry_key alloc) kvs)"
  by (simp_all add: key_len_def foldl_items_shift[OF scalar_shift(2)] foldl_entries_shift[OF scalar_shift(2)]
      key_push_len_def)

lemma those_list_all2: "those (map g vs) = Some ks \<longleftrightarrow> list_all2 (\<lambda>v k. g v = Some k) vs ks"
  by (induction vs arbitrary: ks) (auto simp: list_all2_Cons1 split: option.splits)

lemma list_key_values:
  assumes "collect_results (map f ds) = Inr vs"
    and "\<And>d v. d \<in> set ds \<Longrightarrow> f d = Inr v \<Longrightarrow> value_key alloc v = Some (append_document_item alloc [] d)"
  shows "value_key alloc (RList vs) = Some (append_document_item alloc [] (DList ds))"
proof -
  have "list_all2 (\<lambda>d v. f d = Inr v) ds vs" using assms(1) by (simp add: collect_results_map_Inr_iff)
  then have "those (map (value_key alloc) vs) = Some (map (append_document_item alloc []) ds)" "length vs = length ds"
    using assms(2) by (auto simp: those_list_all2 list_all2_conv_all_nth)
  then show ?thesis unfolding item_key_simps by (simp add: value_key_simps)
qed

lemma map_key_fields:
  assumes "collect_results (map (\<lambda>(n, d). and_then (f d) (\<lambda>v. Ok (n, v))) kvs) = Inr fs"
    and "\<And>k d v. (k, d) \<in> set kvs \<Longrightarrow> f d = Inr v \<Longrightarrow> value_key alloc v = Some (append_document_item alloc [] d)"
  shows "value_key alloc (RMap fs) = Some (append_document_item alloc [] (DMap kvs))"
proof -
  have "list_all2 (\<lambda>(n, x) (m, y). m = n \<and> f x = Inr y) kvs fs"
    using assms(1) by (simp add: collect_results_fields_Inr_iff)
  then have "those (map (field_key alloc) fs) = Some (map (entry_key alloc) kvs)" "length fs = length kvs"
    using assms(2) unfolding those_list_all2 list_all2_conv_all_nth
    by (auto simp: field_key_def entry_key_def case_prod_beta, metis nth_mem prod.collapse)
  then show ?thesis unfolding item_key_simps by (simp add: value_key_simps)
qed

lemma document_key:
  "from_property alloc s = Inr v \<Longrightarrow> value_key alloc v = Some (eq_append_scalar alloc [] s)"
  "document_item_to_result alloc d = Inr v \<Longrightarrow> value_key alloc v = Some (append_document_item alloc [] d)"
proof (induction alloc s and alloc d arbitrary: v and v rule: from_property_document_item_to_result.induct)
  case (1 alloc s)
  show ?case
  proof (cases s)
    case (SList l)
    with "1.prems" obtain ds vs where ds: "document_items alloc l = Inr ds"
      and vs: "collect_results (map (\<lambda>d. document_item_to_result alloc d) ds) = Inr vs" and r: "v = RList vs"
      by (auto simp: from_property.simps and_then_eq_Inr_iff)
    have "value_key alloc v = Some (append_document_item alloc [] (DList ds))"
      unfolding r by (rule list_key_values[OF vs]) (rule "1.IH"(1)[OF SList ds])
    with SList ds show ?thesis by (simp add: eq_append_scalar.simps)
  next
    case (SMap m)
    with "1.prems" obtain kvs fs where kvs: "document_entries alloc m = Inr kvs"
      and fs: "collect_results (map (\<lambda>(name, d).
        and_then (document_item_to_result alloc d) (\<lambda>v. Ok (name, v))) kvs) = Inr fs" and r: "v = RMap fs"
      by (auto simp: from_property.simps and_then_eq_Inr_iff)
    have "value_key alloc v = Some (append_document_item alloc [] (DMap kvs))"
      unfolding r by (rule map_key_fields[OF fs]) (rule "1.IH"(2)[OF SMap kvs _ refl])
    with SMap kvs show ?thesis by (simp add: eq_append_scalar.simps)
  qed (use "1.prems" in \<open>auto simp: from_property.simps value_key_simps\<close>)
next
  case (3 alloc ds)
  then obtain vs where vs: "collect_results (map (\<lambda>d. document_item_to_result alloc d) ds) = Inr vs"
    and r: "v = RList vs" by (auto simp: and_then_eq_Inr_iff)
  show ?case unfolding r by (rule list_key_values[OF vs]) (rule "3.IH")
next
  case (4 alloc kvs)
  then obtain fs where fs: "collect_results (map (\<lambda>(name, d).
      and_then (document_item_to_result alloc d) (\<lambda>v. Ok (name, v))) kvs) = Inr fs" and r: "v = RMap fs"
    by (auto simp: and_then_eq_Inr_iff)
  show ?case unfolding r by (rule map_key_fields[OF fs]) (rule "4.IH"[OF _ refl])
qed simp

subsection \<open>Equal numbers share a key\<close>

lemma magnitude_bounds:
  "f64_exponent_bits b = 0 \<Longrightarrow> f64_magnitude b < 2 ^ 52"
  "f64_exponent_bits b \<noteq> 0 \<Longrightarrow> 2 ^ 52 * 2 ^ (unat (f64_exponent_bits b) - 1) \<le> f64_magnitude b"
  "f64_exponent_bits b \<noteq> 0 \<Longrightarrow> f64_magnitude b < 2 ^ 52 * 2 ^ unat (f64_exponent_bits b)"
proof -
  note f = unat_f64_fraction[of b]
  let ?e = "f64_exponent_bits b"
  show "?e = 0 \<Longrightarrow> f64_magnitude b < 2 ^ 52" using f by (simp add: f64_magnitude_def Let_def)
  assume e: "?e \<noteq> 0"
  then have e0: "unat ?e \<noteq> 0" by (simp add: unat_gt_0)
  then obtain k where k: "unat ?e = Suc k" by (cases "unat ?e") auto
  have m: "f64_magnitude b = (2 ^ 52 + unat (f64_fraction b)) * 2 ^ k"
    using k by (simp add: f64_magnitude_def Let_def)
  show "2 ^ 52 * 2 ^ (unat ?e - 1) \<le> f64_magnitude b" unfolding m k by simp
  have "(2 ^ 52 + unat (f64_fraction b)) * 2 ^ k < (2 ^ 52 + 2 ^ 52) * 2 ^ k" using f by simp
  then show "f64_magnitude b < 2 ^ 52 * 2 ^ unat ?e" unfolding m k by simp
qed

lemma magnitude_exponent:
  assumes "f64_magnitude a = f64_magnitude b"
  shows "f64_exponent_bits a = f64_exponent_bits b"
proof -
  have lt: False if "f64_magnitude a = f64_magnitude b" "unat (f64_exponent_bits a) < unat (f64_exponent_bits b)" for a b
  proof -
    let ?a = "unat (f64_exponent_bits a)" and ?b = "unat (f64_exponent_bits b)"
    have b: "f64_exponent_bits b \<noteq> 0" using that(2) by auto
    have "f64_magnitude a < 2 ^ 52 * 2 ^ ?a"
      using magnitude_bounds(1)[of a] magnitude_bounds(3)[of a] by (cases "f64_exponent_bits a = 0") auto
    also have "\<dots> \<le> 2 ^ 52 * 2 ^ (?b - 1)"
      using that(2) by (intro mult_le_mono2 power_increasing) auto
    also have "\<dots> \<le> f64_magnitude b" by (rule magnitude_bounds(2)[OF b])
    finally show False using that(1) by simp
  qed
  have "unat (f64_exponent_bits a) = unat (f64_exponent_bits b)"
    using lt[of a b] lt[of b a] assms by (metis linorder_neqE_nat)
  then show ?thesis by (rule unsigned_word_eqI)
qed

lemma magnitude_fraction:
  assumes "f64_magnitude a = f64_magnitude b"
  shows "f64_fraction a = f64_fraction b"
proof -
  have "unat (f64_fraction a) = unat (f64_fraction b)"
    using assms magnitude_exponent[OF assms] by (simp add: f64_magnitude_def Let_def split: if_splits)
  then show ?thesis by (rule unsigned_word_eqI)
qed

lemma f64_fields_unique:
  assumes "f64_fraction a = f64_fraction b" "f64_exponent_bits a = f64_exponent_bits b"
    "f64_negative a = f64_negative b"
  shows "a = b"
proof -
  have split: "unat x = unat x mod 2 ^ 52 + 2 ^ 52 * (unat x div 2 ^ 52 mod 2 ^ 11 + 2 ^ 11 * (unat x div 2 ^ 63))" for x :: u64
  proof -
    have "unat x = unat x mod 2 ^ 52 + 2 ^ 52 * (unat x div 2 ^ 52)" by (metis add.commute mult_div_mod_eq)
    also have "unat x div 2 ^ 52 = unat x div 2 ^ 52 mod 2 ^ 11 + 2 ^ 11 * (unat x div 2 ^ 52 div 2 ^ 11)"
      by (metis add.commute mult_div_mod_eq)
    also have "unat x div 2 ^ 52 div 2 ^ 11 = unat x div 2 ^ 63" by (simp flip: div_mult2_eq)
    finally show ?thesis by simp
  qed
  have sign: "unat x div 2 ^ 63 = (if f64_negative x then 1 else 0)" for x
  proof -
    have "unat (drop_bit 63 x) = unat x div 2 ^ 63" by (simp only: unat_drop_bit_eq) (simp add: drop_bit_eq_div)
    moreover have "unat x div 2 ^ 63 < 2" using unsigned_less[of x, where ?'a = nat] by (simp add: less_mult_imp_div_less)
    moreover have "drop_bit 63 x = 0 \<longleftrightarrow> unat (drop_bit 63 x) = 0" by (metis unat_eq_zero)
    ultimately show ?thesis unfolding f64_negative_def by auto
  qed
  have u: "unat x = unat (f64_fraction x) + 2 ^ 52 * (unat (f64_exponent_bits x) +
      2 ^ 11 * (if f64_negative x then 1 else 0))" for x
    unfolding unat_f64_fields sign[symmetric] by (rule split)
  have "unat a = unat b" unfolding u[of a] u[of b] by (simp only: assms)
  then show ?thesis by (rule unsigned_word_eqI)
qed

lemma f64_scaled_unique:
  assumes "f64_scaled a = f64_scaled b" "f64_scaled a \<noteq> 0"
  shows "a = b"
proof (rule f64_fields_unique)
  have m: "f64_magnitude a = f64_magnitude b" "f64_negative a = f64_negative b"
    using assms unfolding f64_scaled_def by (cases "f64_negative a"; cases "f64_negative b"; simp)+
  show "f64_fraction a = f64_fraction b" by (rule magnitude_fraction[OF m(1)])
  show "f64_exponent_bits a = f64_exponent_bits b" by (rule magnitude_exponent[OF m(1)])
  show "f64_negative a = f64_negative b" by (rule m(2))
qed

lemma exact_quotient:
  fixes x p :: int
  assumes "0 < p"
  shows "x mod p = 0 \<and> - (2 ^ 63) \<le> x div p \<and> x div p < 2 ^ 63 \<and> word_of_int (x div p) = i \<longleftrightarrow>
    x = sint (i :: i64) * p"
proof
  assume a: "x mod p = 0 \<and> - (2 ^ 63) \<le> x div p \<and> x div p < 2 ^ 63 \<and> word_of_int (x div p) = i"
  then have "sint i = signed_take_bit 63 (x div p)" by (auto simp: signed_of_int)
  also have "\<dots> = x div p" using a by (simp add: signed_take_bit_int_eq_self)
  finally show "x = sint i * p" using a by (auto simp: algebra_simps)
next
  assume "x = sint i * p"
  with assms sint_range_i64[of i] show "x mod p = 0 \<and> - (2 ^ 63) \<le> x div p \<and> x div p < 2 ^ 63 \<and> word_of_int (x div p) = i"
    by simp
qed

lemma if_Some_iff: "(if P then Some x else None) = Some y \<longleftrightarrow> P \<and> x = y"
  by simp

lemma exactly_equivalent_integer_iff:
  assumes "f64_is_finite f"
  shows "exactly_equivalent_integer f = Some i \<longleftrightarrow> f64_scaled f = sint i * 2 ^ 1074"
proof -
  have "exactly_equivalent_integer f = Some i \<longleftrightarrow>
      f64_scaled f mod 2 ^ 1074 = 0 \<and> - (2 ^ 63) \<le> f64_scaled f div 2 ^ 1074 \<and>
      f64_scaled f div 2 ^ 1074 < 2 ^ 63 \<and> word_of_int (f64_scaled f div 2 ^ 1074) = i"
    unfolding exactly_equivalent_integer_def if_Some_iff using assms by blast
  also have "\<dots> \<longleftrightarrow> f64_scaled f = sint i * 2 ^ 1074" by (rule exact_quotient) simp
  finally show ?thesis .
qed

lemma exactly_equivalent_integer_finite: "exactly_equivalent_integer f = Some i \<Longrightarrow> f64_is_finite f"
  unfolding exactly_equivalent_integer_def if_Some_iff by blast

lemma compare_i64_f64_Equal:
  assumes "compare_i64_f64 i f = Equal"
  shows "exactly_equivalent_integer f = Some i"
proof (cases f rule: f64_class_cases)
  case finite
  from assms have "cmp (real_of_int (sint i)) (f64_real f) = Equal" by (simp only: compare_i64_f64_finite[OF finite(1)])
  then have "real_of_int (sint i * 2 ^ 1074) / 2 ^ 1074 = real_of_int (f64_scaled f) / 2 ^ 1074"
    unfolding cmp_iffs f64_real_def real_as_quotient[of "sint i" 1074] .
  then have "cmp (sint i * 2 ^ 1074) (f64_scaled f) = Equal"
    unfolding cmp_quotients[of _ _ 1074] by (simp only: cmp_iffs)
  then have "f64_scaled f = sint i * 2 ^ 1074" unfolding cmp_iffs by (rule sym)
  then show ?thesis by (simp only: exactly_equivalent_integer_iff[OF finite(1)])
qed (use assms in \<open>simp_all add: compare_i64_f64_def aligned_category ordered_integer_scaled del: cmp_iffs\<close>)

lemma f64_scaled_zero: "f64_scaled f = 0 \<Longrightarrow> f64_is_zero f"
proof -
  assume "f64_scaled f = 0"
  then have m: "f64_magnitude f = 0" by (simp add: f64_scaled_def split: if_splits)
  then have "f64_magnitude f = f64_magnitude 0"
    by (simp add: f64_magnitude_def f64_exponent_bits_def f64_fraction_def)
  from magnitude_exponent[OF this] magnitude_fraction[OF this] show ?thesis
    by (intro f64_zero_fields) (simp_all add: f64_exponent_bits_def f64_fraction_def)
qed

lemma cmp_inf_tags: "cmp NEGATIVE_INFINITY POSITIVE_INFINITY = Less" "cmp POSITIVE_INFINITY NEGATIVE_INFINITY = Greater"
  by simp_all

lemma float_order_Equal:
  assumes "ordered_float_law fo" "fo f g = Equal" "\<not> f64_is_nan f" "\<not> f64_is_nan g"
  shows "f = g \<or> f64_is_zero f \<and> f64_is_zero g"
proof -
  have c: "cmp (ordered_float f) (ordered_float g) = Equal" using assms cmp_ordered_float by simp
  show ?thesis
  proof (cases "f64_is_finite f \<and> f64_is_finite g")
    case True
    then have "cmp (f64_scaled f * 2 ^ 63) (f64_scaled g * 2 ^ 63) = Equal"
      using c by (simp only: cmp_number_scaled ordered_float_scaled)
    then have e: "f64_scaled f = f64_scaled g" using cmp_scale[of "2 ^ 63" "f64_scaled f" "f64_scaled g"] by simp
    then show ?thesis using f64_scaled_unique[OF e] f64_scaled_zero by metis
  next
    case False
    then show ?thesis
      using c assms(3,4)
      by (cases f rule: f64_class_cases; cases g rule: f64_class_cases)
        (simp_all add: aligned_category ordered_float_scaled cmp_category cmp_inf_tags nan_not_finite del: cmp_iffs)
  qed
qed

lemma zero_key: "f64_is_zero f \<Longrightarrow> exactly_equivalent_integer f = Some 0"
proof -
  assume z: "f64_is_zero f"
  have "f64_is_finite f" using z by (auto simp: f64_is_zero_def f64_is_finite_def f64_exponent_bits_def)
  with f64_zero_scaled[OF z] show ?thesis by (simp only: exactly_equivalent_integer_iff) simp
qed

lemma float_keys:
  assumes "ordered_float_law fo" "fo f g = Equal" "\<not> f64_is_nan f" "\<not> f64_is_nan g"
  shows "eq_append_scalar alloc out (SFloat f) = eq_append_scalar alloc out (SFloat g)"
  using float_order_Equal[OF assms] by (auto simp: eq_append_scalar.simps zero_key)

lemma mixed_keys:
  "compare_i64_f64 i f = Equal \<Longrightarrow> eq_append_scalar alloc out (SFloat f) = eq_append_scalar alloc out (SInteger i)"
  by (simp add: eq_append_scalar.simps compare_i64_f64_Equal)

lemma scalar_equal_keys:
  assumes "ordered_float_law fo" "equal_values c fo (RScalar a) (RScalar b) = Inr TTrue"
  shows "eq_append_scalar alloc [] a = eq_append_scalar alloc [] b"
proof (cases "mixed_numbers a b")
  case True
  with assms(2) mixed_numbers_cases[OF True] mixed_keys show ?thesis
    by (auto simp: equal_values_def bool_truth_def split: if_splits)
next
  case False
  with assms(2) have "\<not> scalar_is_nan a" "\<not> scalar_is_nan b" "scalar_eq fo a b"
    by (auto simp: equal_values_same_kind split: if_splits)
  with float_keys[OF assms(1)] show ?thesis
    by (auto simp: scalar_eq_def scalar_is_nan_def split: ScalarValue.splits)
qed

subsection \<open>Equal values share a key\<close>

lemma truth_and_True [simp]: "truth_and a b = TTrue \<longleftrightarrow> a = TTrue \<and> b = TTrue"
  by (simp add: truth_and_def)

lemma equal_pairs_True:
  "equal_pairs c acc ps = Inr TTrue \<Longrightarrow> acc = TTrue \<and> (\<forall>(x, y) \<in> set ps. c x y = Inr TTrue)"
proof (induction c acc ps rule: equal_pairs.induct)
  case (2 c acc x y ps)
  then obtain t where t: "c x y = Inr t" by (auto simp: and_then_eq_Inr_iff)
  with "2.prems" have ne: "truth_and acc t \<noteq> TFalse" and eq: "equal_pairs c (truth_and acc t) ps = Inr TTrue"
    by (auto simp: Let_def split: if_splits)
  from "2.IH"[OF t refl ne eq] t show ?case by simp
qed simp

lemma those_cong: "list_all2 (\<lambda>x y. f x = g y) xs ys \<Longrightarrow> those (map f xs) = those (map g ys)"
  by (induction rule: list_all2_induct) (auto split: option.split)

lemma zip_pairs_list_all2:
  "length xs = length ys \<Longrightarrow> (\<forall>(x, y) \<in> set (zip xs ys). P x y) \<Longrightarrow> list_all2 P xs ys"
  by (auto simp: list_all2_iff)

lemma path_list_keys:
  "path_list_loop ns es i vs = TTrue \<Longrightarrow>
   map (path_element ns es) [i..<i + length vs] = map (value_key alloc) vs"
proof (induction ns es i vs rule: path_list_loop.induct)
  case (2 ns es i v vs)
  have u: "[i..<i + length (v # vs)] = i # [Suc i..<Suc i + length vs]" by (simp add: upt_conv_Cons del: upt_Suc)
  show ?case
  proof (cases "i mod 2 = 0")
    case True
    with "2.prems" obtain n m where n: "slice_index ns (i div 2) = Some n" "v = RNode m" "node_id m = node_id n"
      "path_list_loop ns es (Suc i) vs = TTrue"
      by (auto split: option.splits ResultValue.splits if_splits)
    with "2.IH"(1)[OF True n(1,2,3,4)] True show ?thesis
      unfolding u by (simp add: path_element_def value_key_simps)
  next
    case False
    with "2.prems" obtain n m where n: "slice_index es (i div 2) = Some n" "v = RRelationship m" "edge_id m = edge_id n"
      "path_list_loop ns es (Suc i) vs = TTrue"
      by (auto split: option.splits ResultValue.splits if_splits)
    with "2.IH"(2)[OF False n(1,2,3,4)] False show ?thesis
      unfolding u by (simp add: path_element_def value_key_simps)
  qed
qed simp

lemma path_list_equal_keys:
  assumes "path_list_equal ns es vs = TTrue"
  shows "value_key alloc (RPath ns es) = value_key alloc (RList vs)"
proof -
  have len: "length vs = saturating_add_usize (length ns) (length es)" and "path_list_loop ns es 0 vs = TTrue"
    using assms by (auto simp: path_list_equal_def split: if_splits)
  from path_list_keys[OF this(2), of alloc] show ?thesis by (simp add: value_key_simps Let_def len)
qed

lemma path_equal_keys:
  assumes "list_all2 (node_eq fo) ns ms" "list_all2 (edge_eq fo) es fs"
  shows "value_key alloc (RPath ns es) = value_key alloc (RPath ms fs)"
proof -
  have "map_option (\<lambda>n. 16 # to_be_bytes (node_id n)) (slice_index ns i) =
      map_option (\<lambda>n. 16 # to_be_bytes (node_id n)) (slice_index ms i)"
    "map_option (\<lambda>e. 17 # to_be_bytes (edge_id e)) (slice_index es i) =
      map_option (\<lambda>e. 17 # to_be_bytes (edge_id e)) (slice_index fs i)" for i
    using assms by (auto simp: slice_index_def list_all2_conv_all_nth node_eq_def edge_eq_def)
  then have "path_element ns es = path_element ms fs" by (intro ext) (simp add: path_element_def)
  moreover have "length ns = length ms" "length es = length fs" using assms by (auto dest: list_all2_lengthD)
  ultimately show ?thesis by (simp add: value_key_simps)
qed

lemma equal_values_keys:
  assumes "ordered_float_law fo" "equal_values c fo l r = Inr TTrue"
    and "\<And>x y. member_of x l \<Longrightarrow> member_of y r \<Longrightarrow> c x y = Inr TTrue \<Longrightarrow> value_key alloc x = value_key alloc y"
  shows "value_key alloc l = value_key alloc r"
proof (cases l; cases r)
  fix a b assume "l = RScalar a" "r = RScalar b"
  with scalar_equal_keys[OF assms(1), of c a b] assms(2) show ?thesis by (simp add: value_key_simps)
next
  fix a b assume lr: "l = RList a" "r = RList b"
  with assms(2) have e: "length a = length b" "equal_pairs c TTrue (zip a b) = Inr TTrue"
    by (auto simp: equal_values_def sequence_equal_def split: if_splits)
  have "value_key alloc x = value_key alloc y" if "(x, y) \<in> set (zip a b)" for x y
    using equal_pairs_True[OF e(2)] assms(3)[of x y] that lr by (auto dest: set_zip_leftD set_zip_rightD)
  then have "list_all2 (\<lambda>x y. value_key alloc x = value_key alloc y) a b"
    by (intro zip_pairs_list_all2 e(1)) auto
  then show ?thesis using lr e(1) those_cong by (fastforce simp: value_key_simps)
next
  fix a b assume lr: "l = RMap a" "r = RMap b"
  with assms(2) have e: "length a = length b" "map fst a = map fst b"
    "equal_pairs c TTrue (zip (map snd a) (map snd b)) = Inr TTrue"
    by (auto simp: equal_values_def map_equal_def split: if_splits)
  have "value_key alloc x = value_key alloc y" if "(x, y) \<in> set (zip (map snd a) (map snd b))" for x y
    using equal_pairs_True[OF e(3)] assms(3)[of x y] that lr set_zip_leftD[OF that] set_zip_rightD[OF that] by auto
  then have "list_all2 (\<lambda>x y. value_key alloc x = value_key alloc y) (map snd a) (map snd b)"
    using e(1) by (intro zip_pairs_list_all2) auto
  moreover have "list_all2 (\<lambda>x y. fst x = fst y) a b"
    using e(1,2) by (auto simp: list_all2_conv_all_nth dest: map_eq_imp_length_eq) (metis nth_map)
  ultimately have "list_all2 (\<lambda>x y. field_key alloc x = field_key alloc y) a b"
    by (auto simp: list_all2_conv_all_nth field_key_def)
  then show ?thesis using lr e(1) those_cong by (fastforce simp: value_key_simps)
next
  fix ns es ms fs assume "l = RPath ns es" "r = RPath ms fs"
  with assms(2) path_equal_keys[of fo ns ms es fs] show ?thesis
    by (auto simp: equal_values_def bool_truth_def split: if_splits)
next
  fix ns es vs assume "l = RPath ns es" "r = RList vs"
  with assms(2) path_list_equal_keys show ?thesis by (auto simp: equal_values_def)
next
  fix ns es vs assume "l = RList vs" "r = RPath ns es"
  with assms(2) path_list_equal_keys show ?thesis by (auto simp: equal_values_def)
qed (use assms(2) in \<open>auto simp: equal_values_def vector_equal_iff bool_truth_def value_key_simps split: if_splits\<close>)

lemma equal_keys:
  assumes "ordered_float_law fo"
  shows "equal fo alloc l r = Inr TTrue \<Longrightarrow> value_key alloc l = value_key alloc r"
  using assms
proof (induction fo alloc l r rule: equal.induct)
  case (1 fo alloc l r)
  note es = equal.simps[of fo alloc l r]
  have doc: "value_key alloc v = value_key alloc m" if "document_of alloc v = Some (Inr m)" for v m
    using that document_key(1)[of alloc _ m]
    by (auto simp: document_of_def value_key_simps split: ResultValue.splits if_splits)
  show ?case
  proof (cases "document_of alloc l")
    case (Some d)
    then obtain m where m: "d = Inr m" "equal fo alloc m r = Inr TTrue"
      using "1.prems" by (auto simp: es and_then_eq_Inr_iff)
    with "1.IH"(3)[OF Some m(1) m(2) "1.prems"(2)] doc[of l m] Some show ?thesis by simp
  next
    case l: None
    show ?thesis
    proof (cases "document_of alloc r")
      case (Some d)
      then obtain m where m: "d = Inr m" "equal fo alloc l m = Inr TTrue"
        using "1.prems" l by (auto simp: es and_then_eq_Inr_iff)
      with "1.IH"(2)[OF l Some m(1) m(2) "1.prems"(2)] doc[of r m] Some show ?thesis by simp
    next
      case r: None
      then have nn: "\<not> (is_null l \<or> is_null r)" and ev: "equal_values (equal fo alloc) fo l r = Inr TTrue"
        using "1.prems"(1) l by (auto simp: es split: if_splits)
      show ?thesis
        by (rule equal_values_keys[OF "1.prems"(2) ev]) (rule "1.IH"(1)[OF l r nn _ _ _ "1.prems"(2)])
    qed
  qed
qed

subsection \<open>Values with one key are equal\<close>

text \<open>
  Values for which equality is decided by content: no null, NaN, path or stored document inside, sizes a
  \<open>u64\<close> holds. A value with stored documents is judged by its opened form, in which only the documents
  that cannot be read are left.
\<close>

fun plain_scalar :: "ScalarValue \<Rightarrow> bool" where
  "plain_scalar SNull = False"
| "plain_scalar (SFloat f) = (\<not> f64_is_nan f)"
| "plain_scalar (SString s) = (length s < 2 ^ 64)"
| "plain_scalar (SBytes s) = (length s < 2 ^ 64)"
| "plain_scalar (SZonedDateTime _ _ z) = (length z < 2 ^ 64)"
| "plain_scalar (SList _) = False"
| "plain_scalar (SMap _) = False"
| "plain_scalar _ = True"

fun plain_value :: "ResultValue \<Rightarrow> bool"
  and plain_values :: "ResultValue list \<Rightarrow> bool"
  and plain_fields :: "(str \<times> ResultValue) list \<Rightarrow> bool" where
  "plain_value (RScalar s) = plain_scalar s"
| "plain_value (RNode n) = True"
| "plain_value (RRelationship r) = True"
| "plain_value (RPath ns rs) = False"
| "plain_value (RVector vs) = (length vs < 2 ^ 64)"
| "plain_value (RList vs) = (length vs < 2 ^ 64 \<and> plain_values vs)"
| "plain_value (RMap fs) = (length fs < 2 ^ 64 \<and> plain_fields fs)"
| "plain_values [] = True"
| "plain_values (v # vs) = (plain_value v \<and> plain_values vs)"
| "plain_fields [] = True"
| "plain_fields ((k, v) # fs) = (length k < 2 ^ 64 \<and> plain_value v \<and> plain_fields fs)"

lemma key_len_inject:
  assumes "m < 2 ^ 64" "n < 2 ^ 64"
  shows "key_len m @ x = key_len n @ y \<longleftrightarrow> m = n \<and> x = y"
  using assms be_length_inject [OF assms, of x y] by (simp add: key_len_def key_push_len_def)

lemma key_bytes_inject:
  assumes "length b < 2 ^ 64" "length c < 2 ^ 64"
  shows "key_push_bytes [] b @ x = key_push_bytes [] c @ y \<longleftrightarrow> b = c \<and> x = y"
  using key_len_inject[OF assms, of "b @ x" "c @ y"] unfolding key_push_bytes_def key_len_def[symmetric] by auto

lemma exact_integer_Equal:
  assumes "exactly_equivalent_integer f = Some i"
  shows "\<not> f64_is_nan f" "compare_i64_f64 i f = Equal"
proof -
  note fin = exactly_equivalent_integer_finite[OF assms]
  show "\<not> f64_is_nan f" using fin nan_not_finite by blast
  have "f64_scaled f = sint i * 2 ^ 1074" using assms by (simp only: exactly_equivalent_integer_iff[OF fin])
  then have "cmp (sint i * 2 ^ 1074) (f64_scaled f) = Equal" by (simp only: cmp_iffs)
  then show "compare_i64_f64 i f = Equal"
    unfolding compare_i64_f64_finite[OF fin] f64_real_def real_as_quotient[of "sint i" 1074] cmp_quotients[of _ _ 1074] .
qed

lemma float_order_refl: "ordered_float_law fo \<Longrightarrow> fo f f = Equal"
  by (metis cmp_ordered_float cmp_refl)

lemma exact_floats_Equal:
  assumes "ordered_float_law fo" "exactly_equivalent_integer f = Some i" "exactly_equivalent_integer g = Some i"
  shows "fo f g = Equal"
proof -
  note fin = exactly_equivalent_integer_finite[OF assms(2)] exactly_equivalent_integer_finite[OF assms(3)]
  have "f64_scaled f = f64_scaled g"
    using assms(2,3) by (simp only: exactly_equivalent_integer_iff[OF fin(1)] exactly_equivalent_integer_iff[OF fin(2)])
  then have "cmp (ordered_float f) (ordered_float g) = Equal"
    by (simp only: cmp_number_scaled ordered_float_scaled fin cmp_refl)
  then show ?thesis using cmp_ordered_float[OF assms(1)] by simp
qed

text \<open>The scalar keys by kind of scalar.\<close>

fun scalar_tag :: "ScalarValue \<Rightarrow> u8" where
  "scalar_tag SNull = 0"
| "scalar_tag (SBoolean _) = 1"
| "scalar_tag (SInteger _) = 2"
| "scalar_tag (SFloat f) = (if exactly_equivalent_integer f = None then 3 else 2)"
| "scalar_tag (SString _) = 4"
| "scalar_tag (SBytes _) = 5"
| "scalar_tag (SDate _) = 6"
| "scalar_tag (SLocalTime _) = 7"
| "scalar_tag (SZonedTime _ _) = 8"
| "scalar_tag (SLocalDateTime _ _) = 9"
| "scalar_tag (SZonedDateTime _ _ _) = 10"
| "scalar_tag (SDuration _ _ _ _) = 11"
| "scalar_tag (SList _) = 18"
| "scalar_tag (SMap _) = 20"

lemma scalar_key_tag: "\<not> is_document s \<Longrightarrow> \<exists>w. eq_append_scalar alloc [] s = scalar_tag s # w"
  by (cases s) (auto simp: eq_append_scalar.simps append_integer_def key_push_bytes_def key_push_len_def)

fun is_number :: "ScalarValue \<Rightarrow> bool" where
  "is_number (SInteger _) = True"
| "is_number (SFloat _) = True"
| "is_number _ = False"

lemma scalar_equal_refl:
  "ordered_float_law fo \<Longrightarrow> plain_scalar a \<Longrightarrow> equal_values c fo (RScalar a) (RScalar a) = Inr TTrue"
  using float_order_refl[of fo]
  by (cases a) (simp_all add: equal_values_def scalar_is_nan_def scalar_eq_def)

lemma plain_not_document: "plain_scalar a \<Longrightarrow> \<not> is_document a"
  by (cases a) simp_all

lemma content_keys_inject:
  assumes "plain_scalar a" "plain_scalar b" "\<not> is_number a" "\<not> is_number b"
    "eq_append_scalar alloc [] a @ x = eq_append_scalar alloc [] b @ y"
  shows "a = b \<and> x = y"
proof -
  have doc: "\<not> is_document a" "\<not> is_document b" using assms(1,2) plain_not_document by auto
  have "scalar_tag a = scalar_tag b"
    using scalar_key_tag[OF doc(1), of alloc] scalar_key_tag[OF doc(2), of alloc] assms(5) by auto
  then show ?thesis
    using assms key_bytes_inject
    by (cases a; cases b)
      (auto simp: eq_append_scalar.simps push_shift(2)[of "[_]"] push_shift(2)[of "_ # _"] split: if_splits)
qed

lemma number_key:
  "eq_append_scalar alloc [] (SInteger i) = 2 # to_be_bytes i"
  "exactly_equivalent_integer f = Some i \<Longrightarrow> eq_append_scalar alloc [] (SFloat f) = 2 # to_be_bytes i"
  "exactly_equivalent_integer f = None \<Longrightarrow> \<not> f64_is_nan f \<Longrightarrow> eq_append_scalar alloc [] (SFloat f) = 3 # to_be_bytes f"
  using zero_key[of f] by (auto simp: eq_append_scalar.simps append_integer_def canonical_key_bits_def)

lemma number_keys_equal:
  assumes "ordered_float_law fo" "plain_scalar a" "plain_scalar b" "is_number a" "is_number b"
    "eq_append_scalar alloc [] a @ x = eq_append_scalar alloc [] b @ y"
  shows "equal_values c fo (RScalar a) (RScalar b) = Inr TTrue \<and> x = y"
proof -
  have fam: "scalar_family (SFloat f) = scalar_family (SFloat g)" for f g by (simp add: scalar_family_def)
  consider i j where "a = SInteger i" "b = SInteger j" | i f where "a = SInteger i" "b = SFloat f"
    | f i where "a = SFloat f" "b = SInteger i" | f g where "a = SFloat f" "b = SFloat g"
    using assms(4,5) by (cases a; cases b) auto
  then show ?thesis
  proof cases
    case 1
    then show ?thesis using assms(6) scalar_equal_refl[OF assms(1), of a c] by (auto simp: number_key(1))
  next
    case 2
    then show ?thesis using assms(3,6) exact_integer_Equal[of f]
      by (cases "exactly_equivalent_integer f") (auto simp: number_key equal_values_def bool_truth_def)
  next
    case 3
    then show ?thesis using assms(2,6) exact_integer_Equal[of f]
      by (cases "exactly_equivalent_integer f") (auto simp: number_key equal_values_def bool_truth_def)
  next
    case 4
    then have "fo f g = Equal \<and> x = y"
      using assms(2,3,6) exact_floats_Equal[OF assms(1), of f] float_order_refl[OF assms(1)]
      by (cases "exactly_equivalent_integer f"; cases "exactly_equivalent_integer g") (auto simp: number_key)
    with 4 assms(2,3) show ?thesis by (simp add: equal_values_def scalar_is_nan_def scalar_eq_def fam)
  qed
qed

lemma scalar_keys_equal:
  assumes "ordered_float_law fo" "plain_scalar a" "plain_scalar b"
    "eq_append_scalar alloc [] a @ x = eq_append_scalar alloc [] b @ y"
  shows "equal_values c fo (RScalar a) (RScalar b) = Inr TTrue \<and> x = y"
proof (cases "is_number a = is_number b")
  case True
  then show ?thesis
    using number_keys_equal[OF assms(1-3) _ _ assms(4)] content_keys_inject[OF assms(2,3) _ _ assms(4)]
      scalar_equal_refl[OF assms(1,2)] by (cases "is_number a") auto
next
  case False
  have doc: "\<not> is_document a" "\<not> is_document b" using assms(2,3) plain_not_document by auto
  have "scalar_tag a = scalar_tag b"
    using scalar_key_tag[OF doc(1), of alloc] scalar_key_tag[OF doc(2), of alloc] assms(4) by auto
  with False assms(2,3) show ?thesis by (cases a; cases b) (auto split: if_splits)
qed

fun value_tag :: "ResultValue \<Rightarrow> u8" where
  "value_tag (RScalar s) = scalar_tag s"
| "value_tag (RNode _) = 16"
| "value_tag (RRelationship _) = 17"
| "value_tag (RPath _ _) = 18"
| "value_tag (RVector _) = 19"
| "value_tag (RList _) = 18"
| "value_tag (RMap _) = 20"

lemma value_key_tag: "plain_value v \<Longrightarrow> value_key alloc v = Some k \<Longrightarrow> \<exists>w. k = value_tag v # w"
  using scalar_key_tag[OF plain_not_document, of _ alloc] by (cases v) (auto simp: value_key_simps)

lemma plain_scalar_tag:
  "plain_scalar s \<Longrightarrow> scalar_tag s \<notin> {16, 17, 18, 19, 20}"
  by (cases s) auto

lemma plain_equal:
  "plain_value l \<Longrightarrow> plain_value r \<Longrightarrow> equal fo alloc l r = equal_values (equal fo alloc) fo l r"
  using equal.simps[of fo alloc l r] by (auto simp: document_of_def is_null_def plain_not_document split: ResultValue.splits)

lemma those_Cons_Some: "those (x # xs) = Some ks \<longleftrightarrow> (\<exists>k ks'. x = Some k \<and> those xs = Some ks' \<and> ks = k # ks')"
  by (auto split: option.splits)

lemma truth_and_TTrue [simp]: "truth_and TTrue t = t"
  by (cases t) (simp_all add: truth_and_def)

lemma words_inject:
  "length vs = length ws \<Longrightarrow> concat (map to_be_bytes (vs :: u32 list)) @ x = concat (map to_be_bytes ws) @ y
     \<longleftrightarrow> vs = ws \<and> x = y"
  by (induction vs ws rule: list_induct2) auto

lemma keys_equal:
  assumes "ordered_float_law fo"
  shows "plain_value l \<Longrightarrow> plain_value r \<Longrightarrow> value_key alloc l = Some k \<Longrightarrow> value_key alloc r = Some k' \<Longrightarrow>
      k @ x = k' @ y \<Longrightarrow> equal fo alloc l r = Inr TTrue \<and> x = y"
    and "plain_values vs \<Longrightarrow> plain_values ws \<Longrightarrow> length vs = length ws \<Longrightarrow>
      those (map (value_key alloc) vs) = Some ks \<Longrightarrow> those (map (value_key alloc) ws) = Some ks' \<Longrightarrow>
      concat ks @ x = concat ks' @ y \<Longrightarrow> equal_pairs (equal fo alloc) TTrue (zip vs ws) = Inr TTrue \<and> x = y"
    and "plain_fields fs \<Longrightarrow> plain_fields gs \<Longrightarrow> length fs = length gs \<Longrightarrow>
      those (map (field_key alloc) fs) = Some ks \<Longrightarrow> those (map (field_key alloc) gs) = Some ks' \<Longrightarrow>
      concat ks @ x = concat ks' @ y \<Longrightarrow> map fst fs = map fst gs \<and>
      equal_pairs (equal fo alloc) TTrue (zip (map snd fs) (map snd gs)) = Inr TTrue \<and> x = y"
proof (induction l and vs and fs arbitrary: r k k' x y and ws ks ks' x y and gs ks ks' x y
    rule: plain_value_plain_values_plain_fields.induct)
  case (1 s)
  then obtain t where r: "r = RScalar t"
    using value_key_tag[of "RScalar s" alloc k] value_key_tag[of r alloc k'] plain_scalar_tag[of s]
    by (cases r) auto
  have "eq_append_scalar alloc [] s @ x = eq_append_scalar alloc [] t @ y"
    using "1.prems" r by (simp add: value_key_simps)
  with scalar_keys_equal[OF assms, of s t] "1.prems"(1,2) r show ?case by (simp add: plain_equal)
next
  case (2 n)
  then obtain m where r: "r = RNode m"
    using value_key_tag[of r alloc k'] plain_scalar_tag by (cases r) (fastforce simp: value_key_simps)+
  with "2.prems" show ?case by (auto simp: value_key_simps plain_equal equal_values_def bool_truth_def)
next
  case (3 e)
  then obtain f where r: "r = RRelationship f"
    using value_key_tag[of r alloc k'] plain_scalar_tag by (cases r) (fastforce simp: value_key_simps)+
  with "3.prems" show ?case by (auto simp: value_key_simps plain_equal equal_values_def bool_truth_def)
next
  case (5 vs)
  then obtain ws where r: "r = RVector ws"
    using value_key_tag[of r alloc k'] plain_scalar_tag by (cases r) (fastforce simp: value_key_simps)+
  with "5.prems" show ?case
    by (auto simp: value_key_simps key_len_inject words_inject plain_equal equal_values_def bool_truth_def vector_equal_iff)
next
  case (6 vs)
  then obtain ws where r: "r = RList ws"
    using value_key_tag[of r alloc k'] plain_scalar_tag by (cases r) (fastforce simp: value_key_simps)+
  from "6.prems" r have sizes: "length vs < 2 ^ 64" "length ws < 2 ^ 64" by simp_all
  from "6.prems" r obtain ks ks' where ks: "those (map (value_key alloc) vs) = Some ks"
    "those (map (value_key alloc) ws) = Some ks'"
    "key_len (length vs) @ concat ks @ x = key_len (length ws) @ concat ks' @ y"
    by (auto simp: value_key_simps)
  then have "length vs = length ws" "concat ks @ x = concat ks' @ y" using key_len_inject[OF sizes] by auto
  with "6.IH"[of ws ks ks' x y] "6.prems"(1,2) ks r show ?case
    by (simp add: plain_equal equal_values_def sequence_equal_def)
next
  case (7 fs)
  then obtain gs where r: "r = RMap gs"
    using value_key_tag[of r alloc k'] plain_scalar_tag by (cases r) (fastforce simp: value_key_simps)+
  from "7.prems" r have sizes: "length fs < 2 ^ 64" "length gs < 2 ^ 64" by simp_all
  from "7.prems" r obtain ks ks' where ks: "those (map (field_key alloc) fs) = Some ks"
    "those (map (field_key alloc) gs) = Some ks'"
    "key_len (length fs) @ concat ks @ x = key_len (length gs) @ concat ks' @ y"
    by (auto simp: value_key_simps)
  then have "length fs = length gs" "concat ks @ x = concat ks' @ y" using key_len_inject[OF sizes] by auto
  with "7.IH"[of gs ks ks' x y] "7.prems"(1,2) ks r show ?case
    by (simp add: plain_equal equal_values_def map_equal_def)
next
  case (9 v vs)
  then obtain w us where ws: "ws = w # us" by (cases ws) auto
  from "9.prems"(4,5) obtain k k' js js' where k: "value_key alloc v = Some k" "value_key alloc w = Some k'"
    "those (map (value_key alloc) vs) = Some js" "those (map (value_key alloc) us) = Some js'" "ks = k # js" "ks' = k' # js'"
    unfolding ws list.map those_Cons_Some by blast
  have "equal fo alloc v w = Inr TTrue \<and> concat js @ x = concat js' @ y"
    using "9.IH"(1)[of w k k' "concat js @ x" "concat js' @ y"] "9.prems"(1,2,6) k ws by simp
  with "9.IH"(2)[of us js js' x y] "9.prems"(1-3) k ws show ?case by (simp add: Let_def)
next
  case (11 n v fs)
  then obtain m w us where gs: "gs = (m, w) # us" by (cases gs) auto
  from "11.prems"(4,5) obtain k k' js js' where k: "value_key alloc v = Some k" "value_key alloc w = Some k'"
    "those (map (field_key alloc) fs) = Some js" "those (map (field_key alloc) us) = Some js'"
    "ks = (key_push_bytes [] n @ k) # js" "ks' = (key_push_bytes [] m @ k') # js'"
    unfolding gs list.map those_Cons_Some by (auto simp: field_key_def)
  have "n = m \<and> k @ concat js @ x = k' @ concat js' @ y"
    using key_bytes_inject[of n m] "11.prems"(1,2,6) k gs by simp
  moreover from this have "equal fo alloc v w = Inr TTrue \<and> concat js @ x = concat js' @ y"
    using "11.IH"(1)[of w k k' "concat js @ x" "concat js' @ y"] "11.prems"(1,2) k gs by simp
  ultimately show ?case using "11.IH"(2)[of us js js' x y] "11.prems"(1-3) k gs by (simp add: Let_def)
qed simp_all

lemma plain_key:
  "plain_value v \<Longrightarrow> \<exists>k. value_key alloc v = Some k"
  "plain_values vs \<Longrightarrow> \<exists>ks. those (map (value_key alloc) vs) = Some ks"
  "plain_fields fs \<Longrightarrow> \<exists>ks. those (map (field_key alloc) fs) = Some ks"
  by (induction v and vs and fs rule: plain_value_plain_values_plain_fields.induct)
    (auto simp: value_key_simps field_key_def)

subsection \<open>Opening stored documents\<close>

lemma opened_key: "value_key alloc (opened alloc v) = value_key alloc v"
  and opened_values_key: "map (value_key alloc) (opened_values alloc vs) = map (value_key alloc) vs"
  and opened_fields_key: "map (field_key alloc) (opened_fields alloc fs) = map (field_key alloc) fs"
proof (induction v and vs and fs rule: value_docs_values_docs_fields_docs.induct)
  case (1 s)
  show ?case using document_key(1)[of alloc s] by (cases "from_property alloc s") (simp_all add: value_key_simps)
next
  case (6 vs)
  then have "value_key alloc (RList (opened_values alloc vs)) = value_key alloc (RList vs)"
    unfolding value_key_simps by (simp only:) (simp add: opened_lists)
  then show ?case by simp
next
  case (7 fs)
  then have "value_key alloc (RMap (opened_fields alloc fs)) = value_key alloc (RMap fs)"
    unfolding value_key_simps by (simp only:) (simp add: opened_lists)
  then show ?case by simp
next
  case (11 k v fs)
  then show ?case by (simp add: field_key_def)
qed simp_all

lemma document_of_opened: "document_of alloc v = Some (Inr m) \<Longrightarrow> opened alloc v = m \<and> opened alloc m = m"
  using materialised_no_docs(1)[of alloc _ m] opened_plain(1)[of m]
  by (auto simp: document_of_def split: ResultValue.splits if_splits)

lemma document_of_unreadable: "document_of alloc v = Some (Inl e) \<Longrightarrow> \<not> plain_value (opened alloc v)"
  by (auto simp: document_of_def plain_not_document split: ResultValue.splits if_splits dest: plain_not_document)

lemma document_of_None: "document_of alloc (RScalar s) = None \<longleftrightarrow> \<not> is_document s"
  by (simp add: document_of_def)

lemma equal_pairs_map:
  "(\<And>x y. (x, y) \<in> set (zip xs ys) \<Longrightarrow> c (f x) (f y) = c x y) \<Longrightarrow>
   equal_pairs c acc (zip (map f xs) (map f ys)) = equal_pairs c acc (zip xs ys)"
proof (induction xs ys arbitrary: acc rule: list_induct2')
  case (4 x xs y ys)
  then have "c (f x) (f y) = c x y" by simp
  moreover have "equal_pairs c a (zip (map f xs) (map f ys)) = equal_pairs c a (zip xs ys)" for a
    by (rule "4.IH") (use "4.prems" in simp)
  ultimately show ?case by (simp add: Let_def cong: if_cong)
qed simp_all

lemma plain_members:
  "plain_values vs \<longleftrightarrow> (\<forall>v \<in> set vs. plain_value v)"
  "plain_fields fs \<Longrightarrow> (k, v) \<in> set fs \<Longrightarrow> plain_value v"
  by (induction vs) (simp_all, induction fs, auto)

lemma plain_member_opened:
  "plain_value (opened alloc v) \<Longrightarrow> member_of x v \<Longrightarrow> plain_value (opened alloc x)"
  by (cases v) (auto simp: opened_lists plain_members dest!: plain_members(2))

text \<open>Equality of values does not depend on which of their documents are open.\<close>

lemma equal_values_opened:
  assumes "document_of alloc l = None" "document_of alloc r = None"
    and "plain_value (opened alloc l)" "plain_value (opened alloc r)"
    and "\<And>x y. member_of x l \<Longrightarrow> member_of y r \<Longrightarrow> c (opened alloc x) (opened alloc y) = c x y"
  shows "equal_values c fo (opened alloc l) (opened alloc r) = equal_values c fo l r"
proof (cases l; cases r)
  fix a b assume lr: "l = RList a" "r = RList b"
  have "equal_pairs c TTrue (zip (map (opened alloc) a) (map (opened alloc) b)) = equal_pairs c TTrue (zip a b)"
    by (rule equal_pairs_map, rule assms(5)) (auto simp: lr dest: set_zip_leftD set_zip_rightD)
  with lr show ?thesis by (simp add: equal_values_def sequence_equal_def opened_lists)
next
  fix a b assume lr: "l = RMap a" "r = RMap b"
  let ?f = "\<lambda>(k, v). (k, opened alloc v)"
  have fs: "map fst (map ?f xs) = map fst xs" "map snd (map ?f xs) = map (opened alloc) (map snd xs)"
    for xs :: "(str \<times> ResultValue) list" by auto
  have "equal_pairs c TTrue (zip (map (opened alloc) (map snd a)) (map (opened alloc) (map snd b))) =
      equal_pairs c TTrue (zip (map snd a) (map snd b))"
    by (rule equal_pairs_map, rule assms(5)) (use lr in \<open>metis member_of.simps(2) set_zip_leftD set_zip_rightD set_map\<close>)+
  with lr show ?thesis by (simp only: opened.simps equal_values_def opened_lists prod.case ResultValue.case map_equal_def fs length_map)
next
  fix a b assume "l = RScalar a" "r = RScalar b"
  with assms(1,2) show ?thesis by (simp add: document_of_None)
qed (use assms(1-4) in \<open>simp_all add: document_of_None equal_values_def\<close>)

lemma equal_opened:
  "plain_value (opened alloc l) \<Longrightarrow> plain_value (opened alloc r) \<Longrightarrow>
   equal fo alloc (opened alloc l) (opened alloc r) = equal fo alloc l r"
proof (induction fo alloc l r rule: equal.induct)
  case (1 fo alloc l r)
  note es = equal.simps[of fo alloc l r]
  show ?case
  proof (cases "document_of alloc l")
    case (Some d)
    with document_of_unreadable "1.prems"(1) obtain m where m: "d = Inr m" by (cases d) auto
    with "1.IH"(3)[OF Some m] "1.prems" document_of_opened[of alloc l m] Some show ?thesis by (simp add: es)
  next
    case l: None
    show ?thesis
    proof (cases "document_of alloc r")
      case (Some d)
      with document_of_unreadable "1.prems"(2) obtain m where m: "d = Inr m" by (cases d) auto
      with "1.IH"(2)[OF l Some m] "1.prems" document_of_opened[of alloc r m] l Some show ?thesis by (simp add: es)
    next
      case r: None
      have nn: "\<not> (is_null l \<or> is_null r)"
        using "1.prems" by (auto simp: is_null_def split: ResultValue.splits ScalarValue.splits)
      have "equal_values (equal fo alloc) fo (opened alloc l) (opened alloc r) = equal_values (equal fo alloc) fo l r"
        using equal_values_opened[OF l r "1.prems"] "1.IH"(1)[OF l r nn] plain_member_opened "1.prems" by blast
      with l r nn show ?thesis by (simp add: plain_equal[OF "1.prems"] es)
    qed
  qed
qed

section \<open>Properties\<close>

text \<open>
  C16. Grouping respects equality. Two values that the equality predicate declares equal get the same
  grouping key, across an integer and an equal float, a path and its alternating list, a stored
  document and its materialised value.
\<close>

theorem equal_values_share_key:
  assumes "ordered_float_law fo" "equal fo alloc l r = Ok TTrue"
  shows "value_key alloc l = value_key alloc r"
  using equal_keys[OF assms] .

lemma negative_zero_integer: "exactly_equivalent_integer 0x8000000000000000 = Some 0"
  by (rule zero_key) code_simp

lemma zero_equal_float:
  "equal fo alloc (RScalar (SInteger 0)) (RScalar (SFloat 0x8000000000000000)) = Ok TTrue"
  using exact_integer_Equal[OF negative_zero_integer] plain_equal[of "RScalar (SInteger 0)" "RScalar (SFloat 0x8000000000000000)" fo alloc]
  by (simp add: equal_values_def bool_truth_def)

theorem equal_values_share_key_witness:
  "value_key (\<lambda>_. True) (RScalar (SInteger 0)) = value_key (\<lambda>_. True) (RScalar (SFloat 0x8000000000000000))"
  by (rule equal_values_share_key[OF reference_float_order_law zero_equal_float])

text \<open>
  C17. The grouping key decides equality of values whose stored documents can be read and that hold no
  null, NaN or path, inside the documents either: building the key never panics, and two such values
  have one key exactly when the equality predicate holds, a document and an open list or map included.
\<close>

theorem value_key_decides_equality:
  assumes "ordered_float_law fo" "plain_value (opened alloc l)" "plain_value (opened alloc r)"
  shows "value_key alloc l \<noteq> None \<and> (value_key alloc l = value_key alloc r \<longleftrightarrow> equal fo alloc l r = Ok TTrue)"
proof -
  obtain k where k: "value_key alloc l = Some k" using plain_key(1)[OF assms(2)] opened_key by metis
  have "equal fo alloc (opened alloc l) (opened alloc r) = Ok TTrue" if "value_key alloc l = value_key alloc r"
    by (rule keys_equal(1)[OF assms, of alloc k k "[]" "[]", THEN conjunct1]) (use that k in \<open>simp_all add: opened_key\<close>)
  with k equal_keys[OF assms(1), of alloc l r] equal_opened[OF assms(2,3), of fo] show ?thesis by auto
qed

theorem value_key_decides_equality_witness:
  "value_key (\<lambda>_. True) (RList [RScalar (SInteger 1)]) \<noteq> value_key (\<lambda>_. True) (RList [RScalar (SInteger 2)]) \<and>
   equal reference_float_order (\<lambda>_. True) (RList [RScalar (SBoolean True)])
     (RScalar (SList [3, 13, 1, 0, 0, 0, 0, 0, 0, 0, 2])) = Ok TTrue"
proof
  have "equal reference_float_order (\<lambda>_. True) (RList [RScalar (SInteger 1)]) (RList [RScalar (SInteger 2)]) = Ok TFalse"
    by code_simp
  then show "value_key (\<lambda>_. True) (RList [RScalar (SInteger 1)]) \<noteq> value_key (\<lambda>_. True) (RList [RScalar (SInteger 2)])"
    using value_key_decides_equality[OF reference_float_order_law, of "\<lambda>_. True" "RList [RScalar (SInteger 1)]"
        "RList [RScalar (SInteger 2)]"] by simp
  let ?d = "RScalar (SList [3, 13, 1, 0, 0, 0, 0, 0, 0, 0, 2])"
  have o: "opened (\<lambda>_. True) ?d = RList [RScalar (SBoolean True)]" by code_simp
  have "value_key (\<lambda>_. True) (RList [RScalar (SBoolean True)]) = value_key (\<lambda>_. True) ?d" by code_simp
  with o show "equal reference_float_order (\<lambda>_. True) (RList [RScalar (SBoolean True)]) ?d = Ok TTrue"
    using value_key_decides_equality[OF reference_float_order_law, of "\<lambda>_. True" "RList [RScalar (SBoolean True)]" ?d]
    by simp
qed

end
