(* ===== verification/Admission.thy ===== *)
theory Admission
  imports Prelude
begin

text \<open>
  Write admission, \<^verbatim>\<open>crates/storage/src/admission.rs\<close>: the controller that bounds the number and the
  encoded bytes of the writes in flight, with a share per connection and a reserve for control work.

  The controller and its permits share one mutex-protected state, so every operation is atomic: the
  model passes the state explicitly, and a run of the system is a sequence of steps, each the
  admission of a request or the release of a live permit. \<open>usize\<close> counters are naturals below
  \<open>2 ^ 64\<close>; \<open>Instant\<close> values are ticks of a monotonic clock.
\<close>

section \<open>The controller\<close>

type_synonym ConnectionId = u64

text \<open>\<open>Uuid::new_v4\<close> is a stream of 16-byte draws; running out of draws is not returning.\<close>

definition uuid_prefix :: "bytes \<Rightarrow> u64" where
  "uuid_prefix bs = (if length (take 8 bs) = 8 then word_rcat (take 8 bs) else 0)"

fun connection_id_new :: "bytes list \<Rightarrow> (ConnectionId \<times> bytes list) option" where
  "connection_id_new [] = None"
| "connection_id_new (draw # draws) =
     (let v = uuid_prefix draw in if v \<noteq> 0 then Some (v, draws) else connection_id_new draws)"

definition is_valid :: "ConnectionId \<Rightarrow> bool" where
  "is_valid c \<longleftrightarrow> c \<noteq> 0"

datatype AdmissionClass = Client | Broker | Control | Cancellation

fun is_control :: "AdmissionClass \<Rightarrow> bool" where
  "is_control Client = False"
| "is_control Broker = False"
| "is_control Control = True"
| "is_control Cancellation = True"

record AdmissionLimits =
  max_requests :: nat
  max_encoded_bytes :: nat
  reserved_control_requests :: nat
  reserved_control_bytes :: nat
  max_requests_per_connection :: nat
  max_encoded_bytes_per_connection :: nat
  retry_after_ms :: u64

record ConnectionUsage =
  usage_requests :: nat
  usage_bytes :: nat

definition default_usage :: ConnectionUsage where
  "default_usage = \<lparr>usage_requests = 0, usage_bytes = 0\<rparr>"

record AdmissionState =
  adm_requests :: nat
  adm_bytes :: nat
  adm_connections :: "ConnectionId \<rightharpoonup> ConnectionUsage"

definition default_state :: AdmissionState where
  "default_state = \<lparr>adm_requests = 0, adm_bytes = 0, adm_connections = Map.empty\<rparr>"

text \<open>The limits and the contents of the shared \<open>Arc<Mutex<AdmissionState>>\<close>.\<close>

record AdmissionController =
  ctl_limits :: "AdmissionLimits option"
  ctl_state :: AdmissionState

text \<open>A permit's \<open>state\<close> field is the controller's cell, passed as an argument below.\<close>

record AdmissionPermit =
  permit_connection :: ConnectionId
  permit_bytes :: nat
  permit_released :: bool

definition controller_new :: "AdmissionLimits \<Rightarrow> AdmissionController result" where
  "controller_new l =
     (if max_requests l = 0 \<or> max_encoded_bytes l = 0 \<or> max_requests_per_connection l = 0 \<or>
         max_encoded_bytes_per_connection l = 0 \<or>
         max_encoded_bytes_per_connection l > max_encoded_bytes l \<or>
         reserved_control_requests l \<ge> max_requests l \<or>
         reserved_control_bytes l \<ge> max_encoded_bytes l
      then Err (invalid_data ''invalid write-admission limits'')
      else Ok \<lparr>ctl_limits = Some l, ctl_state = default_state\<rparr>)"

definition unrestricted :: AdmissionController where
  "unrestricted = \<lparr>ctl_limits = None, ctl_state = default_state\<rparr>"

text \<open>\<open>Option::is_some_and\<close> on the optional limits.\<close>

definition limits_and :: "AdmissionController \<Rightarrow> (AdmissionLimits \<Rightarrow> bool) \<Rightarrow> bool" where
  "limits_and c P = (case ctl_limits c of None \<Rightarrow> False | Some l \<Rightarrow> P l)"

definition full_error :: "AdmissionController \<Rightarrow> string \<Rightarrow> Error" where
  "full_error c m = retryable_error WriteAdmissionFull m (map_option retry_after_ms (ctl_limits c))"

definition over_capacity :: "AdmissionClass \<Rightarrow> nat \<Rightarrow> nat \<Rightarrow> AdmissionLimits \<Rightarrow> bool" where
  "over_capacity cls next_requests next_bytes l =
     (let request_limit = if is_control cls then max_requests l
                          else max_requests l - reserved_control_requests l;
          byte_limit = if is_control cls then max_encoded_bytes l
                       else max_encoded_bytes l - reserved_control_bytes l
      in next_requests > request_limit \<or> next_bytes > byte_limit)"

text \<open>
  The part of an admission under the lock. The two counters are stored before the connection's byte
  counter is computed, so the last overflow check would leave them incremented.
\<close>

definition admit_locked ::
  "AdmissionController \<Rightarrow> ConnectionId \<Rightarrow> AdmissionClass \<Rightarrow> nat \<Rightarrow> AdmissionController \<times> AdmissionPermit result" where
  "admit_locked c connection cls encoded_bytes =
     (let st = ctl_state c;
          usage = (case adm_connections st connection of None \<Rightarrow> default_usage | Some u \<Rightarrow> u) in
      if \<not> is_control cls \<and> limits_and c (\<lambda>l. usage_requests usage \<ge> max_requests_per_connection l)
      then (c, Err (full_error c ''connection write-admission share is full''))
      else if \<not> is_control cls \<and>
         (case checked_add_usize (usage_bytes usage) encoded_bytes of
            None \<Rightarrow> True
          | Some b \<Rightarrow> limits_and c (\<lambda>l. b > max_encoded_bytes_per_connection l))
      then (c, Err (full_error c ''connection write-admission byte share is full''))
      else (case checked_add_usize (adm_requests st) 1 of
          None \<Rightarrow> (c, Err (internal_error ''write-admission request count overflow''))
        | Some next_requests \<Rightarrow> (case checked_add_usize (adm_bytes st) encoded_bytes of
            None \<Rightarrow> (c, Err (internal_error ''write-admission byte count overflow''))
          | Some next_bytes \<Rightarrow>
              if limits_and c (over_capacity cls next_requests next_bytes)
              then (c, Err (full_error c ''write-admission capacity is full''))
              else let st = st\<lparr>adm_requests := next_requests, adm_bytes := next_bytes\<rparr> in
                (case checked_add_usize (usage_bytes usage) encoded_bytes of
                   None \<Rightarrow> (c\<lparr>ctl_state := st\<rparr>, Err (internal_error ''connection byte accounting overflow''))
                 | Some b \<Rightarrow>
                    (c\<lparr>ctl_state := st\<lparr>adm_connections := (adm_connections st)(connection \<mapsto>
                         \<lparr>usage_requests = (usage_requests usage + 1) mod usize_limit, usage_bytes = b\<rparr>)\<rparr>\<rparr>,
                     Ok \<lparr>permit_connection = connection, permit_bytes = encoded_bytes, permit_released = False\<rparr>)))))"

definition try_admit_until ::
  "AdmissionController \<Rightarrow> nat \<Rightarrow> ConnectionId \<Rightarrow> AdmissionClass \<Rightarrow> nat \<Rightarrow> nat option \<Rightarrow>
   AdmissionController \<times> AdmissionPermit result" where
  "try_admit_until c now connection cls encoded_bytes deadline =
     (if (case deadline of None \<Rightarrow> False | Some d \<Rightarrow> now \<ge> d)
      then (c, Err (retryable_error DeadlineExceeded ''write deadline expired before admission'' None))
      else if encoded_bytes = 0 \<or> limits_and c (\<lambda>l. encoded_bytes > max_encoded_bytes l)
      then (c, Err (invalid_data ''invalid admitted mutation byte size''))
      else if \<not> is_valid connection
      then (c, Err (invalid_data ''write admission requires a connection identity''))
      else admit_locked c connection cls encoded_bytes)"

definition try_admit ::
  "AdmissionController \<Rightarrow> nat \<Rightarrow> ConnectionId \<Rightarrow> AdmissionClass \<Rightarrow> nat \<Rightarrow> nat \<Rightarrow>
   AdmissionController \<times> AdmissionPermit result" where
  "try_admit c now connection cls encoded_bytes deadline =
     try_admit_until c now connection cls encoded_bytes (Some deadline)"

definition adm_usage :: "AdmissionController \<Rightarrow> nat \<times> nat" where
  "adm_usage c = (adm_requests (ctl_state c), adm_bytes (ctl_state c))"

definition maximum_encoded_bytes :: "AdmissionController \<Rightarrow> nat" where
  "maximum_encoded_bytes c = (case ctl_limits c of Some l \<Rightarrow> max_encoded_bytes l | None \<Rightarrow> usize_limit - 1)"

text \<open>Releasing a permit; natural subtraction is \<open>saturating_sub\<close>.\<close>

definition release_inner :: "AdmissionPermit \<Rightarrow> AdmissionController \<Rightarrow> AdmissionPermit \<times> AdmissionController" where
  "release_inner p c =
     (if permit_released p then (p, c)
      else let st = ctl_state c;
               st = st\<lparr>adm_requests := adm_requests st - 1, adm_bytes := adm_bytes st - permit_bytes p\<rparr>;
               st = (case adm_connections st (permit_connection p) of
                       Some u \<Rightarrow>
                         let u = \<lparr>usage_requests = usage_requests u - 1, usage_bytes = usage_bytes u - permit_bytes p\<rparr>
                         in st\<lparr>adm_connections := (adm_connections st)
                              (permit_connection p := if usage_requests u = 0 then None else Some u)\<rparr>
                     | None \<Rightarrow> st)
           in (p\<lparr>permit_released := True\<rparr>, c\<lparr>ctl_state := st\<rparr>))"

definition permit_drop :: "AdmissionPermit \<Rightarrow> AdmissionController \<Rightarrow> AdmissionController" where
  "permit_drop p c = snd (release_inner p c)"

text \<open>\<open>release\<close> takes the permit by value, so the permit is dropped when it returns.\<close>

definition permit_release :: "AdmissionPermit \<Rightarrow> AdmissionController \<Rightarrow> AdmissionController" where
  "permit_release p c = (case release_inner p c of (p, c) \<Rightarrow> permit_drop p c)"

lemma permit_release_once [simp]: "permit_release p c = permit_drop p c"
  by (simp add: permit_release_def permit_drop_def release_inner_def Let_def split: prod.split)

section \<open>Runs of the controller\<close>

text \<open>A live permit with the class it was admitted under.\<close>

type_synonym live_permit = "AdmissionPermit \<times> AdmissionClass"

inductive admission_step ::
  "AdmissionController \<times> live_permit list \<Rightarrow> AdmissionController \<times> live_permit list \<Rightarrow> bool" where
  admit: "try_admit_until c now conn cls n dl = (c', Ok p) \<Longrightarrow> admission_step (c, live) (c', (p, cls) # live)"
| refuse: "try_admit_until c now conn cls n dl = (c', Err e) \<Longrightarrow> admission_step (c, live) (c', live)"
| release: "admission_step (c, xs @ (p, cls) # ys) (permit_release p c, xs @ ys)"

inductive admission_run :: "AdmissionController \<Rightarrow> live_permit list \<Rightarrow> bool" where
  start: "controller_new l = Ok c \<Longrightarrow> admission_run c []"
| start_unrestricted: "admission_run unrestricted []"
| step: "admission_run c live \<Longrightarrow> admission_step (c, live) (c', live') \<Longrightarrow> admission_run c' live'"

definition live_bytes :: "live_permit list \<Rightarrow> nat" where
  "live_bytes ps = sum_list (map (permit_bytes \<circ> fst) ps)"

definition held_by :: "ConnectionId \<Rightarrow> live_permit list \<Rightarrow> live_permit list" where
  "held_by conn ps = filter (\<lambda>(p, _). permit_connection p = conn) ps"

definition ordinary :: "live_permit list \<Rightarrow> live_permit list" where
  "ordinary ps = filter (\<lambda>(_, cls). \<not> is_control cls) ps"

definition controlling :: "live_permit list \<Rightarrow> live_permit list" where
  "controlling ps = filter (\<lambda>(_, cls). is_control cls) ps"

text \<open>What the connection table must hold for a connection.\<close>

definition usage_of :: "live_permit list \<Rightarrow> ConnectionUsage option" where
  "usage_of ps = (if ps = [] then None else Some \<lparr>usage_requests = length ps, usage_bytes = live_bytes ps\<rparr>)"

definition accounted :: "AdmissionController \<Rightarrow> live_permit list \<Rightarrow> bool" where
  "accounted c live \<longleftrightarrow>
     adm_requests (ctl_state c) = length live \<and> adm_bytes (ctl_state c) = live_bytes live \<and>
     adm_connections (ctl_state c) = (\<lambda>conn. usage_of (held_by conn live))"

definition within_limits :: "AdmissionLimits \<Rightarrow> live_permit list \<Rightarrow> bool" where
  "within_limits l live \<longleftrightarrow> length live \<le> max_requests l \<and> live_bytes live \<le> max_encoded_bytes l"

definition reserve_kept :: "AdmissionLimits \<Rightarrow> live_permit list \<Rightarrow> bool" where
  "reserve_kept l live \<longleftrightarrow>
     length (ordinary live) + reserved_control_requests l \<le> max_requests l \<and>
     live_bytes (ordinary live) + reserved_control_bytes l \<le> max_encoded_bytes l"

definition fair_shares :: "AdmissionLimits \<Rightarrow> live_permit list \<Rightarrow> bool" where
  "fair_shares l live \<longleftrightarrow>
     (\<forall>conn. length (ordinary (held_by conn live)) \<le> max_requests_per_connection l \<and>
             live_bytes (ordinary (held_by conn live)) \<le> max_encoded_bytes_per_connection l)"

definition admission_inv :: "AdmissionController \<Rightarrow> live_permit list \<Rightarrow> bool" where
  "admission_inv c live \<longleftrightarrow>
     accounted c live \<and> length live < usize_limit \<and> live_bytes live < usize_limit \<and>
     (\<forall>(p, _) \<in> set live. \<not> permit_released p \<and> 0 < permit_bytes p) \<and>
     (\<forall>l. ctl_limits c = Some l \<longrightarrow> within_limits l live \<and> reserve_kept l live \<and> fair_shares l live)"

definition limits_valid :: "AdmissionController \<Rightarrow> bool" where
  "limits_valid c \<longleftrightarrow> (\<forall>l. ctl_limits c = Some l \<longrightarrow>
     reserved_control_requests l < max_requests l \<and> reserved_control_bytes l < max_encoded_bytes l)"

lemma live_simps [simp]:
  "live_bytes [] = 0" "live_bytes (q # ps) = permit_bytes (fst q) + live_bytes ps"
  "live_bytes (ps @ qs) = live_bytes ps + live_bytes qs"
  "held_by conn [] = []" "held_by conn (ps @ qs) = held_by conn ps @ held_by conn qs"
  "held_by conn ((p, cls) # ps) = (if permit_connection p = conn then (p, cls) # held_by conn ps else held_by conn ps)"
  "ordinary [] = []" "ordinary (ps @ qs) = ordinary ps @ ordinary qs"
  "ordinary ((p, cls) # ps) = (if is_control cls then ordinary ps else (p, cls) # ordinary ps)"
  by (simp_all add: live_bytes_def held_by_def ordinary_def)

lemma live_bytes_filter: "live_bytes (filter P ps) \<le> live_bytes ps"
  by (induction ps) (auto simp: live_bytes_def)

lemma held_by_le: "live_bytes (held_by conn ps) \<le> live_bytes ps" "length (held_by conn ps) \<le> length ps"
  by (simp_all add: held_by_def live_bytes_filter)

lemma ordinary_le: "live_bytes (ordinary ps) \<le> live_bytes ps" "length (ordinary ps) \<le> length ps"
  by (simp_all add: ordinary_def live_bytes_filter)

lemma usage_of_default:
  "(case usage_of ps of None \<Rightarrow> default_usage | Some u \<Rightarrow> u) = \<lparr>usage_requests = length ps, usage_bytes = live_bytes ps\<rparr>"
  by (simp add: usage_of_def default_usage_def)

text \<open>
  An admission on an accounted state, with the counters read off the live permits: the branch whose
  error would leave the counters incremented is gone.
\<close>

lemma admit_locked_accounted:
  assumes "accounted c live" "length live < usize_limit"
  shows "admit_locked c conn cls n =
     (if \<not> is_control cls \<and> limits_and c (\<lambda>l. length (held_by conn live) \<ge> max_requests_per_connection l)
      then (c, Err (full_error c ''connection write-admission share is full''))
      else if \<not> is_control cls \<and> (live_bytes (held_by conn live) + n \<ge> usize_limit \<or>
         limits_and c (\<lambda>l. live_bytes (held_by conn live) + n > max_encoded_bytes_per_connection l))
      then (c, Err (full_error c ''connection write-admission byte share is full''))
      else if length live + 1 \<ge> usize_limit then (c, Err (internal_error ''write-admission request count overflow''))
      else if live_bytes live + n \<ge> usize_limit then (c, Err (internal_error ''write-admission byte count overflow''))
      else if limits_and c (over_capacity cls (length live + 1) (live_bytes live + n))
      then (c, Err (full_error c ''write-admission capacity is full''))
      else (c\<lparr>ctl_state := \<lparr>adm_requests = length live + 1, adm_bytes = live_bytes live + n,
              adm_connections = (adm_connections (ctl_state c))(conn \<mapsto>
                \<lparr>usage_requests = length (held_by conn live) + 1, usage_bytes = live_bytes (held_by conn live) + n\<rparr>)\<rparr>\<rparr>,
            Ok \<lparr>permit_connection = conn, permit_bytes = n, permit_released = False\<rparr>))"
  using assms held_by_le[of conn live]
  by (auto simp: admit_locked_def accounted_def usage_of_default checked_add_usize_def Let_def not_less)

lemma try_admit_refused:
  assumes "accounted c live" "length live < usize_limit" "try_admit_until c now conn cls n dl = (c', Err e)"
  shows "c' = c"
  using assms(3) unfolding try_admit_until_def admit_locked_accounted[OF assms(1,2)] by (auto split: if_splits option.splits)

lemma try_admit_granted:
  assumes "accounted c live" "length live < usize_limit" "try_admit_until c now conn cls n dl = (c', Ok p)"
  shows "p = \<lparr>permit_connection = conn, permit_bytes = n, permit_released = False\<rparr>" "0 < n"
    "ctl_limits c' = ctl_limits c" "length live + 1 < usize_limit" "live_bytes live + n < usize_limit"
    "adm_requests (ctl_state c') = length live + 1" "adm_bytes (ctl_state c') = live_bytes live + n"
    "adm_connections (ctl_state c') = (adm_connections (ctl_state c))(conn \<mapsto>
       \<lparr>usage_requests = length (held_by conn live) + 1, usage_bytes = live_bytes (held_by conn live) + n\<rparr>)"
    "ctl_limits c = Some l \<Longrightarrow> \<not> over_capacity cls (length live + 1) (live_bytes live + n) l"
    "ctl_limits c = Some l \<Longrightarrow> \<not> is_control cls \<Longrightarrow> length (held_by conn live) < max_requests_per_connection l"
    "ctl_limits c = Some l \<Longrightarrow> \<not> is_control cls \<Longrightarrow>
       live_bytes (held_by conn live) + n \<le> max_encoded_bytes_per_connection l"
  using assms(3) unfolding try_admit_until_def admit_locked_accounted[OF assms(1,2)]
  by (auto simp: limits_and_def not_le split: if_splits option.splits)

lemma admit_preserves:
  assumes "admission_inv c live" "limits_valid c"
    "try_admit_until c now conn cls n dl = (c', Ok p)"
  shows "admission_inv c' ((p, cls) # live)"
proof -
  from assms(1) have acc: "accounted c live" "length live < usize_limit" by (simp_all add: admission_inv_def)
  note g = try_admit_granted[OF acc assms(3)]
  have "adm_connections (ctl_state c') = (\<lambda>k. usage_of (held_by k ((p, cls) # live)))"
    using acc(1) by (auto simp: g(1,8) accounted_def usage_of_def fun_eq_iff)
  then have "accounted c' ((p, cls) # live)" using g(1,6,7) by (simp add: accounted_def)
  moreover have "within_limits l ((p, cls) # live) \<and> reserve_kept l ((p, cls) # live) \<and> fair_shares l ((p, cls) # live)"
    if l: "ctl_limits c = Some l" for l
  proof (intro conjI)
    from assms(1) l have old: "within_limits l live" "reserve_kept l live" "fair_shares l live"
      by (simp_all add: admission_inv_def)
    show "within_limits l ((p, cls) # live)"
      using g(9)[OF l] g(1) by (auto simp: within_limits_def over_capacity_def Let_def split: if_splits)
    show "reserve_kept l ((p, cls) # live)"
      using g(9)[OF l] g(1) old(2) ordinary_le[of live] assms(2) l
      by (auto simp: limits_valid_def reserve_kept_def over_capacity_def Let_def split: if_splits)
    show "fair_shares l ((p, cls) # live)"
      using g(10,11)[OF l] g(1) old(3) ordinary_le[of "held_by conn live"]
      by (fastforce simp: fair_shares_def split: if_splits)
  qed
  ultimately show ?thesis using assms(1) g by (auto simp: admission_inv_def)
qed

lemma release_preserves:
  assumes "admission_inv c (xs @ (p, cls) # ys)"
  shows "admission_inv (permit_release p c) (xs @ ys)"
proof -
  let ?live = "xs @ (p, cls) # ys" and ?c = "permit_release p c"
  from assms have acc: "accounted c ?live" "\<not> permit_released p" by (auto simp: admission_inv_def)
  have lim: "ctl_limits ?c = ctl_limits c"
    by (simp add: permit_drop_def release_inner_def Let_def)
  have "adm_connections (ctl_state ?c) = (\<lambda>k. usage_of (held_by k (xs @ ys)))"
    using acc by (auto simp: accounted_def permit_drop_def release_inner_def Let_def usage_of_def fun_eq_iff)
  then have "accounted ?c (xs @ ys)"
    using acc by (simp add: accounted_def permit_drop_def release_inner_def Let_def usage_of_def)
  moreover have "within_limits l (xs @ ys) \<and> reserve_kept l (xs @ ys) \<and> fair_shares l (xs @ ys)"
    if "ctl_limits c = Some l" for l
  proof -
    from assms that have old: "within_limits l ?live" "reserve_kept l ?live" "fair_shares l ?live"
      by (simp_all add: admission_inv_def)
    then have "within_limits l (xs @ ys)" "reserve_kept l (xs @ ys)"
      by (auto simp: within_limits_def reserve_kept_def split: if_splits)
    moreover have "length (ordinary (held_by k (xs @ ys))) \<le> length (ordinary (held_by k ?live))"
      "live_bytes (ordinary (held_by k (xs @ ys))) \<le> live_bytes (ordinary (held_by k ?live))" for k by auto
    ultimately show ?thesis using old(3) unfolding fair_shares_def by (meson le_trans)
  qed
  ultimately show ?thesis using assms lim by (auto simp: admission_inv_def)
qed

lemma try_admit_limits: "ctl_limits (fst (try_admit_until c now conn cls n dl)) = ctl_limits c"
  by (auto simp: try_admit_until_def admit_locked_def Let_def split: option.splits)

lemma step_limits: "admission_step (c, live) (c', live') \<Longrightarrow> ctl_limits c' = ctl_limits c"
  by (erule admission_step.cases)
    (auto simp: try_admit_until_def admit_locked_def permit_drop_def release_inner_def Let_def split: if_splits option.splits)

lemma admission_run_inv: "admission_run c live \<Longrightarrow> admission_inv c live \<and> limits_valid c"
proof (induction rule: admission_run.induct)
  case (start l c)
  then have "ctl_limits c = Some l" "ctl_state c = default_state" by (auto simp: controller_new_def split: if_splits)
  with start show ?case
    by (auto simp: admission_inv_def limits_valid_def accounted_def default_state_def usage_of_def controller_new_def
        within_limits_def reserve_kept_def fair_shares_def split: if_splits)
next
  case start_unrestricted
  then show ?case
    by (simp add: admission_inv_def limits_valid_def unrestricted_def accounted_def default_state_def usage_of_def)
next
  case (step c live c' live')
  then have inv: "admission_inv c live" and lv: "limits_valid c" by simp_all
  then have acc: "accounted c live" "length live < usize_limit" by (simp_all add: admission_inv_def)
  have "limits_valid c'" using step_limits[OF step.hyps(2)] lv by (simp add: limits_valid_def)
  moreover from step.hyps(2) have "admission_inv c' live'"
  proof (cases rule: admission_step.cases)
    case (admit now conn cls n dl p)
    with admit_preserves[OF inv lv admit(2)] show ?thesis by simp
  next
    case refuse
    with try_admit_refused[OF acc refuse(2)] inv show ?thesis by simp
  next
    case release
    with release_preserves inv show ?thesis by auto
  qed
  ultimately show ?case by simp
qed

section \<open>Properties\<close>

text \<open>
  C18. Exact accounting. In every reachable state the counters and the table of connections are
  those of the live permits, so that a drained controller is back in its initial state, and a limited
  controller is within its limits.
\<close>

theorem admission_accounting:
  assumes "admission_run c live"
  shows "accounted c live \<and> (live = [] \<longrightarrow> ctl_state c = default_state) \<and>
     (case ctl_limits c of None \<Rightarrow> True | Some l \<Rightarrow> within_limits l live)"
  using admission_run_inv[OF assms]
  by (auto simp: admission_inv_def accounted_def default_state_def usage_of_def split: option.splits)

definition example_limits :: AdmissionLimits where
  "example_limits = \<lparr>max_requests = 3, max_encoded_bytes = 300, reserved_control_requests = 1,
     reserved_control_bytes = 100, max_requests_per_connection = 2, max_encoded_bytes_per_connection = 200,
     retry_after_ms = 25\<rparr>"

definition example_controller :: AdmissionController where
  "example_controller = \<lparr>ctl_limits = Some example_limits, ctl_state = default_state\<rparr>"

definition admitted :: "AdmissionController \<Rightarrow> ConnectionId \<Rightarrow> AdmissionClass \<Rightarrow> nat \<Rightarrow> AdmissionController" where
  "admitted c conn cls n = fst (try_admit_until c 0 conn cls n None)"

definition example_permit :: "ConnectionId \<Rightarrow> nat \<Rightarrow> AdmissionPermit" where
  "example_permit conn n = \<lparr>permit_connection = conn, permit_bytes = n, permit_released = False\<rparr>"

lemma example_run:
  "admission_run (admitted (admitted example_controller 1 Client 100) 1 Broker 100)
     [(example_permit 1 100, Broker), (example_permit 1 100, Client)]"
proof -
  let ?c = "admitted example_controller 1 Client 100"
  have e: "try_admit_until example_controller 0 1 Client 100 None = (?c, Ok (example_permit 1 100))"
    "try_admit_until ?c 0 1 Broker 100 None = (admitted ?c 1 Broker 100, Ok (example_permit 1 100))"
    by (simp_all add: admitted_def try_admit_until_def admit_locked_def example_controller_def example_limits_def
        default_state_def default_usage_def limits_and_def is_valid_def over_capacity_def checked_add_usize_def
        example_permit_def)
  have "admission_run example_controller []"
    by (rule admission_run.start[of example_limits])
      (simp add: controller_new_def example_controller_def example_limits_def)
  then show ?thesis using e by (blast intro: admission_run.step admission_step.admit)
qed

theorem admission_accounting_witness:
  "adm_usage (admitted (admitted example_controller 1 Client 100) 1 Broker 100) = (2, 200)"
  using admission_accounting[OF example_run] by (simp add: adm_usage_def accounted_def example_permit_def)

text \<open>
  C19. Ordinary writes never consume the reserve. In every reachable state of a limited controller the
  client and broker permits leave the reserved requests and bytes free, and no connection's ordinary
  permits exceed its share.
\<close>

theorem admission_reserve:
  assumes "admission_run c live" "ctl_limits c = Some l"
  shows "reserve_kept l live \<and> fair_shares l live"
  using admission_run_inv[OF assms(1)] assms(2) by (simp add: admission_inv_def)

lemma example_limited: "ctl_limits (admitted (admitted example_controller 1 Client 100) 1 Broker 100) = Some example_limits"
  by (simp add: admitted_def try_admit_limits example_controller_def)

theorem admission_reserve_witness:
  "reserve_kept example_limits [(example_permit 1 100, Broker), (example_permit 1 100, Client)]"
  using admission_reserve[OF example_run example_limited] by simp

lemma live_partition:
  "length live = length (ordinary live) + length (controlling live)"
  "live_bytes live = live_bytes (ordinary live) + live_bytes (controlling live)"
  by (induction live) (auto simp: controlling_def)

text \<open>
  C20. The reserve is usable. In every reachable state, a control request with a valid connection and a
  live deadline is admitted while the outstanding control work leaves it room in the reserve, no matter
  what ordinary writes hold.
\<close>

theorem control_admitted:
  assumes "admission_run c live" "ctl_limits c = Some l" "max_requests l < usize_limit" "max_encoded_bytes l < usize_limit"
    and "is_control cls" "is_valid conn" "0 < n" "case dl of None \<Rightarrow> True | Some d \<Rightarrow> now < d"
    and "length (controlling live) < reserved_control_requests l"
    and "live_bytes (controlling live) + n \<le> reserved_control_bytes l"
  shows "\<exists>c' p. try_admit_until c now conn cls n dl = (c', Ok p)"
proof -
  from admission_run_inv[OF assms(1)] assms(2)
  have inv: "accounted c live" "length live < usize_limit" "reserve_kept l live" by (simp_all add: admission_inv_def)
  have room: "length live + 1 \<le> max_requests l" "live_bytes live + n \<le> max_encoded_bytes l"
    using inv(3) assms(9,10) live_partition[of live] by (auto simp: reserve_kept_def)
  show ?thesis
    using assms(2-8) room
    by (auto simp: try_admit_until_def admit_locked_accounted[OF inv(1,2)] limits_and_def over_capacity_def
        split: option.splits)
qed

theorem control_admitted_witness:
  "\<exists>c' p. try_admit_until (admitted (admitted example_controller 1 Client 100) 1 Broker 100) 0 2 Control 100 None = (c', Ok p)"
  by (rule control_admitted[OF example_run example_limited])
    (simp_all add: example_limits_def is_valid_def controlling_def)

lemma error_retryable [simp]:
  "err_retryable (full_error c m)" "\<not> err_retryable (internal_error m)" "\<not> err_retryable (invalid_data m)"
  "err_code (full_error c m) = WriteAdmissionFull" "err_code (internal_error m) = Internal" "err_code (invalid_data m) = InvalidData"
  "err_retryable (retryable_error k m a)" "err_code (retryable_error k m a) = k"
  "err_retry_after_ms (full_error c m) = map_option retry_after_ms (ctl_limits c)"
  "err_retry_after_ms (internal_error m) = None" "err_retry_after_ms (invalid_data m) = None"
  "err_retry_after_ms (retryable_error k m a) = a"
  by (simp_all add: full_error_def retryable_error_def internal_error_def invalid_data_def new_error_def)

text \<open>
  What the permits in flight say about a request, counted on the permits and not on the counters: its
  deadline has passed; its size or its connection is not acceptable at all; its connection has used up
  its share; one of the machine counters has no room; what is left for its class, without the control
  reserve for an ordinary write, does not hold it.
\<close>

definition expired :: "nat option \<Rightarrow> nat \<Rightarrow> bool" where
  "expired dl now \<longleftrightarrow> (\<exists>d. dl = Some d \<and> d \<le> now)"

definition malformed :: "AdmissionController \<Rightarrow> ConnectionId \<Rightarrow> nat \<Rightarrow> bool" where
  "malformed c conn n \<longleftrightarrow> n = 0 \<or> conn = 0 \<or> (\<exists>l. ctl_limits c = Some l \<and> max_encoded_bytes l < n)"

definition share_full :: "AdmissionController \<Rightarrow> live_permit list \<Rightarrow> ConnectionId \<Rightarrow> AdmissionClass \<Rightarrow> nat \<Rightarrow> bool" where
  "share_full c live conn cls n \<longleftrightarrow> cls \<in> {Client, Broker} \<and>
     (usize_limit \<le> live_bytes (held_by conn live) + n \<or>
      (\<exists>l. ctl_limits c = Some l \<and>
         (max_requests_per_connection l < length (held_by conn live) + 1 \<or>
          max_encoded_bytes_per_connection l < live_bytes (held_by conn live) + n)))"

definition counters_full :: "live_permit list \<Rightarrow> nat \<Rightarrow> bool" where
  "counters_full live n \<longleftrightarrow> usize_limit \<le> length live + 1 \<or> usize_limit \<le> live_bytes live + n"

definition capacity_full :: "AdmissionController \<Rightarrow> live_permit list \<Rightarrow> AdmissionClass \<Rightarrow> nat \<Rightarrow> bool" where
  "capacity_full c live cls n \<longleftrightarrow> (\<exists>l. ctl_limits c = Some l \<and>
     (if cls \<in> {Client, Broker}
      then max_requests l < length live + 1 + reserved_control_requests l \<or>
           max_encoded_bytes l < live_bytes live + n + reserved_control_bytes l
      else max_requests l < length live + 1 \<or> max_encoded_bytes l < live_bytes live + n))"

lemma is_control_iff: "is_control cls \<longleftrightarrow> cls \<notin> {Client, Broker}"
  by (cases cls) simp_all

lemma share_full_checks:
  "share_full c live conn cls n \<longleftrightarrow> \<not> is_control cls \<and>
     (limits_and c (\<lambda>l. length (held_by conn live) \<ge> max_requests_per_connection l) \<or>
      live_bytes (held_by conn live) + n \<ge> usize_limit \<or>
      limits_and c (\<lambda>l. live_bytes (held_by conn live) + n > max_encoded_bytes_per_connection l))"
  by (auto simp: share_full_def is_control_iff limits_and_def split: option.split)

lemma capacity_full_check:
  "limits_valid c \<Longrightarrow>
   limits_and c (over_capacity cls (length live + 1) (live_bytes live + n)) \<longleftrightarrow> capacity_full c live cls n"
  by (auto simp: capacity_full_def limits_valid_def limits_and_def over_capacity_def is_control_iff split: option.split)

text \<open>
  C21. Refusals. In every reachable state a request is admitted exactly when its deadline has not
  passed, its size and connection are acceptable, its connection's share has room, the machine counters
  have room, and the capacity left for its class holds it. A refusal leaves the controller as it was,
  the late overflow check included. Its code is that of the first of these conditions to fail, and it
  asks for a retry exactly when the deadline has passed or a share or the capacity is full; for a full
  share or capacity it carries the configured delay.
\<close>

theorem admission_refusal:
  assumes "admission_run c live" "try_admit_until c now conn cls n dl = (c', r)"
  shows "((\<exists>p. r = Ok p) \<longleftrightarrow>
       \<not> expired dl now \<and> \<not> malformed c conn n \<and> \<not> share_full c live conn cls n \<and>
       \<not> counters_full live n \<and> \<not> capacity_full c live cls n) \<and>
     (\<forall>e. r = Err e \<longrightarrow> c' = c \<and>
       err_code e =
         (if expired dl now then DeadlineExceeded
          else if malformed c conn n then InvalidData
          else if share_full c live conn cls n then WriteAdmissionFull
          else if counters_full live n then Internal
          else WriteAdmissionFull) \<and>
       (err_retryable e \<longleftrightarrow> expired dl now \<or> \<not> malformed c conn n \<and>
          (share_full c live conn cls n \<or> \<not> counters_full live n \<and> capacity_full c live cls n)) \<and>
       err_retry_after_ms e =
         (if err_code e = WriteAdmissionFull then map_option retry_after_ms (ctl_limits c) else None))"
proof -
  from admission_run_inv[OF assms(1)] have acc: "accounted c live" "length live < usize_limit" and lv: "limits_valid c"
    by (simp_all add: admission_inv_def)
  have checks: "(case dl of None \<Rightarrow> False | Some d \<Rightarrow> now \<ge> d) \<longleftrightarrow> expired dl now"
    "n = 0 \<or> limits_and c (\<lambda>l. n > max_encoded_bytes l) \<or> \<not> is_valid conn \<longleftrightarrow> malformed c conn n"
    by (auto simp: expired_def malformed_def is_valid_def limits_and_def split: option.split)
  consider "expired dl now" | "\<not> expired dl now" "malformed c conn n"
    | "\<not> expired dl now" "\<not> malformed c conn n" "share_full c live conn cls n"
    | "\<not> expired dl now" "\<not> malformed c conn n" "\<not> share_full c live conn cls n"
    by blast
  then show ?thesis
  proof cases
    case 4
    then have "\<not> (n = 0 \<or> limits_and c (\<lambda>l. n > max_encoded_bytes l))" "is_valid conn"
      using checks(2) by blast+
    with 4 assms(2) show ?thesis
      unfolding try_admit_until_def checks(1) admit_locked_accounted[OF acc] share_full_checks capacity_full_check[OF lv]
      by (auto simp: counters_full_def not_le split: if_splits)
  qed (use assms(2) checks(2) in \<open>auto simp: try_admit_until_def checks(1) admit_locked_accounted[OF acc] share_full_checks split: if_splits\<close>)
qed

lemma example_share_full:
  "share_full (admitted (admitted example_controller 1 Client 100) 1 Broker 100)
     [(example_permit 1 100, Broker), (example_permit 1 100, Client)] 1 Client 10"
  by (simp add: share_full_def example_limited example_limits_def example_permit_def)

theorem admission_refusal_witness:
  "\<exists>e. try_admit_until (admitted (admitted example_controller 1 Client 100) 1 Broker 100) 6 1 Client 10 (Some 7) =
       (admitted (admitted example_controller 1 Client 100) 1 Broker 100, Err e) \<and>
     err_code e = WriteAdmissionFull \<and> err_retryable e \<and> err_retry_after_ms e = Some 25"
proof -
  let ?c = "admitted (admitted example_controller 1 Client 100) 1 Broker 100"
  obtain c' r where r: "try_admit_until ?c 6 1 Client 10 (Some 7) = (c', r)" by (cases "try_admit_until ?c 6 1 Client 10 (Some 7)")
  note refused = admission_refusal[OF example_run r]
  have early: "\<not> expired (Some 7) 6" "\<not> malformed ?c 1 10"
    by (simp_all add: expired_def malformed_def example_limited example_limits_def)
  from refused example_share_full obtain e where e: "r = Err e" by (cases r) auto
  from refused e example_share_full early show ?thesis
    unfolding r by (simp add: example_limited example_limits_def)
qed

end
