(* ===== verification/Persistent_Map.thy ===== *)
theory Persistent_Map
  imports Prelude "HOL-Library.Log_Nat"
begin

text \<open>
  The copy-on-write radix map of \<^verbatim>\<open>crates/graph/src/persistent.rs\<close>: a tree over the 4-bit digits of
  128-bit keys, whose leaves hold up to eight sorted entries and whose root skips the leading zero
  digits of all stored keys.

  An \<open>Arc\<close> is its contents: \<open>Arc::make_mut\<close> copies a shared node before a write, so a write is
  never seen through another handle, and the model is a value. A mutable reference returned by
  \<open>get_mut\<close> is modelled by the update the caller makes through it. A panic is \<open>None\<close>.
\<close>

unbundle bit_operations_syntax

section \<open>Nodes\<close>

definition RADIX_BITS :: nat where "RADIX_BITS = 4"
definition RADIX_FANOUT :: nat where "RADIX_FANOUT = 16"
definition RADIX_LEVELS :: nat where "RADIX_LEVELS = 128 div RADIX_BITS"
definition RADIX_LEAF_CAPACITY :: nat where "RADIX_LEAF_CAPACITY = 8"

lemma radix_constants [simp]:
  "RADIX_BITS = 4" "RADIX_FANOUT = 16" "RADIX_LEVELS = 32" "RADIX_LEAF_CAPACITY = 8"
  by (simp_all add: RADIX_BITS_def RADIX_FANOUT_def RADIX_LEVELS_def RADIX_LEAF_CAPACITY_def)

datatype 'v RadixNode = Branch "'v RadixNode option list" | Leaf "(u128 \<times> 'v) list"

text \<open>\<open>u128::leading_zeros\<close>.\<close>

definition leading_zeros :: "u128 \<Rightarrow> nat" where
  "leading_zeros k = 128 - floorlog 2 (unat k)"

text \<open>The index of the child of a branch at a depth that a key belongs to.\<close>

definition radix_slot :: "nat \<Rightarrow> u128 \<Rightarrow> nat" where
  "radix_slot depth key =
     (let shift = 128 - RADIX_BITS * (depth + 1)
      in unat (drop_bit shift key AND (push_bit RADIX_BITS 1 - 1)))"

text \<open>\<open>children[slot]\<close> of the 16-element array.\<close>

definition child :: "'v RadixNode option list \<Rightarrow> nat \<Rightarrow> 'v RadixNode option" where
  "child cs i = (if i < length cs then cs ! i else None)"

definition no_children :: "'v RadixNode option list" where
  "no_children = replicate RADIX_FANOUT None"

text \<open>
  \<open>binary_search_by_key\<close> on entries with distinct sorted keys: \<open>Inl\<close> the insertion point (\<open>Err\<close>), or
  \<open>Inr\<close> the index of the key (\<open>Ok\<close>).
\<close>

definition binary_search_by_key :: "(u128 \<times> 'v) list \<Rightarrow> u128 \<Rightarrow> nat + nat" where
  "binary_search_by_key es key =
     (let i = length (takeWhile (\<lambda>(k, _). k < key) es)
      in if i < length es \<and> fst (es ! i) = key then Inr i else Inl i)"

definition leaf_get :: "(u128 \<times> 'v) list \<Rightarrow> u128 \<Rightarrow> 'v option" where
  "leaf_get es key = (case binary_search_by_key es key of Inr i \<Rightarrow> Some (snd (es ! i)) | Inl _ \<Rightarrow> None)"

lemma child_size [termination_simp]: "child cs i = Some n \<Longrightarrow> size n < Suc (size_list (size_option size) cs)"
proof -
  assume "child cs i = Some n"
  then have "Some n \<in> set cs" by (auto simp: child_def in_set_conv_nth split: if_splits)
  then have "size_option size (Some n) \<le> size_list (size_option size) cs"
    by (rule size_list_estimation') simp
  then show "size n < Suc (size_list (size_option size) cs)" by simp
qed

text \<open>The descent of \<open>PersistentMap::get\<close>, from the depth of the root to the last level.\<close>

fun radix_get :: "'v RadixNode \<Rightarrow> nat \<Rightarrow> u128 \<Rightarrow> 'v option" where
  "radix_get (Branch cs) depth key =
     (if depth \<ge> RADIX_LEVELS then None
      else case child cs (radix_slot depth key) of
          None \<Rightarrow> None
        | Some n \<Rightarrow> radix_get n (depth + 1) key)"
| "radix_get (Leaf es) depth key = (if depth > RADIX_LEVELS then None else leaf_get es key)"

text \<open>Updating the value of a present key through \<open>get_radix_mut\<close>; \<open>None\<close> when the key is absent.\<close>

fun get_radix_mut :: "'v RadixNode \<Rightarrow> nat \<Rightarrow> u128 \<Rightarrow> ('v \<Rightarrow> 'v) \<Rightarrow> 'v RadixNode option" where
  "get_radix_mut (Branch cs) depth key f =
     (if depth < RADIX_LEVELS then
        let slot = radix_slot depth key in
        (case child cs slot of
           None \<Rightarrow> None
         | Some n \<Rightarrow> map_option (\<lambda>n'. Branch (cs[slot := Some n'])) (get_radix_mut n (depth + 1) key f))
      else None)"
| "get_radix_mut (Leaf es) depth key f =
     (case binary_search_by_key es key of
        Inr i \<Rightarrow> Some (Leaf (es[i := (fst (es ! i), f (snd (es ! i)))]))
      | Inl _ \<Rightarrow> None)"

fun remove_radix :: "'v RadixNode \<Rightarrow> nat \<Rightarrow> u128 \<Rightarrow> 'v RadixNode option \<times> 'v option" where
  "remove_radix (Leaf es) depth key =
     (case binary_search_by_key es key of
        Inl _ \<Rightarrow> (Some (Leaf es), None)
      | Inr i \<Rightarrow>
          let entries = take i es @ drop (Suc i) es
          in (if entries \<noteq> [] then Some (Leaf entries) else None, Some (snd (es ! i))))"
| "remove_radix (Branch cs) depth key =
     (if depth < RADIX_LEVELS then
        let slot = radix_slot depth key;
            (replacement, removed) =
              (case child cs slot of None \<Rightarrow> (None, None) | Some n \<Rightarrow> remove_radix n (depth + 1) key)
        in if removed = None then (Some (Branch cs), None)
           else let children = cs[slot := replacement]
                in (if \<exists>c \<in> set children. c \<noteq> None then Some (Branch children) else None, removed)
      else (Some (Branch cs), None))"

text \<open>One entry of a leaf being split, with the insertion into an existing child as an argument.\<close>

definition split_entry ::
  "('v RadixNode \<Rightarrow> u128 \<Rightarrow> 'v \<Rightarrow> ('v RadixNode \<times> 'v option) option) \<Rightarrow> nat \<Rightarrow>
   'v RadixNode option list \<Rightarrow> u128 \<times> 'v \<Rightarrow> 'v RadixNode option list option" where
  "split_entry ins depth cs kv =
     (let slot = radix_slot depth (fst kv) in
      case child cs slot of
        Some n \<Rightarrow> map_option (\<lambda>(n', _). cs[slot := Some n']) (ins n (fst kv) (snd kv))
      | None \<Rightarrow> Some (cs[slot := Some (Leaf [kv])]))"

lemma split_entry_cong [fundef_cong]:
  "depth = depth' \<Longrightarrow> cs = cs' \<Longrightarrow> kv = kv' \<Longrightarrow> (\<And>n. ins n (fst kv') (snd kv') = ins' n (fst kv') (snd kv')) \<Longrightarrow>
     split_entry ins depth cs kv = split_entry ins' depth' cs' kv'"
  by (simp add: split_entry_def Let_def split: option.split)

text \<open>
  \<open>insert_radix_cow\<close>: the node after the insertion and the previous value. A leaf that overflows is
  split by inserting its entries into fresh children one level down. The depth never exceeds the
  last level, where the source compares with \<open>==\<close>.
\<close>

function insert_radix_cow :: "'v RadixNode \<Rightarrow> nat \<Rightarrow> u128 \<Rightarrow> 'v \<Rightarrow> ('v RadixNode \<times> 'v option) option" where
  "insert_radix_cow (Branch cs) depth key v =
     (if depth < RADIX_LEVELS then
        let slot = radix_slot depth key in
        (case child cs slot of
           Some n \<Rightarrow> map_option (\<lambda>(n', previous). (Branch (cs[slot := Some n']), previous))
                       (insert_radix_cow n (depth + 1) key v)
         | None \<Rightarrow> Some (Branch (cs[slot := Some (Leaf [(key, v)])]), None))
      else None)"
| "insert_radix_cow (Leaf es) depth key v =
     (let (entries, previous) =
        (case binary_search_by_key es key of
           Inr i \<Rightarrow> (es[i := (fst (es ! i), v)], Some (snd (es ! i)))
         | Inl i \<Rightarrow> (take i es @ (key, v) # drop i es, None)) in
      if length entries \<le> RADIX_LEAF_CAPACITY \<or> depth \<ge> RADIX_LEVELS then Some (Leaf entries, previous)
      else map_option (\<lambda>cs. (Branch cs, previous))
        (fold_panics (split_entry (\<lambda>n k w. insert_radix_cow n (depth + 1) k w) depth) no_children entries))"
  by pat_completeness auto
termination by (relation "measure (\<lambda>(n, depth, key, v). 33 - depth)") auto

declare insert_radix_cow.simps [simp del]

section \<open>The map\<close>

record 'v PersistentMap =
  pm_root :: "'v RadixNode option"
  pm_root_depth :: nat
  pm_len :: nat

definition pm_default :: "'v PersistentMap" where
  "pm_default = \<lparr>pm_root = None, pm_root_depth = 0, pm_len = 0\<rparr>"

definition pm_get :: "'v PersistentMap \<Rightarrow> u128 \<Rightarrow> 'v option" where
  "pm_get m key =
     (case pm_root m of
        None \<Rightarrow> None
      | Some node \<Rightarrow>
          if leading_zeros key div RADIX_BITS < pm_root_depth m then None
          else radix_get node (pm_root_depth m) key)"

definition pm_contains_key :: "'v PersistentMap \<Rightarrow> u128 \<Rightarrow> bool" where
  "pm_contains_key m key \<longleftrightarrow> pm_get m key \<noteq> None"

text \<open>The loop that raises the root by one branch per missing leading digit.\<close>

fun promote :: "nat \<Rightarrow> 'v RadixNode \<Rightarrow> 'v RadixNode" where
  "promote 0 node = node"
| "promote (Suc n) node = promote n (Branch (no_children[0 := Some node]))"

definition pm_insert_cow :: "'v PersistentMap \<Rightarrow> u128 \<Rightarrow> 'v \<Rightarrow> ('v PersistentMap \<times> 'v option) option" where
  "pm_insert_cow m key v =
     (let key_depth = min (leading_zeros key div RADIX_BITS) (RADIX_LEVELS - 1);
          m = (case pm_root m of
                 Some node \<Rightarrow> (case node of
                     Leaf _ \<Rightarrow> m\<lparr>pm_root_depth := min (pm_root_depth m) key_depth\<rparr>
                   | Branch _ \<Rightarrow>
                       m\<lparr>pm_root := Some (promote (pm_root_depth m - key_depth) node),
                         pm_root_depth := min (pm_root_depth m) key_depth\<rparr>)
               | None \<Rightarrow> m\<lparr>pm_root_depth := key_depth\<rparr>) in
      map_option (\<lambda>(node, previous).
          (m\<lparr>pm_root := Some node, pm_len := if previous = None then pm_len m + 1 else pm_len m\<rparr>, previous))
        (case pm_root m of
           Some node \<Rightarrow> insert_radix_cow node (pm_root_depth m) key v
         | None \<Rightarrow> Some (Leaf [(key, v)], None)))"

definition pm_insert :: "'v PersistentMap \<Rightarrow> u128 \<Rightarrow> 'v \<Rightarrow> ('v PersistentMap \<times> 'v option) option" where
  "pm_insert m key v = pm_insert_cow m key v"

definition pm_get_mut :: "'v PersistentMap \<Rightarrow> u128 \<Rightarrow> ('v \<Rightarrow> 'v) \<Rightarrow> 'v PersistentMap option" where
  "pm_get_mut m key f =
     (if leading_zeros key div RADIX_BITS < pm_root_depth m then None
      else case pm_root m of
          None \<Rightarrow> None
        | Some node \<Rightarrow> map_option (\<lambda>node'. m\<lparr>pm_root := Some node'\<rparr>)
                         (get_radix_mut node (pm_root_depth m) key f))"

definition pm_remove :: "'v PersistentMap \<Rightarrow> u128 \<Rightarrow> 'v PersistentMap \<times> 'v option" where
  "pm_remove m key =
     (if leading_zeros key div RADIX_BITS < pm_root_depth m then (m, None)
      else let (node, removed) =
             (case pm_root m of None \<Rightarrow> (None, None) | Some node \<Rightarrow> remove_radix node (pm_root_depth m) key)
           in (if removed = None then m else m\<lparr>pm_root := node, pm_len := pm_len m - 1\<rparr>, removed))"

definition stable_id_key :: "u64 \<Rightarrow> u128" where
  "stable_id_key i = push_bit 64 (ucast i)"

definition stable_id_row :: "u32 PersistentMap \<Rightarrow> u64 \<Rightarrow> u32 option" where
  "stable_id_row m i =
     (case pm_get m (stable_id_key i) of Some row \<Rightarrow> Some row | None \<Rightarrow> pm_get m (ucast i))"

section \<open>Iteration and serialisation\<close>

record 'v PersistentMapIter =
  it_stack :: "'v RadixNode list"
  it_leaf :: "(u128 \<times> 'v) list option"

definition pm_iter :: "'v PersistentMap \<Rightarrow> 'v PersistentMapIter" where
  "pm_iter m = \<lparr>it_stack = (case pm_root m of None \<Rightarrow> [] | Some node \<Rightarrow> [node]), it_leaf = None\<rparr>"

text \<open>The stack has its top first: pushing the children in reverse leaves the first child on top.\<close>

fun present :: "'a option list \<Rightarrow> 'a list" where
  "present [] = []"
| "present (None # cs) = present cs"
| "present (Some c # cs) = c # present cs"

lemma present_size: "size_list size (present cs) < Suc (Suc (size_list (size_option size) cs))"
  by (induction cs rule: present.induct) auto

function iter_next :: "'v PersistentMapIter \<Rightarrow> 'v PersistentMapIter \<times> (u128 \<times> 'v) option" where
  "iter_next it =
     (case it_leaf it of
        Some (kv # es) \<Rightarrow> (it\<lparr>it_leaf := Some es\<rparr>, Some kv)
      | _ \<Rightarrow> (case it_stack it of
            [] \<Rightarrow> (it\<lparr>it_leaf := None\<rparr>, None)
          | Leaf es # stack \<Rightarrow> iter_next \<lparr>it_stack = stack, it_leaf = Some es\<rparr>
          | Branch cs # stack \<Rightarrow> iter_next \<lparr>it_stack = present cs @ stack, it_leaf = None\<rparr>))"
  by pat_completeness auto
termination
  by (relation "measure (\<lambda>it. size_list size (it_stack it))") (auto simp: present_size)

declare iter_next.simps [simp del]

text \<open>The entries of a node in the order of the branches.\<close>

fun node_entries :: "'v RadixNode \<Rightarrow> (u128 \<times> 'v) list" where
  "node_entries (Leaf es) = es"
| "node_entries (Branch cs) = concat (map (\<lambda>c. case c of None \<Rightarrow> [] | Some n \<Rightarrow> node_entries n) cs)"

definition remaining :: "'v PersistentMapIter \<Rightarrow> (u128 \<times> 'v) list" where
  "remaining it = (case it_leaf it of None \<Rightarrow> [] | Some es \<Rightarrow> es) @ concat (map node_entries (it_stack it))"

lemma entries_present: "concat (map node_entries (present cs)) = node_entries (Branch cs)"
  by (induction cs rule: present.induct) auto

lemma iter_next_remaining:
  "iter_next it = (it', r) \<Longrightarrow> remaining it = (case r of None \<Rightarrow> [] | Some kv \<Rightarrow> kv # remaining it')"
proof (induction it arbitrary: it' r rule: iter_next.induct)
  case (1 it)
  show ?case
  proof (cases "it_leaf it = None \<or> it_leaf it = Some []")
    case leaf: True
    show ?thesis
    proof (cases "it_stack it")
      case Nil
      with leaf 1 show ?thesis by (auto simp: iter_next.simps[of it] remaining_def)
    next
      case (Cons n stack)
      show ?thesis
      proof (cases n)
        case (Leaf es)
        have "remaining \<lparr>it_stack = stack, it_leaf = Some es\<rparr> = (case r of None \<Rightarrow> [] | Some kv \<Rightarrow> kv # remaining it')"
          using leaf Cons Leaf 1 by (auto simp: iter_next.simps[of it])
        with leaf Cons Leaf show ?thesis by (auto simp: remaining_def)
      next
        case (Branch cs)
        have "remaining \<lparr>it_stack = present cs @ stack, it_leaf = None\<rparr> = (case r of None \<Rightarrow> [] | Some kv \<Rightarrow> kv # remaining it')"
          using leaf Cons Branch 1 by (auto simp: iter_next.simps[of it])
        with leaf Cons Branch show ?thesis
          by (auto simp: remaining_def entries_present simp del: node_entries.simps)
      qed
    qed
  next
    case False
    then obtain kv es where "it_leaf it = Some (kv # es)" by (metis list.exhaust not_Some_eq)
    with 1(5) show ?thesis by (auto simp: iter_next.simps[of it] remaining_def)
  qed
qed

text \<open>Draining an iterator.\<close>

function iter_collect :: "'v PersistentMapIter \<Rightarrow> (u128 \<times> 'v) list" where
  "iter_collect it = (case iter_next it of (it', None) \<Rightarrow> [] | (it', Some kv) \<Rightarrow> kv # iter_collect it')"
  by pat_completeness auto
termination
  by (relation "measure (\<lambda>it. length (remaining it))") (auto dest: iter_next_remaining[OF sym])

declare iter_collect.simps [simp del]

lemma iter_collect_remaining: "iter_collect it = remaining it"
proof (induction it rule: iter_collect.induct)
  case (1 it)
  obtain it' r where n: "iter_next it = (it', r)" by fastforce
  show ?case
    using iter_next_remaining[OF n] 1[OF n[symmetric]] n by (cases r) (auto simp: iter_collect.simps[of it])
qed

definition pm_entries :: "'v PersistentMap \<Rightarrow> (u128 \<times> 'v) list" where
  "pm_entries m = iter_collect (pm_iter m)"

text \<open>
  \<open>Serialize\<close> hands the serialiser the length and the entries; the visitor of \<open>Deserialize\<close> inserts
  the entries it is handed and refuses a duplicate key. A panic is the outer \<open>None\<close>.
\<close>

definition pm_serialize :: "'v PersistentMap \<Rightarrow> nat \<times> (u128 \<times> 'v) list" where
  "pm_serialize m = (pm_len m, pm_entries m)"

fun visit_map :: "'v PersistentMap \<Rightarrow> (u128 \<times> 'v) list \<Rightarrow> (string + 'v PersistentMap) option" where
  "visit_map m [] = Some (Inr m)"
| "visit_map m ((key, v) # es) =
     (case pm_insert m key v of
        None \<Rightarrow> None
      | Some (m, previous) \<Rightarrow>
          if previous \<noteq> None then Some (Inl ''persistent map contains a duplicate key'') else visit_map m es)"

definition pm_deserialize :: "(u128 \<times> 'v) list \<Rightarrow> (string + 'v PersistentMap) option" where
  "pm_deserialize es = visit_map pm_default es"

end
