(* ===== verification/Radix_Refinement.thy ===== *)
theory Radix_Refinement
  imports Persistent_Map
begin

text \<open>
  The radix map implements a finite map: the structural invariant of the nodes, its preservation by
  insertion, update and removal, and the behaviour of each operation as the operation on
  \<open>u128 \<rightharpoonup> 'v\<close>.
\<close>

section \<open>Digits of a key\<close>

text \<open>The number formed by the first digits of a key.\<close>

definition prefix :: "nat \<Rightarrow> u128 \<Rightarrow> nat" where
  "prefix d k = unat k div 16 ^ (32 - d)"

lemma unat_less_128: "unat (k :: u128) < 2 ^ 128"
  using unsigned_less[of k] by simp

lemma prefix_0 [simp]: "prefix 0 k = 0"
  using unat_less_128[of k] by (simp add: prefix_def)

lemma prefix_full [simp]: "prefix 32 k = unat k"
  by (simp add: prefix_def)

lemma radix_slot_prefix: "d < 32 \<Longrightarrow> radix_slot d k = prefix (Suc d) k mod 16"
proof -
  assume d: "d < 32"
  have m: "(push_bit 4 1 - 1 :: u128) = mask 4" by (simp add: mask_eq_exp_minus_1 push_bit_eq_mult)
  have "128 - 4 * (d + 1) = 4 * (31 - d)" using d by simp
  then have "radix_slot d k = unat (take_bit 4 (drop_bit (4 * (31 - d)) k))"
    unfolding radix_slot_def Let_def radix_constants m take_bit_eq_mask by simp
  also have "\<dots> = take_bit 4 (unat k div 2 ^ (4 * (31 - d)))"
    by (simp only: unsigned_take_bit_eq unat_drop_bit_eq) (simp only: drop_bit_eq_div)
  also have "\<dots> = unat k div 16 ^ (31 - d) mod 16"
    by (simp add: take_bit_eq_mod power_mult)
  finally show ?thesis using d by (simp add: prefix_def)
qed

lemma prefix_Suc_div: "d < 32 \<Longrightarrow> prefix d k = prefix (Suc d) k div 16"
proof -
  assume "d < 32"
  then have "32 - d = Suc (31 - d)" by simp
  then show ?thesis by (simp only: prefix_def power_Suc2 div_mult2_eq) simp
qed

lemma prefix_Suc: "d < 32 \<Longrightarrow> prefix (Suc d) k = 16 * prefix d k + radix_slot d k"
  by (simp add: radix_slot_prefix prefix_Suc_div)

lemma radix_slot_less [simp]: "d < 32 \<Longrightarrow> radix_slot d k < 16"
  by (simp add: radix_slot_prefix)

lemma prefix_less: "prefix d k < prefix d k' \<Longrightarrow> k < k'"
  unfolding prefix_def word_less_nat_alt by (rule ccontr) (metis div_le_mono linorder_not_le)

lemma leading_zeros_prefix: "d \<le> 32 \<Longrightarrow> d \<le> leading_zeros k div 4 \<longleftrightarrow> prefix d k = 0"
proof -
  assume d: "d \<le> 32"
  have "d \<le> leading_zeros k div 4 \<longleftrightarrow> floorlog 2 (unat k) \<le> 4 * (32 - d)"
    using d unat_less_128[of k] floorlog_le_iff[of 2 "unat k" 128]
    by (auto simp: leading_zeros_def less_eq_div_iff_mult_less_eq)
  also have "\<dots> \<longleftrightarrow> unat k < 16 ^ (32 - d)"
    by (simp add: floorlog_le_iff power_mult)
  finally show ?thesis by (auto simp: prefix_def div_eq_0_iff)
qed

section \<open>Entries\<close>

abbreviation keys_sorted :: "(u128 \<times> 'v) list \<Rightarrow> bool" where
  "keys_sorted es \<equiv> sorted_wrt (<) (map fst es)"

lemma keys_sorted_distinct: "keys_sorted es \<Longrightarrow> distinct (map fst es)"
  by (simp add: strict_sorted_iff)

lemma length_entries: "keys_sorted es \<Longrightarrow> length es = card (dom (map_of es))"
  using distinct_card[of "map fst es"] by (simp add: keys_sorted_distinct dom_map_of_conv_image_fst)

lemma entries_unique:
  assumes "keys_sorted xs" "keys_sorted ys" "map_of xs = map_of ys"
  shows "xs = ys"
proof -
  have "set xs = set ys"
    using assms by (metis keys_sorted_distinct graph_map_of_if_distinct_dom)
  moreover have "sorted_wrt (<) (map fst xs)" "sorted_wrt (<) (map fst ys)" by fact+
  ultimately show ?thesis
  proof (induction xs arbitrary: ys)
    case (Cons x xs)
    then obtain y ys' where ys: "ys = y # ys'" by (cases ys) auto
    have "x = y"
    proof (rule ccontr)
      assume "x \<noteq> y"
      with Cons.prems ys have "x \<in> set ys'" "y \<in> set xs" by auto
      with Cons.prems(2,3) ys show False by (auto dest: less_asym)
    qed
    moreover have "x \<notin> set xs" "y \<notin> set ys'" using Cons.prems(2,3) ys by auto
    ultimately have "set xs = set ys'" using Cons.prems(1) ys by auto
    with Cons \<open>x = y\<close> ys show ?case by simp
  qed simp
qed

lemma search_cases:
  assumes "keys_sorted es"
  obtains (found) xs v ys where "es = xs @ (key, v) # ys" "binary_search_by_key es key = Inr (length xs)"
      "\<forall>k \<in> fst ` set xs. k < key" "\<forall>k \<in> fst ` set ys. key < k"
    | (absent) xs ys where "es = xs @ ys" "binary_search_by_key es key = Inl (length xs)"
      "\<forall>k \<in> fst ` set xs. k < key" "\<forall>k \<in> fst ` set ys. key < k"
proof -
  define xs where "xs = takeWhile (\<lambda>(k, _). k < key) es"
  define ys where "ys = dropWhile (\<lambda>(k, _). k < key) es"
  have es: "es = xs @ ys" by (simp add: xs_def ys_def)
  have less: "\<forall>k \<in> fst ` set xs. k < key" by (auto simp: xs_def dest: set_takeWhileD)
  have sorted: "keys_sorted ys" using assms by (simp add: es sorted_wrt_append)
  have search: "binary_search_by_key es key =
      (if ys \<noteq> [] \<and> fst (hd ys) = key then Inr (length xs) else Inl (length xs))"
    unfolding binary_search_by_key_def Let_def xs_def[symmetric] by (cases ys) (simp_all add: es)
  show thesis
  proof (cases ys)
    case Nil
    with es less search show thesis by (intro absent[of xs ys]) simp_all
  next
    case (Cons y ys')
    obtain k v where y: "y = (k, v)" by fastforce
    have le: "key \<le> k" using hd_dropWhile[of "\<lambda>(k, _). k < key" es] Cons y unfolding ys_def by simp
    have gr: "\<forall>k' \<in> fst ` set ys'. k < k'" using sorted by (simp add: Cons y)
    show thesis
    proof (cases "k = key")
      case True
      with es less search gr Cons y show thesis by (intro found[of xs v ys']) simp_all
    next
      case False
      with le gr have "\<forall>k' \<in> fst ` set ys. key < k'" by (fastforce simp: Cons y)
      with False es less search Cons y show thesis by (intro absent[of xs ys]) simp_all
    qed
  qed
qed

lemma keys_sorted_append:
  "keys_sorted (xs @ ys) \<longleftrightarrow>
     keys_sorted xs \<and> keys_sorted ys \<and> (\<forall>x \<in> fst ` set xs. \<forall>y \<in> fst ` set ys. x < y)"
  by (auto simp: sorted_wrt_append)

lemma map_of_middle:
  "key \<notin> fst ` set xs \<Longrightarrow> map_of (xs @ (key, v) # ys) = (map_of (xs @ ys))(key \<mapsto> v)"
  "key \<notin> fst ` set xs \<Longrightarrow> key \<notin> fst ` set ys \<Longrightarrow> map_of (xs @ ys) = (map_of (xs @ (key, v) # ys))(key := None)"
  by (auto simp: fun_eq_iff map_add_def map_of_eq_None_iff[THEN iffD2] split: option.splits)

section \<open>The invariant of the nodes\<close>

abbreviation entries_opt :: "'v RadixNode option \<Rightarrow> (u128 \<times> 'v) list" where
  "entries_opt c \<equiv> (case c of None \<Rightarrow> [] | Some n \<Rightarrow> node_entries n)"

text \<open>
  A node at a depth, below a prefix of as many digits: the leaves are small, sorted and non-empty and
  hold keys of that prefix, a branch has sixteen children of the extended prefixes, not all absent.
\<close>

fun radix_ok :: "nat \<Rightarrow> nat \<Rightarrow> 'v RadixNode \<Rightarrow> bool" where
  "radix_ok d p (Leaf es) \<longleftrightarrow>
     es \<noteq> [] \<and> length es \<le> RADIX_LEAF_CAPACITY \<and> keys_sorted es \<and> (\<forall>k \<in> fst ` set es. prefix d k = p)"
| "radix_ok d p (Branch cs) \<longleftrightarrow>
     d < RADIX_LEVELS \<and> length cs = RADIX_FANOUT \<and> (\<exists>c \<in> set cs. c \<noteq> None) \<and>
     (\<forall>s \<in> {..<16}. case child cs s of None \<Rightarrow> True | Some n \<Rightarrow> radix_ok (Suc d) (16 * p + s) n)"

definition child_ok :: "nat \<Rightarrow> nat \<Rightarrow> nat \<Rightarrow> 'v RadixNode option \<Rightarrow> bool" where
  "child_ok d p s c \<longleftrightarrow> (case c of None \<Rightarrow> True | Some n \<Rightarrow> radix_ok (Suc d) (16 * p + s) n)"

definition branch_ok :: "nat \<Rightarrow> nat \<Rightarrow> 'v RadixNode option list \<Rightarrow> bool" where
  "branch_ok d p cs \<longleftrightarrow> d < 32 \<and> length cs = 16 \<and> (\<forall>s < 16. child_ok d p s (child cs s))"

lemma radix_ok_Branch: "radix_ok d p (Branch cs) \<longleftrightarrow> branch_ok d p cs \<and> (\<exists>c \<in> set cs. c \<noteq> None)"
  by (auto simp: branch_ok_def child_ok_def)

declare radix_ok.simps(2) [simp del]

lemma node_entries_Branch: "node_entries (Branch cs) = concat (map (\<lambda>s. entries_opt (child cs s)) [0..<length cs])"
proof -
  have "map (\<lambda>s. entries_opt (child cs s)) [0..<length cs] = map entries_opt cs"
    by (rule nth_equalityI) (auto simp: child_def)
  then show ?thesis by simp
qed

declare node_entries.simps(2) [simp del]

lemma keys_blocks: "k \<in> fst ` set (concat (map f [0..<n])) \<longleftrightarrow> (\<exists>s < n. k \<in> fst ` set (f s))"
  by (auto simp: image_iff)

lemma sorted_blocks:
  assumes "\<And>s. s < n \<Longrightarrow> keys_sorted (f s)"
    and "\<And>s t x y. s < t \<Longrightarrow> t < n \<Longrightarrow> x \<in> fst ` set (f s) \<Longrightarrow> y \<in> fst ` set (f t) \<Longrightarrow> x < y"
  shows "keys_sorted (concat (map f [0..<n]))"
  using assms
proof (induction n)
  case (Suc n)
  have "keys_sorted (concat (map f [0..<n]))" by (rule Suc.IH) (use Suc.prems in auto)
  moreover have "keys_sorted (f n)" by (rule Suc.prems) simp
  moreover have "x < y" if "x \<in> fst ` set (concat (map f [0..<n]))" "y \<in> fst ` set (f n)" for x y
    using that(2) that(1)[unfolded keys_blocks] Suc.prems(2)[of _ n x y] by auto
  ultimately have "keys_sorted (concat (map f [0..<n]) @ f n)" unfolding keys_sorted_append by blast
  then show ?case by simp
qed simp

lemma map_of_blocks:
  assumes "s < n" "\<And>t. t < n \<Longrightarrow> t \<noteq> s \<Longrightarrow> k \<notin> fst ` set (f t)"
  shows "map_of (concat (map f [0..<n])) k = map_of (f s) k"
  using assms
proof (induction n)
  case (Suc n)
  have none: "map_of (f t) k = None" if "t < Suc n" "t \<noteq> s" for t
    using Suc.prems(2)[OF that] by (simp add: map_of_eq_None_iff)
  show ?case
  proof (cases "s = n")
    case True
    then have "k \<notin> fst ` set (concat (map f [0..<n]))" unfolding keys_blocks using Suc.prems(2) by auto
    then have "map_of (concat (map f [0..<n])) k = None" by (simp only: map_of_eq_None_iff not_False_eq_True)
    with True show ?thesis by (simp add: map_add_def split: option.split)
  next
    case False
    with Suc.IH Suc.prems none[of n] show ?thesis by (simp add: map_add_def split: option.split)
  qed
qed simp

definition entries_ok :: "nat \<Rightarrow> nat \<Rightarrow> (u128 \<times> 'v) list \<Rightarrow> bool" where
  "entries_ok d p es \<longleftrightarrow> keys_sorted es \<and> (\<forall>k \<in> fst ` set es. prefix d k = p)"

lemma branch_entries_ok:
  assumes "d < 32" "length cs = 16" "\<And>s. s < 16 \<Longrightarrow> entries_ok (Suc d) (16 * p + s) (entries_opt (child cs s))"
  shows "entries_ok d p (node_entries (Branch cs))"
    and "prefix d k = p \<Longrightarrow> map_of (node_entries (Branch cs)) k = map_of (entries_opt (child cs (radix_slot d k))) k"
proof -
  note e = assms(3)[unfolded entries_ok_def]
  have pre: "prefix (Suc d) x = 16 * p + s" if "s < 16" "x \<in> fst ` set (entries_opt (child cs s))" for s x
    using bspec[OF conjunct2[OF e[OF that(1)]] that(2)] .
  have "x < y" if "s < t" "t < 16" "x \<in> fst ` set (entries_opt (child cs s))" "y \<in> fst ` set (entries_opt (child cs t))" for s t x y
    by (rule prefix_less[of "Suc d"]) (use pre[of s x] pre[of t y] that in simp)
  then have "keys_sorted (node_entries (Branch cs))"
    unfolding node_entries_Branch assms(2) by (intro sorted_blocks) (simp_all add: e)
  moreover have "prefix d k = p" if "k \<in> fst ` set (node_entries (Branch cs))" for k
  proof -
    from that obtain s where s: "s < 16" "k \<in> fst ` set (entries_opt (child cs s))"
      unfolding node_entries_Branch assms(2) keys_blocks by blast
    with pre[OF s] show ?thesis using prefix_Suc_div[OF assms(1), of k] by simp
  qed
  ultimately show "entries_ok d p (node_entries (Branch cs))" by (simp add: entries_ok_def)
  show "map_of (node_entries (Branch cs)) k = map_of (entries_opt (child cs (radix_slot d k))) k" if "prefix d k = p"
    unfolding node_entries_Branch assms(2)
  proof (rule map_of_blocks)
    show "k \<notin> fst ` set (entries_opt (child cs t))" if t: "t < 16" "t \<noteq> radix_slot d k" for t
      using pre[OF t(1), of k] t(2) prefix_Suc[OF assms(1), of k] \<open>prefix d k = p\<close> by auto
  qed (use assms(1) in simp)
qed

lemma radix_entries_ok: "radix_ok d p n \<Longrightarrow> entries_ok d p (node_entries n)"
proof (induction d p n rule: radix_ok.induct)
  case (2 d p cs)
  then have b: "d < 32" "length cs = 16" "\<And>s. s < 16 \<Longrightarrow> child_ok d p s (child cs s)"
    by (simp_all add: radix_ok_Branch branch_ok_def)
  show ?case
  proof (rule branch_entries_ok(1)[OF b(1,2)])
    show "entries_ok (Suc d) (16 * p + s) (entries_opt (child cs s))" if "s < 16" for s
      using 2(1)[of s] b(3)[OF that] that by (auto simp: entries_ok_def child_ok_def split: option.splits)
  qed
qed (simp add: entries_ok_def)

lemmas entries_sorted = radix_entries_ok[unfolded entries_ok_def, THEN conjunct1]

lemma child_entries_ok: "child_ok d p s c \<Longrightarrow> entries_ok (Suc d) (16 * p + s) (entries_opt c)"
  by (cases c) (simp_all add: child_ok_def radix_entries_ok, simp add: entries_ok_def)

lemma branch_ok_entries:
  assumes "branch_ok d p cs"
  shows "entries_ok d p (node_entries (Branch cs))"
    and "prefix d k = p \<Longrightarrow> map_of (node_entries (Branch cs)) k = map_of (entries_opt (child cs (radix_slot d k))) k"
    and "prefix d k \<noteq> p \<Longrightarrow> map_of (node_entries (Branch cs)) k = None"
proof -
  have b: "d < 32" "length cs = 16" "\<And>s. s < 16 \<Longrightarrow> entries_ok (Suc d) (16 * p + s) (entries_opt (child cs s))"
    using assms by (simp_all add: branch_ok_def child_entries_ok)
  show e: "entries_ok d p (node_entries (Branch cs))" by (rule branch_entries_ok(1)[OF b])
  show "prefix d k = p \<Longrightarrow> map_of (node_entries (Branch cs)) k = map_of (entries_opt (child cs (radix_slot d k))) k"
    by (rule branch_entries_ok(2)[OF b])
  show "prefix d k \<noteq> p \<Longrightarrow> map_of (node_entries (Branch cs)) k = None"
    using e unfolding entries_ok_def by (subst map_of_eq_None_iff) blast
qed

text \<open>Replacing the child of a key changes the map at that key only, if it does so in the child.\<close>

lemma branch_update:
  assumes "branch_ok d p cs" "prefix d key = p" "child_ok d p (radix_slot d key) c"
    and "map_of (entries_opt c) = (map_of (entries_opt (child cs (radix_slot d key))))(key := r)"
  shows "branch_ok d p (cs[radix_slot d key := c])"
    and "map_of (node_entries (Branch (cs[radix_slot d key := c]))) = (map_of (node_entries (Branch cs)))(key := r)"
proof -
  let ?s = "radix_slot d key" and ?cs = "cs[radix_slot d key := c]"
  have s: "?s < length cs" using assms(1) by (simp add: branch_ok_def)
  then have child: "child ?cs t = (if t = ?s then c else child cs t)" for t by (auto simp: child_def)
  show ok: "branch_ok d p ?cs" using assms(1,3) by (auto simp: branch_ok_def child)
  show "map_of (node_entries (Branch ?cs)) = (map_of (node_entries (Branch cs)))(key := r)"
  proof
    fix k
    show "map_of (node_entries (Branch ?cs)) k = ((map_of (node_entries (Branch cs)))(key := r)) k"
    proof (cases "prefix d k = p")
      case True
      show ?thesis
        unfolding branch_ok_entries(2)[OF ok True] child fun_upd_apply branch_ok_entries(2)[OF assms(1) True]
        using assms(4) by (auto simp: fun_eq_iff)
    next
      case False
      then show ?thesis using assms(2) branch_ok_entries(3)[OF ok] branch_ok_entries(3)[OF assms(1)] by auto
    qed
  qed
qed

lemma branch_nonempty: "node_entries (Branch cs) \<noteq> [] \<Longrightarrow> \<exists>c \<in> set cs. c \<noteq> None"
  by (induction cs) (auto simp: node_entries.simps(2) split: option.splits)

lemma map_of_nonempty: "map_of es k = Some v \<Longrightarrow> es \<noteq> []"
  by auto

lemma leaf_get_map_of: "keys_sorted es \<Longrightarrow> leaf_get es key = map_of es key"
proof (erule search_cases[where key = key])
  fix xs v ys assume "es = xs @ (key, v) # ys" "binary_search_by_key es key = Inr (length xs)" "\<forall>k \<in> fst ` set xs. k < key"
  then show ?thesis by (fastforce simp: leaf_get_def map_add_def dest: map_of_SomeD split: option.split)
next
  fix xs ys assume "es = xs @ ys" "binary_search_by_key es key = Inl (length xs)"
    "\<forall>k \<in> fst ` set xs. k < key" "\<forall>k \<in> fst ` set ys. key < k"
  then have "key \<notin> fst ` set es" by auto
  then have "map_of es key = None" by (simp only: map_of_eq_None_iff not_False_eq_True)
  then show ?thesis using \<open>binary_search_by_key es key = Inl (length xs)\<close> by (simp add: leaf_get_def)
qed

lemma radix_get_map_of:
  "radix_ok d p n \<Longrightarrow> d \<le> 32 \<Longrightarrow> prefix d key = p \<Longrightarrow> radix_get n d key = map_of (node_entries n) key"
proof (induction n d key arbitrary: p rule: radix_get.induct)
  case (1 cs d key)
  then have b: "branch_ok d p cs" "d < 32" by (simp_all add: radix_ok_Branch branch_ok_def)
  show ?case
  proof (cases "child cs (radix_slot d key)")
    case None
    with b "1.prems"(3) branch_ok_entries(2)[OF b(1), of key] show ?thesis by simp
  next
    case (Some n)
    have "child_ok d p (radix_slot d key) (Some n)" using b Some unfolding branch_ok_def by (metis radix_slot_less)
    then have "radix_get n (d + 1) key = map_of (node_entries n) key"
      using b Some "1.prems"(3) by (intro "1.IH") (simp_all add: child_ok_def prefix_Suc)
    with b "1.prems"(3) branch_ok_entries(2)[OF b(1), of key] Some show ?thesis by simp
  qed
next
  case (2 es d key)
  then show ?case by (simp add: leaf_get_map_of)
qed

section \<open>Operations of the nodes\<close>

lemma between_sorted:
  "\<forall>k \<in> fst ` set xs. k < key \<Longrightarrow> \<forall>k \<in> fst ` set ys. key < k \<Longrightarrow> keys_sorted (xs @ ys) \<Longrightarrow> keys_sorted (xs @ (key, v) # ys)"
  by (auto simp: sorted_wrt_append)

lemma leaf_insert:
  assumes "keys_sorted es"
    and "(case binary_search_by_key es key of
           Inr i \<Rightarrow> (es[i := (fst (es ! i), v)], Some (snd (es ! i)))
         | Inl i \<Rightarrow> (take i es @ (key, v) # drop i es, None)) = (entries, previous)"
  shows "keys_sorted entries \<and> map_of entries = (map_of es)(key \<mapsto> v) \<and> previous = map_of es key \<and>
    fst ` set entries = insert key (fst ` set es)"
  using assms(1)
proof (cases es rule: search_cases[where key = key])
  case (found xs w ys)
  with assms(2) have e: "entries = xs @ (key, v) # ys" "previous = Some w" by auto
  have k: "key \<notin> fst ` set xs" using found(3) by auto
  have "keys_sorted entries" using assms(1) by (simp add: e found(1))
  with found(1) e map_of_middle(1)[OF k, of _ ys] show ?thesis by auto
next
  case (absent xs ys)
  with assms(2) have e: "entries = xs @ (key, v) # ys" "previous = None" by auto
  have k: "key \<notin> fst ` set xs" "key \<notin> fst ` set es" using absent by auto
  have "map_of es key = None" using k(2) by (simp only: map_of_eq_None_iff not_False_eq_True)
  moreover have "keys_sorted entries" unfolding e using absent assms(1) by (intro between_sorted) auto
  ultimately show ?thesis using absent(1) e(2) map_of_middle(1)[OF k(1), of v ys] unfolding e(1) by (auto simp: map_add_def)
qed

lemma leaf_modify:
  assumes "keys_sorted es" "binary_search_by_key es key = Inr i"
  shows "fst (es ! i) = key \<and> map_of es key = Some (snd (es ! i)) \<and>
    map_of (es[i := (key, w)]) = (map_of es)(key \<mapsto> w) \<and> map fst (es[i := (key, w)]) = map fst es"
  using assms(1)
proof (cases es rule: search_cases[where key = key])
  case (found xs v ys)
  have "key \<notin> fst ` set xs" using found(3) by auto
  with found assms(2) map_of_middle(1)[of key xs _ ys] show ?thesis by auto
qed (use assms(2) in auto)

lemma leaf_remove:
  assumes "keys_sorted es" "binary_search_by_key es key = Inr i"
  shows "keys_sorted (take i es @ drop (Suc i) es) \<and> map_of es key = Some (snd (es ! i)) \<and>
    map_of (take i es @ drop (Suc i) es) = (map_of es)(key := None) \<and> set (take i es @ drop (Suc i) es) \<subseteq> set es"
  using assms(1)
proof (cases es rule: search_cases[where key = key])
  case (found xs v ys)
  then have i: "i = length xs" using assms(2) by auto
  have k: "key \<notin> fst ` set xs" "key \<notin> fst ` set ys" using found(3,4) by auto
  have "keys_sorted (xs @ ys)" using assms(1) by (auto simp: found(1) sorted_wrt_append)
  with found i map_of_middle(1)[OF k(1), of v ys] map_of_middle(2)[OF k, of v] show ?thesis by auto
qed (use assms(2) in auto)

lemma leaf_absent: "keys_sorted es \<Longrightarrow> binary_search_by_key es key = Inl i \<Longrightarrow> map_of es key = None"
  using leaf_get_map_of[of es key] by (simp add: leaf_get_def)

text \<open>What an operation on a node at a depth and prefix does to the node's map.\<close>

definition radix_put :: "nat \<Rightarrow> nat \<Rightarrow> 'v RadixNode \<Rightarrow> u128 \<Rightarrow> 'v \<Rightarrow> 'v RadixNode \<Rightarrow> bool" where
  "radix_put d p n key v n' \<longleftrightarrow> radix_ok d p n' \<and> map_of (node_entries n') = (map_of (node_entries n))(key \<mapsto> v)"

lemma branch_put:
  assumes "branch_ok d p cs" "prefix d key = p" "child_ok d p (radix_slot d key) c"
    and "map_of (entries_opt c) = (map_of (entries_opt (child cs (radix_slot d key))))(key \<mapsto> v)"
    and "cs' = cs[radix_slot d key := c]"
  shows "branch_ok d p cs'" "map_of (node_entries (Branch cs')) = (map_of (node_entries (Branch cs)))(key \<mapsto> v)"
    "radix_put d p (Branch cs) key v (Branch cs')"
proof -
  show b: "branch_ok d p cs'" "map_of (node_entries (Branch cs')) = (map_of (node_entries (Branch cs)))(key \<mapsto> v)"
    unfolding assms(5) using branch_update[OF assms(1-4)] by blast+
  have "map_of (node_entries (Branch cs')) key = Some v" using b(2) by simp
  then have "\<exists>c \<in> set cs'. c \<noteq> None" by (intro branch_nonempty) (rule map_of_nonempty)
  with b show "radix_put d p (Branch cs) key v (Branch cs')" unfolding radix_put_def radix_ok_Branch by blast
qed

lemma put_child:
  assumes "radix_put (Suc d) (16 * p + s) n key v n'"
  shows "child_ok d p s (Some n')" "map_of (entries_opt (Some n')) = (map_of (entries_opt (Some n)))(key \<mapsto> v)"
  using assms by (simp_all add: radix_put_def child_ok_def)

lemma new_child:
  assumes "d < 32" "prefix d key = p"
  shows "child_ok d p (radix_slot d key) (Some (Leaf [(key, v)]))"
    "map_of (entries_opt (Some (Leaf [(key, v)]))) = (map_of (entries_opt None))(key \<mapsto> v)"
  using assms by (simp_all add: child_ok_def prefix_Suc)

lemma branch_child:
  assumes "branch_ok d p cs" "prefix d key = p" "child cs (radix_slot d key) = Some n"
  shows "radix_ok (Suc d) (16 * p + radix_slot d key) n" "prefix (Suc d) key = 16 * p + radix_slot d key" "d < 32"
    "map_of (node_entries (Branch cs)) key = map_of (node_entries n) key"
proof -
  show d: "d < 32" using assms(1) by (simp add: branch_ok_def)
  have "child_ok d p (radix_slot d key) (child cs (radix_slot d key))"
    using assms(1) d by (simp add: branch_ok_def)
  then show "radix_ok (Suc d) (16 * p + radix_slot d key) n" by (simp add: assms(3) child_ok_def)
  show "prefix (Suc d) key = 16 * p + radix_slot d key" using assms(2) d by (simp add: prefix_Suc)
  show "map_of (node_entries (Branch cs)) key = map_of (node_entries n) key"
    using branch_ok_entries(2)[OF assms(1,2)] assms(3) by simp
qed

definition insert_ok :: "nat \<Rightarrow> nat \<Rightarrow> 'v RadixNode \<Rightarrow> u128 \<Rightarrow> 'v \<Rightarrow> bool" where
  "insert_ok d p n key v \<longleftrightarrow>
     (\<exists>n'. insert_radix_cow n d key v = Some (n', map_of (node_entries n) key) \<and> radix_put d p n key v n')"

text \<open>Splitting a leaf: inserting entries one by one into the children of a fresh branch.\<close>

lemma split_fold:
  assumes "\<And>cs n k v. (k, v) \<in> set es \<Longrightarrow> branch_ok d p cs \<Longrightarrow> child cs (radix_slot d k) = Some n \<Longrightarrow>
      insert_ok (Suc d) (16 * p + radix_slot d k) n k v"
    and "branch_ok d p cs" "\<forall>k \<in> fst ` set es. prefix d k = p"
  shows "\<exists>cs'. fold_panics (split_entry (\<lambda>n k w. insert_radix_cow n (d + 1) k w) d) cs es = Some cs' \<and>
     branch_ok d p cs' \<and> map_of (node_entries (Branch cs')) = map_of (node_entries (Branch cs)) ++ map_of (rev es)"
  using assms
proof (induction es arbitrary: cs)
  case (Cons kv es)
  obtain k v where kv: "kv = (k, v)" by fastforce
  have k: "prefix d k = p" and d: "d < 32" using Cons.prems(2,3) kv by (simp_all add: branch_ok_def)
  let ?step = "split_entry (\<lambda>n k w. insert_radix_cow n (d + 1) k w) d"
  have "\<exists>c. ?step cs kv = Some (cs[radix_slot d k := c]) \<and> child_ok d p (radix_slot d k) c \<and>
     map_of (entries_opt c) = (map_of (entries_opt (child cs (radix_slot d k))))(k \<mapsto> v)"
  proof (cases "child cs (radix_slot d k)")
    case None
    then show ?thesis using new_child[OF d k, of v] by (auto simp: split_entry_def kv)
  next
    case (Some n)
    from Cons.prems(1)[of k v, OF _ Cons.prems(2) Some] kv
    obtain n' where "insert_radix_cow n (d + 1) k v = Some (n', map_of (node_entries n) k)"
      "radix_put (Suc d) (16 * p + radix_slot d k) n k v n'" by (auto simp: insert_ok_def)
    with put_child[OF this(2)] show ?thesis using Some by (auto simp: split_entry_def kv)
  qed
  then obtain c where c: "?step cs kv = Some (cs[radix_slot d k := c])" "child_ok d p (radix_slot d k) c"
    "map_of (entries_opt c) = (map_of (entries_opt (child cs (radix_slot d k))))(k \<mapsto> v)" by blast
  let ?cs = "cs[radix_slot d k := c]"
  note b = branch_put[OF Cons.prems(2) k c(2,3) refl]
  have "map_of (node_entries (Branch ?cs)) ++ map_of (rev es) = map_of (node_entries (Branch cs)) ++ map_of (rev (kv # es))"
    by (simp add: b(2) kv)
  moreover have "\<exists>cs'. fold_panics ?step ?cs es = Some cs' \<and> branch_ok d p cs' \<and>
      map_of (node_entries (Branch cs')) = map_of (node_entries (Branch ?cs)) ++ map_of (rev es)"
    by (rule Cons.IH[OF Cons.prems(1) b(1)]) (use Cons.prems(3) in auto)
  ultimately show ?case using c(1) by simp
qed simp

lemma map_of_rev: "distinct (map fst xs) \<Longrightarrow> map_of (rev xs) = map_of xs"
  by (induction xs) (auto simp: fun_eq_iff map_add_def map_of_eq_None_iff[THEN iffD2] split: option.split)

lemma no_children_ok: "d < 32 \<Longrightarrow> branch_ok d p no_children" "node_entries (Branch no_children) = []"
  by (simp_all add: branch_ok_def no_children_def child_ok_def child_def node_entries.simps(2))

lemma insert_radix_ok:
  "radix_ok d p n \<Longrightarrow> d \<le> 32 \<Longrightarrow> prefix d key = p \<Longrightarrow> insert_ok d p n key (v :: 'a)"
proof (induction n d key v arbitrary: p rule: insert_radix_cow.induct)
  case (1 cs d key v)
  then have b: "branch_ok d p cs" and d: "d < 32" by (simp_all add: radix_ok_Branch branch_ok_def)
  show ?case
  proof (cases "child cs (radix_slot d key)")
    case None
    with d new_child[OF d "1.prems"(3), of v] branch_put[OF b "1.prems"(3) _ _ refl, of "Some (Leaf [(key, v)])" v]
      branch_ok_entries(2)[OF b "1.prems"(3)]
    show ?thesis by (simp add: insert_ok_def insert_radix_cow.simps(1)[of cs] Let_def)
  next
    case (Some n)
    note c = branch_child[OF b "1.prems"(3) Some]
    from "1.IH"[OF _ refl Some, of "16 * p + radix_slot d key"] c d
    obtain n' where n': "insert_radix_cow n (d + 1) key v = Some (n', map_of (node_entries n) key)"
      "radix_put (Suc d) (16 * p + radix_slot d key) n key v n'" by (auto simp: insert_ok_def)
    note pc = put_child[OF n'(2)]
    have "radix_put d p (Branch cs) key v (Branch (cs[radix_slot d key := Some n']))"
      by (rule branch_put(3)[OF b "1.prems"(3) pc(1) _ refl]) (use pc(2) Some in simp)
    then show ?thesis using n'(1) Some d c(4)
      by (simp add: insert_ok_def insert_radix_cow.simps(1)[of cs] Let_def)
  qed
next
  case (2 es d key v)
  let ?r = "case binary_search_by_key es key of
           Inr i \<Rightarrow> (es[i := (fst (es ! i), v)], Some (snd (es ! i)))
         | Inl i \<Rightarrow> (take i es @ (key, v) # drop i es, None)"
  obtain entries previous where r: "?r = (entries, previous)" by fastforce
  from "2.prems" have es: "keys_sorted es" "\<forall>k \<in> fst ` set es. prefix d k = p" by simp_all
  note e = leaf_insert[OF es(1) r]
  then have pre: "\<forall>k \<in> fst ` set entries. prefix d k = p" using es(2) "2.prems"(3) by simp
  show ?case
  proof (cases "length entries \<le> 8")
    case True
    have "map_of entries key = Some v" using e by simp
    then have "radix_put d p (Leaf es) key v (Leaf entries)"
      using True e pre by (auto simp: radix_put_def dest: map_of_nonempty)
    with True e r show ?thesis by (simp add: insert_ok_def insert_radix_cow.simps(2)[of es])
  next
    case False
    show ?thesis
    proof (cases "d = 32")
      case True
      then have "\<forall>k \<in> fst ` set entries. unat k = p" using pre by simp
      then have "set (map fst entries) \<subseteq> {word_of_nat p}" by auto
      then have "card (set (map fst entries)) \<le> card {word_of_nat p :: u128}" by (intro card_mono) auto
      moreover have "length entries = card (set (map fst entries))"
        using e distinct_card[OF keys_sorted_distinct, of entries] by simp
      ultimately show ?thesis using \<open>\<not> length entries \<le> 8\<close> by simp
    next
      case False
      with "2.prems"(2) have d: "d < 32" by simp
      have "\<exists>cs. fold_panics (split_entry (\<lambda>n k w. insert_radix_cow n (d + 1) k w) d) no_children entries = Some cs \<and>
          branch_ok d p cs \<and> map_of (node_entries (Branch cs)) = map_of (node_entries (Branch no_children)) ++ map_of (rev entries)"
      proof (rule split_fold[OF _ no_children_ok(1)[OF d] pre])
        fix cs :: "'a RadixNode option list" and n k w assume "(k, w) \<in> set entries" and b: "branch_ok d p cs" and c: "child cs (radix_slot d k) = Some n"
        with pre have k: "prefix d k = p" by force
        note bc = branch_child[OF b k c]
        show "insert_ok (Suc d) (16 * p + radix_slot d k) n k w"
          using "2.IH" bc \<open>(k, w) \<in> set entries\<close> \<open>\<not> length entries \<le> 8\<close> d r by auto
      qed
      then obtain cs where "fold_panics (split_entry (\<lambda>n k w. insert_radix_cow n (d + 1) k w) d) no_children entries = Some cs"
        "branch_ok d p cs" "map_of (node_entries (Branch cs)) = (map_of es)(key \<mapsto> v)"
        using e by (auto simp: no_children_ok(2) map_of_rev keys_sorted_distinct)
      note f = this
      have "map_of (node_entries (Branch cs)) key = Some v" using f(3) by simp
      then have "\<exists>c \<in> set cs. c \<noteq> None" by (intro branch_nonempty) (rule map_of_nonempty)
      with f have "radix_put d p (Leaf es) key v (Branch cs)" unfolding radix_put_def radix_ok_Branch by simp
      moreover have "insert_radix_cow (Leaf es) d key v = Some (Branch cs, previous)"
        unfolding insert_radix_cow.simps(2) r using d \<open>\<not> length entries \<le> 8\<close> f(1) by simp
      ultimately show ?thesis using e by (auto simp: insert_ok_def)
    qed
  qed
qed

lemma modify_radix_ok:
  assumes "radix_ok d p n" "d \<le> 32" "prefix d key = p"
  shows "case map_of (node_entries n) key of
      None \<Rightarrow> get_radix_mut n d key f = None
    | Some v \<Rightarrow> \<exists>n'. get_radix_mut n d key f = Some n' \<and> radix_put d p n key (f v) n'"
  using assms
proof (induction n d key f arbitrary: p rule: get_radix_mut.induct)
  case (1 cs d key f)
  then have b: "branch_ok d p cs" and d: "d < 32" by (simp_all add: radix_ok_Branch branch_ok_def)
  show ?case
  proof (cases "child cs (radix_slot d key)")
    case None
    then show ?thesis using branch_ok_entries(2)[OF b "1.prems"(3)] d by simp
  next
    case (Some n)
    note c = branch_child[OF b "1.prems"(3) Some]
    have ih: "case map_of (node_entries n) key of
        None \<Rightarrow> get_radix_mut n (d + 1) key f = None
      | Some v \<Rightarrow> \<exists>n'. get_radix_mut n (d + 1) key f = Some n' \<and> radix_put (Suc d) (16 * p + radix_slot d key) n key (f v) n'"
      unfolding Suc_eq_plus1 by (rule "1.IH"[OF _ refl Some]) (use c d in simp_all)
    show ?thesis
    proof (cases "map_of (node_entries n) key")
      case None
      then show ?thesis using ih Some d c(4) by simp
    next
      case v: (Some v)
      with ih obtain n' where n': "get_radix_mut n (d + 1) key f = Some n'"
        "radix_put (Suc d) (16 * p + radix_slot d key) n key (f v) n'" by auto
      note pc = put_child[OF n'(2)]
      have "radix_put d p (Branch cs) key (f v) (Branch (cs[radix_slot d key := Some n']))"
        by (rule branch_put(3)[OF b "1.prems"(3) pc(1) _ refl]) (use pc(2) Some in simp)
      then show ?thesis using n'(1) Some d c(4) v by simp
    qed
  qed
next
  case (2 es d key f)
  then have es: "keys_sorted es" by simp
  show ?case
  proof (cases "binary_search_by_key es key")
    case (Inl i)
    with leaf_absent[OF es Inl] show ?thesis by simp
  next
    case (Inr i)
    note m = leaf_modify[OF es Inr, of "f (snd (es ! i))"]
    then have "fst ` set (es[i := (key, f (snd (es ! i)))]) = fst ` set es" by (metis list.set_map)
    with m Inr "2.prems" show ?thesis by (auto simp: radix_put_def)
  qed
qed

definition remove_ok :: "nat \<Rightarrow> nat \<Rightarrow> 'v RadixNode \<Rightarrow> u128 \<Rightarrow> 'v RadixNode option \<times> 'v option \<Rightarrow> bool" where
  "remove_ok d p n key r \<longleftrightarrow>
     snd r = map_of (node_entries n) key \<and> (case fst r of None \<Rightarrow> True | Some n' \<Rightarrow> radix_ok d p n') \<and>
     map_of (entries_opt (fst r)) = (map_of (node_entries n))(key := None)"

lemma remove_ok_absent:
  "radix_ok d p n \<Longrightarrow> map_of (node_entries n) key = None \<Longrightarrow> remove_ok d p n key (Some n, None)"
  by (auto simp: remove_ok_def)

lemma map_of_empty_entries: "map_of es = Map.empty \<Longrightarrow> es = []"
  by (cases es) (auto simp: fun_eq_iff split: if_splits)

lemma remove_radix_ok:
  "radix_ok d p n \<Longrightarrow> d \<le> 32 \<Longrightarrow> prefix d key = p \<Longrightarrow> remove_ok d p n key (remove_radix n d key)"
proof (induction n d key arbitrary: p rule: remove_radix.induct)
  case (1 es d key)
  then have es: "keys_sorted es" by simp
  show ?case
  proof (cases "binary_search_by_key es key")
    case (Inl i)
    with leaf_absent[OF es Inl] remove_ok_absent[OF "1.prems"(1)] show ?thesis by simp
  next
    case (Inr i)
    note m = leaf_remove[OF es Inr]
    let ?e = "take i es @ drop (Suc i) es"
    have "length ?e \<le> 8" using "1.prems"(1) by (auto simp: min_def)
    moreover have "\<forall>k \<in> fst ` set ?e. prefix d k = p" using m "1.prems"(1) by (auto simp del: set_append)
    ultimately show ?thesis using m Inr by (auto simp: remove_ok_def Let_def)
  qed
next
  case (2 cs d key)
  then have b: "branch_ok d p cs" and d: "d < 32" by (simp_all add: radix_ok_Branch branch_ok_def)
  show ?case
  proof (cases "child cs (radix_slot d key)")
    case None
    then have "map_of (node_entries (Branch cs)) key = None" using branch_ok_entries(2)[OF b "2.prems"(3)] by simp
    with None remove_ok_absent[OF "2.prems"(1)] d show ?thesis by simp
  next
    case (Some n)
    note c = branch_child[OF b "2.prems"(3) Some]
    obtain r v where r: "remove_radix n (d + 1) key = (r, v)" by fastforce
    have ih: "remove_ok (Suc d) (16 * p + radix_slot d key) n key (r, v)"
      using "2.IH"[OF _ refl Some, of "16 * p + radix_slot d key"] c d r by simp
    show ?thesis
    proof (cases v)
      case None
      then have "map_of (node_entries (Branch cs)) key = None" using ih c(4) by (simp add: remove_ok_def)
      with remove_ok_absent[OF "2.prems"(1)] None r Some d show ?thesis by simp
    next
      case v: (Some w)
      let ?cs = "cs[radix_slot d key := r]"
      have u: "branch_ok d p ?cs" "map_of (node_entries (Branch ?cs)) = (map_of (node_entries (Branch cs)))(key := None)"
        using branch_update[OF b "2.prems"(3), of r None] ih Some
        by (simp_all add: remove_ok_def child_ok_def)
      have res: "remove_radix (Branch cs) d key =
          (if \<exists>c \<in> set ?cs. c \<noteq> None then Some (Branch ?cs) else None, Some w)"
        using Some r v d by (simp add: Let_def)
      have w: "map_of (node_entries (Branch cs)) key = Some w" using ih c(4) v by (simp add: remove_ok_def)
      show ?thesis
      proof (cases "\<exists>c \<in> set ?cs. c \<noteq> None")
        case True
        then show ?thesis using u w unfolding res remove_ok_def by (simp add: radix_ok_Branch)
      next
        case False
        then have "node_entries (Branch ?cs) = []" using branch_nonempty[of ?cs] by metis
        then have "(map_of (node_entries (Branch cs)))(key := None) = Map.empty" using u(2) by simp
        then show ?thesis using w unfolding res if_not_P[OF False] remove_ok_def by simp
      qed
    qed
  qed
qed

section \<open>The map refines a finite map\<close>

definition pmap_ok :: "'v PersistentMap \<Rightarrow> bool" where
  "pmap_ok m \<longleftrightarrow>
     (case pm_root m of
        None \<Rightarrow> pm_len m = 0
      | Some n \<Rightarrow> pm_root_depth m < 32 \<and> radix_ok (pm_root_depth m) 0 n \<and> pm_len m = length (node_entries n))"

definition pm_map :: "'v PersistentMap \<Rightarrow> u128 \<rightharpoonup> 'v" where
  "pm_map m = map_of (pm_entries m)"

lemma pm_entries_root: "pm_entries m = entries_opt (pm_root m)"
  by (simp add: pm_entries_def iter_collect_remaining remaining_def pm_iter_def split: option.split)

lemma pm_map_root: "pm_map m = map_of (entries_opt (pm_root m))"
  by (simp add: pm_map_def pm_entries_root)

lemma pmap_sorted: "pmap_ok m \<Longrightarrow> keys_sorted (pm_entries m)"
  by (auto simp: pm_entries_root pmap_ok_def entries_sorted split: option.splits)

lemma pm_len_card: "pmap_ok m \<Longrightarrow> pm_len m = card (dom (pm_map m))"
  using length_entries[OF pmap_sorted, of m]
  by (auto simp: pm_map_def pm_entries_root pmap_ok_def split: option.splits)

lemma root_prefix:
  assumes "pmap_ok m" "leading_zeros key div 4 < pm_root_depth m"
  shows "pm_map m key = None"
proof (cases "pm_root m")
  case (Some n)
  with assms(1) have n: "pm_root_depth m < 32" "radix_ok (pm_root_depth m) 0 n" by (simp_all add: pmap_ok_def)
  with assms(2) have "prefix (pm_root_depth m) key \<noteq> 0" using leading_zeros_prefix[of "pm_root_depth m" key] by simp
  then have "key \<notin> fst ` set (node_entries n)" using radix_entries_ok[OF n(2)] by (auto simp: entries_ok_def)
  then have "map_of (node_entries n) key = None" by (simp only: map_of_eq_None_iff not_False_eq_True)
  with Some show ?thesis by (simp add: pm_map_root)
qed (simp add: pm_map_root)

lemma pm_get_map: "pmap_ok m \<Longrightarrow> pm_get m key = pm_map m key"
proof (cases "leading_zeros key div 4 < pm_root_depth m")
  case True
  then show "pmap_ok m \<Longrightarrow> pm_get m key = pm_map m key"
    using root_prefix[of m key] by (simp add: pm_get_def split: option.split)
next
  case False
  assume ok: "pmap_ok m"
  show "pm_get m key = pm_map m key"
  proof (cases "pm_root m")
    case (Some n)
    with ok have n: "pm_root_depth m < 32" "radix_ok (pm_root_depth m) 0 n" by (simp_all add: pmap_ok_def)
    with False have "prefix (pm_root_depth m) key = 0" using leading_zeros_prefix[of "pm_root_depth m" key] by simp
    with radix_get_map_of[OF n(2)] n(1) False Some show ?thesis by (simp add: pm_get_def pm_map_root)
  qed (simp add: pm_get_def pm_map_root)
qed

text \<open>Raising the root.\<close>

lemma promote_ok:
  "radix_ok d 0 n \<Longrightarrow> j \<le> d \<Longrightarrow> d \<le> 32 \<Longrightarrow> radix_ok (d - j) 0 (promote j n) \<and> node_entries (promote j n) = node_entries n"
proof (induction j arbitrary: d n)
  case (Suc j)
  let ?b = "Branch (no_children[0 := Some n])"
  have cs: "(no_children[0 := Some n] :: 'a RadixNode option list) = Some n # replicate 15 None"
    using replicate_Suc[of 15 "None :: 'a RadixNode option"] by (simp add: no_children_def)
  have child: "child (no_children[0 := Some n]) s = (if s = 0 then Some n else None)" for s
    by (auto simp: child_def no_children_def nth_list_update)
  have "branch_ok (d - 1) 0 (no_children[0 := Some n])"
    unfolding branch_ok_def child child_ok_def using Suc.prems by (simp add: no_children_def)
  then have "radix_ok (d - 1) 0 ?b" unfolding radix_ok_Branch by (simp add: cs)
  moreover have "node_entries ?b = node_entries n" by (simp add: cs node_entries.simps(2))
  ultimately show ?case using Suc.IH[of "d - 1" ?b] Suc.prems by simp
qed simp

lemma lower_leaf: "radix_ok d 0 (Leaf es) \<Longrightarrow> d' \<le> d \<Longrightarrow> d \<le> 32 \<Longrightarrow> radix_ok d' 0 (Leaf es)"
proof -
  assume d: "d' \<le> d" "d \<le> 32" and l: "radix_ok d 0 (Leaf es)"
  have "prefix d' k = 0" if "prefix d k = 0" for k
    using that leading_zeros_prefix[OF d(2), of k] leading_zeros_prefix[OF le_trans[OF d], of k] d(1) by simp
  then show "radix_ok d' 0 (Leaf es)" using l by simp
qed

text \<open>The map with its root raised to the depth of a key.\<close>

lemma raised_root:
  assumes "pmap_ok m" "pm_root m = Some n"
    and "d = min (pm_root_depth m) (min (leading_zeros key div 4) 31)"
    and "n' = (case n of Leaf _ \<Rightarrow> n | Branch _ \<Rightarrow> promote (pm_root_depth m - min (leading_zeros key div 4) 31) n)"
  shows "radix_ok d 0 n'" "node_entries n' = node_entries n" "prefix d key = 0" "d < 32"
proof -
  from assms(1,2) have n: "pm_root_depth m < 32" "radix_ok (pm_root_depth m) 0 n" by (simp_all add: pmap_ok_def)
  have le: "d \<le> 32" "d \<le> leading_zeros key div 4" using n(1) assms(3) by simp_all
  show "prefix d key = 0" using leading_zeros_prefix[OF le(1), of key] le(2) by blast
  show "d < 32" using n(1) assms(3) by simp
  let ?j = "pm_root_depth m - min (leading_zeros key div 4) 31"
  have d: "d = pm_root_depth m - ?j" "?j \<le> pm_root_depth m" "d \<le> pm_root_depth m" "pm_root_depth m \<le> 32"
    using assms(3) n(1) by (simp_all add: min_def)
  have "radix_ok d 0 n' \<and> node_entries n' = node_entries n"
  proof (cases n)
    case (Branch cs)
    then show ?thesis using promote_ok[OF n(2) d(2,4)] unfolding assms(4) d(1)[symmetric] by simp
  next
    case (Leaf es)
    then show ?thesis using lower_leaf[of "pm_root_depth m" es d] n(2) d(3,4) unfolding assms(4) by simp
  qed
  then show "radix_ok d 0 n'" "node_entries n' = node_entries n" by simp_all
qed

lemma inserted_len:
  assumes "pmap_ok m" "keys_sorted es" "map_of es = (pm_map m)(key \<mapsto> v)"
  shows "length es = (if pm_map m key = None then pm_len m + 1 else pm_len m)"
proof -
  have "finite (dom (pm_map m))" by (simp add: pm_map_def finite_dom_map_of)
  then show ?thesis
    using length_entries[OF assms(2)] pm_len_card[OF assms(1)] by (auto simp: assms(3) insert_absorb domIff)
qed

lemma pm_insert_map:
  assumes "pmap_ok m"
  shows "\<exists>m'. pm_insert_cow m key v = Some (m', pm_map m key) \<and> pmap_ok m' \<and> pm_map m' = (pm_map m)(key \<mapsto> v)"
proof (cases "pm_root m")
  case None
  let ?d = "min (leading_zeros key div 4) 31"
  have "?d \<le> 32" "?d \<le> leading_zeros key div 4" by simp_all
  then have "prefix ?d key = 0" using leading_zeros_prefix by blast
  then show ?thesis
    using assms None by (auto simp: pm_insert_cow_def pmap_ok_def pm_map_root Let_def)
next
  case (Some n)
  let ?d = "min (pm_root_depth m) (min (leading_zeros key div 4) 31)"
  let ?n = "case n of Leaf _ \<Rightarrow> n | Branch _ \<Rightarrow> promote (pm_root_depth m - min (leading_zeros key div 4) 31) n"
  note r = raised_root[OF assms Some refl refl, of key]
  have map: "pm_map m = map_of (node_entries ?n)" using Some r(2) by (simp add: pm_map_root)
  from insert_radix_ok[OF r(1) less_imp_le[OF r(4)] r(3), of v] obtain n' where
    n': "insert_radix_cow ?n ?d key v = Some (n', pm_map m key)" "radix_put ?d 0 ?n key v n'"
    unfolding insert_ok_def map by blast
  let ?m = "m\<lparr>pm_root := Some n', pm_root_depth := ?d, pm_len := if pm_map m key = None then pm_len m + 1 else pm_len m\<rparr>"
  have res: "pm_insert_cow m key v = Some (?m, pm_map m key)"
    using Some n'(1) by (cases n) (simp_all add: pm_insert_cow_def Let_def)
  have new: "radix_ok ?d 0 n'" "map_of (node_entries n') = (pm_map m)(key \<mapsto> v)"
    using n'(2) by (simp_all add: radix_put_def map)
  then have "pmap_ok ?m"
    using inserted_len[OF assms entries_sorted[OF new(1)] new(2)] r(4) by (simp add: pmap_ok_def)
  with res new(2) show ?thesis by (auto simp: pm_map_root)
qed

lemma pm_modify_map:
  assumes "pmap_ok m"
  shows "case pm_map m key of
      None \<Rightarrow> pm_get_mut m key f = None
    | Some v \<Rightarrow> \<exists>m'. pm_get_mut m key f = Some m' \<and> pmap_ok m' \<and> pm_map m' = (pm_map m)(key \<mapsto> f v)"
proof (cases "leading_zeros key div 4 < pm_root_depth m")
  case True
  then show ?thesis using root_prefix[OF assms True] by (simp add: pm_get_mut_def)
next
  case low: False
  show ?thesis
  proof (cases "pm_root m")
    case None
    then show ?thesis by (simp add: pm_get_mut_def pm_map_root)
  next
    case (Some n)
    with assms have n: "pm_root_depth m < 32" "radix_ok (pm_root_depth m) 0 n" by (simp_all add: pmap_ok_def)
    with low have "prefix (pm_root_depth m) key = 0" using leading_zeros_prefix[of "pm_root_depth m" key] by simp
    note mod = modify_radix_ok[OF n(2) less_imp_le[OF n(1)] this, of f]
    have map: "pm_map m = map_of (node_entries n)" using Some by (simp add: pm_map_root)
    show ?thesis
    proof (cases "pm_map m key")
      case None
      with mod map Some low show ?thesis by (simp add: pm_get_mut_def)
    next
      case v: (Some v)
      with mod map obtain n' where n': "get_radix_mut n (pm_root_depth m) key f = Some n'"
        "radix_put (pm_root_depth m) 0 n key (f v) n'" by auto
      then have new: "radix_ok (pm_root_depth m) 0 n'" "map_of (node_entries n') = (pm_map m)(key \<mapsto> f v)"
        by (simp_all add: radix_put_def map)
      then have "pmap_ok (m\<lparr>pm_root := Some n'\<rparr>)"
        using inserted_len[OF assms entries_sorted[OF new(1)] new(2)] n(1) v by (simp add: pmap_ok_def)
      with n' new v Some low show ?thesis by (simp add: pm_get_mut_def pm_map_root)
    qed
  qed
qed

lemma pm_remove_map:
  assumes "pmap_ok m"
  shows "snd (pm_remove m key) = pm_map m key \<and> pmap_ok (fst (pm_remove m key)) \<and>
    pm_map (fst (pm_remove m key)) = (pm_map m)(key := None)"
proof (cases "leading_zeros key div 4 < pm_root_depth m \<or> pm_root m = None")
  case True
  then have none: "pm_map m key = None" using root_prefix[OF assms] by (auto simp: pm_map_root)
  moreover have "pm_remove m key = (m, None)" using True by (auto simp: pm_remove_def)
  ultimately show ?thesis using assms by auto
next
  case False
  then obtain n where Some: "pm_root m = Some n" and low: "\<not> leading_zeros key div 4 < pm_root_depth m" by auto
  with assms have n: "pm_root_depth m < 32" "radix_ok (pm_root_depth m) 0 n" by (simp_all add: pmap_ok_def)
  with low have "prefix (pm_root_depth m) key = 0" using leading_zeros_prefix[of "pm_root_depth m" key] by simp
  note rem = remove_radix_ok[OF n(2) less_imp_le[OF n(1)] this]
  have map: "pm_map m = map_of (node_entries n)" using Some by (simp add: pm_map_root)
  obtain r v where r: "remove_radix n (pm_root_depth m) key = (r, v)" by fastforce
  with rem map have v: "v = pm_map m key" and ok: "case r of None \<Rightarrow> True | Some n' \<Rightarrow> radix_ok (pm_root_depth m) 0 n'"
    and new: "map_of (entries_opt r) = (pm_map m)(key := None)" by (simp_all add: remove_ok_def)
  have res: "pm_remove m key = (if v = None then m else m\<lparr>pm_root := r, pm_len := pm_len m - 1\<rparr>, v)"
    using Some low r by (simp add: pm_remove_def)
  show ?thesis
  proof (cases v)
    case None
    then have "(pm_map m)(key := None) = pm_map m" using v by auto
    then show ?thesis using assms res v None by simp
  next
    case (Some w)
    have "keys_sorted (entries_opt r)" using ok by (auto simp: entries_sorted split: option.splits)
    then have "length (entries_opt r) = card (dom (pm_map m) - {key})"
      using length_entries[of "entries_opt r"] new by simp
    also have "\<dots> = pm_len m - 1"
      using pm_len_card[OF assms] domI[of "pm_map m" key w] v Some by (simp add: card_Diff_singleton)
    finally have len: "length (entries_opt r) = pm_len m - 1" .
    have "pmap_ok (m\<lparr>pm_root := r, pm_len := pm_len m - 1\<rparr>)"
      using ok len n(1) by (auto simp: pmap_ok_def split: option.splits)
    moreover have "pm_map (m\<lparr>pm_root := r, pm_len := pm_len m - 1\<rparr>) = (pm_map m)(key := None)"
      using new by (simp add: pm_map_root)
    moreover have "pm_remove m key = (m\<lparr>pm_root := r, pm_len := pm_len m - 1\<rparr>, Some w)" using res Some by simp
    ultimately show ?thesis using v Some by simp
  qed
qed

section \<open>The dictionary interface\<close>

text \<open>What the clients of the map rely on: a finite map behind an invariant.\<close>

locale dictionary =
  fixes ok :: "'m \<Rightarrow> bool"
    and contents :: "'m \<Rightarrow> u128 \<rightharpoonup> 'v"
    and empty :: 'm
    and lookup :: "'m \<Rightarrow> u128 \<Rightarrow> 'v option"
    and insert :: "'m \<Rightarrow> u128 \<Rightarrow> 'v \<Rightarrow> ('m \<times> 'v option) option"
    and modify :: "'m \<Rightarrow> u128 \<Rightarrow> ('v \<Rightarrow> 'v) \<Rightarrow> 'm option"
    and remove :: "'m \<Rightarrow> u128 \<Rightarrow> 'm \<times> 'v option"
  assumes empty_ok: "ok empty"
    and empty_contents: "contents empty = Map.empty"
    and lookup_contents: "ok m \<Longrightarrow> lookup m k = contents m k"
    and insert_contents: "ok m \<Longrightarrow>
      \<exists>m'. insert m k v = Some (m', contents m k) \<and> ok m' \<and> contents m' = (contents m)(k \<mapsto> v)"
    and modify_contents: "ok m \<Longrightarrow>
      case contents m k of
        None \<Rightarrow> modify m k f = None
      | Some v \<Rightarrow> \<exists>m'. modify m k f = Some m' \<and> ok m' \<and> contents m' = (contents m)(k \<mapsto> f v)"
    and remove_contents: "ok m \<Longrightarrow>
      snd (remove m k) = contents m k \<and> ok (fst (remove m k)) \<and> contents (fst (remove m k)) = (contents m)(k := None)"
begin

lemma insert_lookup:
  assumes "ok m" "insert m k v = Some (m', old)"
  shows "old = lookup m k" "ok m'" "lookup m' j = (if j = k then Some v else lookup m j)"
  using insert_contents[OF assms(1), of k v] assms by (auto simp: lookup_contents)

lemma insert_total: "ok m \<Longrightarrow> insert m k v \<noteq> None"
  using insert_contents by blast

lemma remove_lookup:
  "ok m \<Longrightarrow> lookup (fst (remove m k)) j = (if j = k then None else lookup m j)"
  using remove_contents[of m k] by (simp add: lookup_contents)

lemma modify_present:
  assumes "ok m" "contents m k = Some v"
  obtains m' where "modify m k f = Some m'" "ok m'" "contents m' = (contents m)(k \<mapsto> f v)"
  using modify_contents[OF assms(1), of k f] assms(2) by auto

text \<open>Removing the keys of a list one after another.\<close>

lemma remove_all:
  "ok m \<Longrightarrow> ok (foldl (\<lambda>m k. fst (remove m k)) m ks) \<and>
     contents (foldl (\<lambda>m k. fst (remove m k)) m ks) = (\<lambda>k. if k \<in> set ks then None else contents m k)"
proof (induction ks arbitrary: m)
  case (Cons k ks)
  from remove_contents[OF Cons.prems, of k] Cons.IH[of "fst (remove m k)"] show ?case
    by (auto simp: fun_eq_iff)
qed simp

end

interpretation pm: dictionary pmap_ok pm_map pm_default pm_get pm_insert_cow pm_get_mut pm_remove
proof
  show "pmap_ok pm_default" "pm_map pm_default = Map.empty"
    by (simp_all add: pmap_ok_def pm_default_def pm_map_root)
qed (rule pm_get_map pm_insert_map pm_modify_map pm_remove_map, assumption)+

section \<open>Properties\<close>

text \<open>Reading back a serialised map.\<close>

lemma visit_map_entries:
  assumes "pmap_ok m" "keys_sorted es" "dom (pm_map m) \<inter> fst ` set es = {}"
  shows "\<exists>m'. visit_map m es = Some (Inr m') \<and> pmap_ok m' \<and> pm_map m' = pm_map m ++ map_of es"
  using assms
proof (induction es arbitrary: m)
  case (Cons kv es)
  obtain k v where kv: "kv = (k, v)" by fastforce
  have none: "pm_map m k = None" using Cons.prems(3) kv by (auto simp: domIff)
  from pm.insert_contents[OF Cons.prems(1), of k v] obtain m1 where
    m1: "pm_insert m k v = Some (m1, None)" "pmap_ok m1" "pm_map m1 = (pm_map m)(k \<mapsto> v)"
    by (auto simp: pm_insert_def none)
  have k: "k \<notin> fst ` set es" using Cons.prems(2) kv by auto
  then have "dom (pm_map m1) \<inter> fst ` set es = {}" using Cons.prems(3) kv m1(3) by auto
  with Cons.IH[OF m1(2)] Cons.prems(2) obtain m' where
    "visit_map m1 es = Some (Inr m')" "pmap_ok m'" "pm_map m' = pm_map m1 ++ map_of es" by auto
  moreover have "pm_map m1 ++ map_of es = pm_map m ++ map_of (kv # es)"
    using k m1(3) by (auto simp: kv fun_eq_iff map_add_def map_of_eq_None_iff[THEN iffD2] split: option.split)
  moreover have "visit_map m (kv # es) = visit_map m1 es" using m1(1) by (simp add: kv)
  ultimately show ?case by metis
qed simp

text \<open>
  C22. The radix map is a finite map. A lookup returns what the finite map holds; an insertion never
  panics, keeps the invariant, returns the previous value and changes the map at the key only; a
  removal returns the value and forgets the key; the stored length is the number of keys.
\<close>

theorem persistent_map_refines:
  assumes "pmap_ok m"
  shows "pm_get m k = pm_map m k \<and> pm_len m = card (dom (pm_map m)) \<and>
    (\<exists>m'. pm_insert m k v = Some (m', pm_map m k) \<and> pmap_ok m' \<and> pm_map m' = (pm_map m)(k \<mapsto> v)) \<and>
    (\<exists>m'. pm_remove m k = (m', pm_map m k) \<and> pmap_ok m' \<and> pm_map m' = (pm_map m)(k := None))"
proof -
  have "\<exists>m'. pm_remove m k = (m', pm_map m k) \<and> pmap_ok m' \<and> pm_map m' = (pm_map m)(k := None)"
    using pm.remove_contents[OF assms, of k] by (metis prod.collapse)
  then show ?thesis
    using pm.lookup_contents[OF assms] pm_len_card[OF assms] pm.insert_contents[OF assms, of k v]
    unfolding pm_insert_def by blast
qed

definition example_map :: "nat PersistentMap" where
  "example_map = fst (the (pm_insert (fst (the (pm_insert pm_default 1 10))) (2 ^ 127) 20))"

lemma example_map_ok: "pmap_ok example_map" "pm_map example_map = [1 \<mapsto> 10, 2 ^ 127 \<mapsto> 20]"
proof -
  obtain m1 where m1: "pm_insert pm_default 1 (10 :: nat) = Some (m1, None)" "pmap_ok m1" "pm_map m1 = [1 \<mapsto> 10]"
    using pm.insert_contents[OF pm.empty_ok, of 1 "10 :: nat"] by (auto simp: pm_insert_def pm.empty_contents)
  from pm.insert_contents[OF m1(2), of "2 ^ 127" 20] m1 show "pmap_ok example_map" "pm_map example_map = [1 \<mapsto> 10, 2 ^ 127 \<mapsto> 20]"
    by (auto simp: example_map_def pm_insert_def)
qed

theorem persistent_map_refines_witness:
  "pm_get example_map 1 = Some 10 \<and> pm_len example_map = 2"
  using persistent_map_refines[OF example_map_ok(1), of 1] by (simp add: example_map_ok(2))

text \<open>
  C23. Copy-on-write maps iterate in key order and survive a round trip through their serialised form:
  the entries come out strictly sorted, the visitor accepts them without panic or duplicate, and the
  rebuilt map has the same entries and length.
\<close>

theorem persistent_map_roundtrip:
  assumes "pmap_ok m"
  shows "sorted_wrt (<) (map fst (snd (pm_serialize m))) \<and> length (snd (pm_serialize m)) = fst (pm_serialize m) \<and>
    (\<exists>m'. pm_deserialize (snd (pm_serialize m)) = Some (Inr m') \<and> pmap_ok m' \<and> pm_serialize m' = pm_serialize m)"
proof -
  have s: "keys_sorted (pm_entries m)" by (rule pmap_sorted[OF assms])
  obtain m' where m': "pm_deserialize (pm_entries m) = Some (Inr m')" "pmap_ok m'" "pm_map m' = pm_map m"
    using visit_map_entries[OF pm.empty_ok s] by (auto simp: pm_deserialize_def pm.empty_contents pm_map_def[of m])
  then have "pm_entries m' = pm_entries m"
    using entries_unique[OF pmap_sorted s] by (simp add: pm_map_def)
  moreover have "pm_len m' = pm_len m" using m'(2,3) assms by (simp add: pm_len_card)
  moreover have "length (pm_entries m) = pm_len m"
    using length_entries[OF s] pm_len_card[OF assms] by (simp add: pm_map_def)
  ultimately show ?thesis using s m' by (auto simp: pm_serialize_def)
qed

theorem persistent_map_roundtrip_witness:
  "\<exists>m'. pm_deserialize (snd (pm_serialize example_map)) = Some (Inr m') \<and> pm_serialize m' = pm_serialize example_map"
  using persistent_map_roundtrip[OF example_map_ok(1)] by blast

lemma stable_id_bits: "n < 64 \<Longrightarrow> bit (stable_id_key i) (n + 64) = bit i n"
  by (simp add: stable_id_key_def bit_simps)

lemma stable_id_low_bits: "n < 64 \<Longrightarrow> \<not> bit (stable_id_key i) n"
  by (simp add: stable_id_key_def bit_simps)

lemma stable_id_key_inject: "stable_id_key i = stable_id_key j \<longleftrightarrow> i = j"
proof
  assume "stable_id_key i = stable_id_key j"
  then have "bit i n = bit j n" if "n < 64" for n using that by (metis stable_id_bits)
  then show "i = j" by (intro bit_word_eqI) simp
qed simp

lemma legacy_key_differs: "i \<noteq> j \<Longrightarrow> (ucast j :: u128) \<noteq> stable_id_key i"
proof
  assume ne: "i \<noteq> j" and eq: "(ucast j :: u128) = stable_id_key i"
  have "j = 0" by (rule bit_word_eqI) (use stable_id_low_bits[of _ i] in \<open>simp flip: eq add: bit_simps\<close>)
  moreover have "i = 0"
    by (rule bit_word_eqI) (use stable_id_bits[of _ i] \<open>j = 0\<close> in \<open>simp flip: eq add: bit_simps\<close>)
  ultimately show False using ne by simp
qed

text \<open>
  C24. Stable identities. After storing a row under the stable key of an identity, that identity
  resolves to the row and every other identity resolves as before, legacy entries included.
\<close>

theorem stable_id_row_insert:
  assumes "pmap_ok m" "pm_insert m (stable_id_key i) row = Some (m', old)"
  shows "stable_id_row m' j = (if j = i then Some row else stable_id_row m j)"
  using pm.insert_lookup(3)[OF assms(1) assms(2)[unfolded pm_insert_def]] legacy_key_differs[of i j]
  by (auto simp: stable_id_row_def stable_id_key_inject split: option.split)

theorem stable_id_row_insert_witness:
  "\<exists>m' old. pm_insert pm_default (stable_id_key 7) 3 = Some (m', old) \<and> stable_id_row m' 7 = Some 3"
proof -
  obtain m' old where "pm_insert pm_default (stable_id_key 7) (3 :: u32) = Some (m', old)"
    using pm.insert_total[OF pm.empty_ok] by (metis not_None_eq pm_insert_def surj_pair)
  with stable_id_row_insert[OF pm.empty_ok this, of 7] show ?thesis by simp
qed

end
