(* ===== verification/Shared_Flat.thy ===== *)
theory Shared_Flat
  imports Prelude
begin

text \<open>
  Typed views into shared allocations, \<^verbatim>\<open>crates/graph/src/shared.rs\<close>: the checked construction that
  stands in front of the only raw-pointer reads of the graph crate.

  An allocation is its base address and its bytes. A view is an address and an element count; reading
  it decodes the bytes between. The element type enters through its size, its alignment and the
  decoding of its bytes, which the compiler fixes. Errors are static strings.
\<close>

record 'a layout =
  size_of :: nat
  align_of :: nat
  decode :: "bytes \<Rightarrow> 'a"

record SharedAllocation =
  base_ptr :: nat
  alloc_bytes :: bytes

definition byte_len :: "SharedAllocation \<Rightarrow> nat" where
  "byte_len a = length (alloc_bytes a)"

text \<open>
  The contract of the unsafe trait, and of every Rust allocation: a non-null base whose bytes do not
  wrap around the address space.
\<close>

definition allocation_ok :: "SharedAllocation \<Rightarrow> bool" where
  "allocation_ok a \<longleftrightarrow> base_ptr a \<noteq> 0 \<and> base_ptr a + byte_len a < usize_limit"

record SharedFlat =
  sf_allocation :: SharedAllocation
  sf_pointer :: nat
  sf_len :: nat

text \<open>\<open>NonNull::dangling\<close> is the alignment of its type.\<close>

definition empty_allocation :: SharedAllocation where
  "empty_allocation = \<lparr>base_ptr = 1, alloc_bytes = []\<rparr>"

definition sf_empty :: "'a layout \<Rightarrow> SharedFlat" where
  "sf_empty L = \<lparr>sf_allocation = empty_allocation, sf_pointer = align_of L, sf_len = 0\<rparr>"

definition sf_new :: "'a layout \<Rightarrow> SharedAllocation \<Rightarrow> nat \<Rightarrow> nat \<Rightarrow> string + SharedFlat" where
  "sf_new L allocation byte_offset len =
     (case checked_mul_usize len (size_of L) of
        None \<Rightarrow> Inl ''shared flat allocation size overflow''
      | Some bytes \<Rightarrow> (case checked_add_usize byte_offset bytes of
          None \<Rightarrow> Inl ''shared flat allocation range overflow''
        | Some end_offset \<Rightarrow>
            if size_of L = 0 then Inl ''zero-sized shared flat values are unsupported''
            else if len = 0 then Inr (sf_empty L)
            else if end_offset > byte_len allocation then Inl ''shared flat allocation range is out of bounds''
            else if base_ptr allocation = 0 then Inl ''shared flat allocation has a null base pointer''
            else let pointer = base_ptr allocation + byte_offset in
              if pointer mod align_of L \<noteq> 0 then Inl ''shared flat allocation is not aligned for its value type''
              else if pointer = 0 then Inl ''shared flat allocation pointer is null''
              else Inr \<lparr>sf_allocation = allocation, sf_pointer = pointer, sf_len = len\<rparr>))"

definition is_prefix_of :: "SharedFlat \<Rightarrow> SharedFlat \<Rightarrow> bool" where
  "is_prefix_of v extended \<longleftrightarrow>
     base_ptr (sf_allocation v) = base_ptr (sf_allocation extended) \<and>
     byte_len (sf_allocation v) = byte_len (sf_allocation extended) \<and>
     sf_pointer v = sf_pointer extended \<and> sf_len v \<le> sf_len extended"

definition extended_prefix :: "'a layout \<Rightarrow> SharedFlat \<Rightarrow> nat \<Rightarrow> string + SharedFlat" where
  "extended_prefix L v len =
     (if len < sf_len v then Inl ''shared flat prefix extension cannot shrink''
      else case checked_sub_usize (sf_pointer v) (base_ptr (sf_allocation v)) of
          None \<Rightarrow> Inl ''shared flat prefix starts before its allocation''
        | Some byte_offset \<Rightarrow> sf_new L (sf_allocation v) byte_offset len)"

text \<open>\<open>slice::from_raw_parts\<close>: the bytes from the pointer on, one element per \<open>size_of\<close> bytes.\<close>

definition sf_element :: "'a layout \<Rightarrow> SharedFlat \<Rightarrow> nat \<Rightarrow> 'a" where
  "sf_element L v i =
     decode L (take (size_of L) (drop (sf_pointer v - base_ptr (sf_allocation v) + i * size_of L)
       (alloc_bytes (sf_allocation v))))"

definition sf_as_slice :: "'a layout \<Rightarrow> SharedFlat \<Rightarrow> 'a list" where
  "sf_as_slice L v = map (sf_element L v) [0..<sf_len v]"

definition sf_slice :: "'a layout \<Rightarrow> SharedFlat \<Rightarrow> nat \<Rightarrow> nat \<Rightarrow> string + SharedFlat" where
  "sf_slice L v start len =
     (case checked_add_usize start len of
        None \<Rightarrow> Inl ''shared flat slice range overflow''
      | Some end_index \<Rightarrow>
          if end_index > sf_len v then Inl ''shared flat slice is out of bounds''
          else (case checked_sub_usize (sf_pointer v) (base_ptr (sf_allocation v)) of
              None \<Rightarrow> Inl ''shared flat pointer precedes its allocation''
            | Some current_offset \<Rightarrow>
                (case (case checked_mul_usize start (size_of L) of
                         None \<Rightarrow> None
                       | Some offset \<Rightarrow> checked_add_usize current_offset offset) of
                   None \<Rightarrow> Inl ''shared flat slice byte range overflow''
                 | Some byte_offset \<Rightarrow> sf_new L (sf_allocation v) byte_offset len)))"

definition u8_layout :: "u8 layout" where
  "u8_layout = \<lparr>size_of = 1, align_of = 1, decode = hd\<rparr>"

definition bool_layout :: "bool layout" where
  "bool_layout = \<lparr>size_of = 1, align_of = 1, decode = (\<lambda>bs. hd bs = 1)\<rparr>"

definition into_bools :: "SharedFlat \<Rightarrow> string + SharedFlat" where
  "into_bools v =
     (if \<exists>b \<in> set (sf_as_slice u8_layout v). b > 1 then Inl ''shared boolean column contains a non-boolean byte''
      else case checked_sub_usize (sf_pointer v) (base_ptr (sf_allocation v)) of
          None \<Rightarrow> Inl ''shared boolean pointer precedes its allocation''
        | Some offset \<Rightarrow> sf_new bool_layout (sf_allocation v) offset (sf_len v))"

datatype 'a FlatColumn = OwnedColumn "'a list" | SharedColumn SharedFlat

definition flat_column_from_vec :: "'a list \<Rightarrow> 'a FlatColumn" where
  "flat_column_from_vec vs = OwnedColumn vs"

definition flat_column_from_shared :: "SharedFlat \<Rightarrow> 'a FlatColumn" where
  "flat_column_from_shared v = SharedColumn v"

fun flat_column_as_slice :: "'a layout \<Rightarrow> 'a FlatColumn \<Rightarrow> 'a list" where
  "flat_column_as_slice L (OwnedColumn vs) = vs"
| "flat_column_as_slice L (SharedColumn v) = sf_as_slice L v"

definition flat_column_eq :: "'a layout \<Rightarrow> 'a FlatColumn \<Rightarrow> 'a FlatColumn \<Rightarrow> bool" where
  "flat_column_eq L a b \<longleftrightarrow> flat_column_as_slice L a = flat_column_as_slice L b"

text \<open>The sequence handed to a serialiser, and the column rebuilt from one.\<close>

definition flat_column_serialize :: "'a layout \<Rightarrow> 'a FlatColumn \<Rightarrow> nat \<times> 'a list" where
  "flat_column_serialize L c = (length (flat_column_as_slice L c), flat_column_as_slice L c)"

definition flat_column_deserialize :: "'a list \<Rightarrow> 'a FlatColumn" where
  "flat_column_deserialize vs = flat_column_from_vec vs"

section \<open>Views stay inside their allocations\<close>

definition layout_ok :: "'a layout \<Rightarrow> bool" where
  "layout_ok L \<longleftrightarrow> 0 < size_of L \<and> 0 < align_of L \<and> size_of L mod align_of L = 0"

text \<open>What \<open>from_raw_parts\<close> requires: every element in bounds, and an aligned non-null pointer.\<close>

definition view_ok :: "'a layout \<Rightarrow> SharedFlat \<Rightarrow> bool" where
  "view_ok L v \<longleftrightarrow>
     allocation_ok (sf_allocation v) \<and> sf_pointer v \<noteq> 0 \<and> sf_pointer v mod align_of L = 0 \<and>
     base_ptr (sf_allocation v) \<le> sf_pointer v \<and>
     (sf_len v = 0 \<or> sf_pointer v + sf_len v * size_of L \<le> base_ptr (sf_allocation v) + byte_len (sf_allocation v))"

lemma sf_empty_ok: "layout_ok L \<Longrightarrow> view_ok L (sf_empty L)"
  by (simp add: view_ok_def sf_empty_def layout_ok_def allocation_ok_def empty_allocation_def byte_len_def)

lemma sf_new_view:
  assumes "layout_ok L" "allocation_ok a" "sf_new L a off n = Inr v"
  shows "view_ok L v" "sf_len v = n" "n \<noteq> 0 \<Longrightarrow> sf_allocation v = a \<and> sf_pointer v = base_ptr a + off"
  using assms sf_empty_ok[OF assms(1)]
  by (auto simp: sf_new_def view_ok_def checked_mul_usize_def checked_add_usize_def Let_def sf_empty_def
      split: if_splits option.splits)

lemma sf_new_total:
  assumes "layout_ok L" "allocation_ok a" "off + n * size_of L \<le> byte_len a" "(base_ptr a + off) mod align_of L = 0"
  shows "\<exists>v. sf_new L a off n = Inr v"
  using assms
  by (auto simp: sf_new_def checked_mul_usize_def checked_add_usize_def layout_ok_def allocation_ok_def Let_def)

lemma sf_new_elements:
  assumes "layout_ok L" "allocation_ok a" "sf_new L a off n = Inr v"
  shows "sf_as_slice L v = map (\<lambda>i. decode L (take (size_of L) (drop (off + i * size_of L) (alloc_bytes a)))) [0..<n]"
  using sf_new_view[OF assms] by (cases "n = 0") (simp_all add: sf_as_slice_def sf_element_def)

lemma view_extent:
  assumes "layout_ok L" "view_ok L v" "start + n \<le> sf_len v" "n \<noteq> 0"
  shows "(start + n) * size_of L \<le> byte_len (sf_allocation v) - (sf_pointer v - base_ptr (sf_allocation v))"
    "sf_pointer v - base_ptr (sf_allocation v) \<le> byte_len (sf_allocation v)"
proof -
  have "(start + n) * size_of L \<le> sf_len v * size_of L" by (rule mult_le_mono1[OF assms(3)])
  moreover have "sf_pointer v + sf_len v * size_of L \<le> base_ptr (sf_allocation v) + byte_len (sf_allocation v)"
    "base_ptr (sf_allocation v) \<le> sf_pointer v" using assms(2-4) by (auto simp: view_ok_def)
  ultimately show "(start + n) * size_of L \<le> byte_len (sf_allocation v) - (sf_pointer v - base_ptr (sf_allocation v))"
    "sf_pointer v - base_ptr (sf_allocation v) \<le> byte_len (sf_allocation v)" by linarith+
qed

text \<open>A slice within the bounds of a valid view succeeds, and holds the elements of the range.\<close>

lemma sf_slice_ok:
  assumes "layout_ok L" "view_ok L v" "start + n \<le> sf_len v" "n \<noteq> 0"
  shows "\<exists>w. sf_slice L v start n = Inr w \<and> view_ok L w \<and> sf_as_slice L w = take n (drop start (sf_as_slice L v))"
proof -
  let ?a = "sf_allocation v" and ?off = "sf_pointer v - base_ptr (sf_allocation v)"
  have ok: "allocation_ok ?a" and le: "base_ptr ?a \<le> sf_pointer v" and al: "sf_pointer v mod align_of L = 0"
    using assms(2) by (simp_all add: view_ok_def)
  note ext = view_extent[OF assms]
  have lim: "byte_len ?a < usize_limit" using ok by (simp add: allocation_ok_def)
  have size: "start + n \<le> (start + n) * size_of L" "start * size_of L \<le> (start + n) * size_of L"
    using assms(1) by (simp_all add: layout_ok_def)
  have bound: "?off + start * size_of L + n * size_of L \<le> byte_len ?a"
    using ext by (simp add: add_mult_distrib)
  have fits: "start + n < usize_limit" "start * size_of L < usize_limit" "?off + start * size_of L < usize_limit"
    using size ext lim bound by linarith+
  have "(base_ptr ?a + (?off + start * size_of L)) mod align_of L = (sf_pointer v + start * size_of L) mod align_of L"
    using le by simp
  also have "\<dots> = 0" using al assms(1) by (auto simp: layout_ok_def mod_eq_0_iff_dvd)
  finally obtain w where w: "sf_new L ?a (?off + start * size_of L) n = Inr w"
    using sf_new_total[OF assms(1) ok, of "?off + start * size_of L" n] bound by auto
  have "sf_slice L v start n = Inr w"
    using w fits le assms(3) by (simp add: sf_slice_def checked_add_usize_def checked_mul_usize_def checked_sub_usize_def)
  moreover have "sf_as_slice L w = take n (drop start (sf_as_slice L v))"
    unfolding sf_new_elements[OF assms(1) ok w] sf_as_slice_def[of L v] sf_element_def
    using assms(3) by (intro nth_equalityI) (simp_all add: add_mult_distrib add.assoc)
  ultimately show ?thesis using sf_new_view(1)[OF assms(1) ok w] by blast
qed

section \<open>Properties\<close>

text \<open>
  C25. Memory safety of shared views. Starting from allocations that keep the contract of the unsafe
  trait, every view that construction, slicing and prefix extension return is aligned, non-null and
  inside its allocation, whatever offsets and lengths the caller passes.
\<close>

theorem shared_views_in_bounds:
  assumes "layout_ok L"
  shows "(allocation_ok a \<and> sf_new L a off n = Inr w \<longrightarrow> view_ok L w) \<and>
    (view_ok L v \<and> sf_slice L v start n = Inr w \<longrightarrow> view_ok L w) \<and>
    (view_ok L v \<and> extended_prefix L v n = Inr w \<longrightarrow> view_ok L w)"
proof -
  have "view_ok L w" if "view_ok L v" "sf_new L (sf_allocation v) k n = Inr w" for k
    using sf_new_view(1)[OF assms _ that(2)] that(1) by (simp add: view_ok_def)
  then show ?thesis
    using sf_new_view(1)[OF assms]
    by (auto simp: sf_slice_def extended_prefix_def split: if_splits option.splits)
qed

definition example_allocation :: SharedAllocation where
  "example_allocation = \<lparr>base_ptr = 4096, alloc_bytes = [1, 0, 1, 7]\<rparr>"

theorem shared_views_in_bounds_witness:
  "view_ok u8_layout \<lparr>sf_allocation = example_allocation, sf_pointer = 4097, sf_len = 2\<rparr>"
proof -
  have L: "layout_ok u8_layout" by (simp add: layout_ok_def u8_layout_def)
  have "sf_new u8_layout example_allocation 1 2 =
      Inr \<lparr>sf_allocation = example_allocation, sf_pointer = 4097, sf_len = 2\<rparr>"
    by (simp add: sf_new_def u8_layout_def example_allocation_def checked_mul_usize_def checked_add_usize_def byte_len_def)
  moreover have "allocation_ok example_allocation"
    by (simp add: allocation_ok_def example_allocation_def byte_len_def)
  ultimately show ?thesis using shared_views_in_bounds[OF L] by blast
qed

end
