(* ===== verification/Paged_Vec.thy ===== *)
theory Paged_Vec
  imports Radix_Refinement Shared_Flat
begin

text \<open>
  The paged copy-on-write vector of \<^verbatim>\<open>crates/graph/src/persistent.rs\<close>: pages of up to 16 KiB behind a
  directory of leaves in a radix map, with an optional default for rows that have no page.

  \<open>Arc\<close> is its contents, and \<open>Vec\<close> capacities are not observed. Reading through a mutable reference
  is modelled by the update made through it. The outer option is a panic; an inner one is the
  \<open>Option\<close> of the source. A \<open>usize\<close> is a natural below \<open>2 ^ 64\<close>; the unchecked additions of the source
  wrap, as they do in the release profile of \<^verbatim>\<open>Cargo.toml\<close>, which leaves overflow checks off.
\<close>

section \<open>Pages and directory\<close>

definition PAGE_BYTES :: nat where "PAGE_BYTES = 16 * 1024"
definition MAX_PAGE_ELEMENTS :: nat where "MAX_PAGE_ELEMENTS = 4096"
definition PAGES_PER_LEAF :: nat where "PAGES_PER_LEAF = 256"

definition page_capacity :: "'a layout \<Rightarrow> nat" where
  "page_capacity L = (let width = max (size_of L) 1 in min (max (PAGE_BYTES div width) 1) MAX_PAGE_ELEMENTS)"

datatype 'a ValuePage = Owned "'a list" | Shared SharedFlat

fun page_len :: "'a ValuePage \<Rightarrow> nat" where
  "page_len (Owned vs) = length vs"
| "page_len (Shared v) = sf_len v"

fun page_slice :: "'a layout \<Rightarrow> 'a ValuePage \<Rightarrow> 'a list" where
  "page_slice L (Owned vs) = vs"
| "page_slice L (Shared v) = sf_as_slice L v"

definition page_get_mut :: "'a layout \<Rightarrow> 'a ValuePage \<Rightarrow> nat \<Rightarrow> ('a \<Rightarrow> 'a) \<Rightarrow> 'a ValuePage option" where
  "page_get_mut L page i f =
     (let vs = page_slice L page in if i < length vs then Some (Owned (vs[i := f (vs ! i)])) else None)"

definition page_push :: "'a layout \<Rightarrow> 'a ValuePage \<Rightarrow> 'a \<Rightarrow> 'a ValuePage" where
  "page_push L page v = Owned (page_slice L page @ [v])"

record 'a PageLeaf =
  leaf_pages :: "'a ValuePage option list"

record 'a PageDirectory =
  pd_leaves :: "'a PageLeaf PersistentMap"
  pd_first_page :: nat
  pd_len :: nat
  pd_default :: "'a option"

text \<open>A \<open>PagedVec\<close> is an \<open>Arc\<close> of its directory.\<close>

type_synonym 'a PagedVec = "'a PageDirectory"

definition leaf_key :: "nat \<Rightarrow> u128" where
  "leaf_key leaf = word_reverse (word_of_nat leaf)"

definition slot_page :: "'a PageLeaf \<Rightarrow> nat \<Rightarrow> 'a ValuePage option" where
  "slot_page leaf slot = (if slot < length (leaf_pages leaf) then leaf_pages leaf ! slot else None)"

definition dir_page :: "'a PageDirectory \<Rightarrow> nat \<Rightarrow> 'a ValuePage option" where
  "dir_page d page =
     (case pm_get (pd_leaves d) (leaf_key (page div PAGES_PER_LEAF)) of
        None \<Rightarrow> None
      | Some leaf \<Rightarrow> slot_page leaf (page mod PAGES_PER_LEAF))"

text \<open>Growing a leaf to hold a slot, and storing through the reference to it.\<close>

definition store_slot ::
  "nat \<Rightarrow> ('a ValuePage option \<Rightarrow> 'a ValuePage option) \<Rightarrow> 'a PageLeaf \<Rightarrow> 'a PageLeaf" where
  "store_slot slot u leaf =
     (let pages = leaf_pages leaf;
          pages = (if length pages \<le> slot then pages @ replicate (slot + 1 - length pages) None else pages)
      in leaf\<lparr>leaf_pages := pages[slot := u (pages ! slot)]\<rparr>)"

definition dir_page_mut ::
  "'a PageDirectory \<Rightarrow> nat \<Rightarrow> ('a ValuePage option \<Rightarrow> 'a ValuePage option) \<Rightarrow> 'a PageDirectory option" where
  "dir_page_mut d page u =
     (let key = leaf_key (page div PAGES_PER_LEAF);
          leaves = (if pm_contains_key (pd_leaves d) key then Some (pd_leaves d)
                    else map_option fst (pm_insert_cow (pd_leaves d) key \<lparr>leaf_pages = []\<rparr>)) in
      case leaves of
        None \<Rightarrow> None
      | Some leaves \<Rightarrow>
          map_option (\<lambda>leaves. d\<lparr>pd_leaves := leaves\<rparr>)
            (pm_get_mut leaves key (store_slot (page mod PAGES_PER_LEAF) u)))"

section \<open>The vector\<close>

definition paged_default :: "'a PagedVec" where
  "paged_default = \<lparr>pd_leaves = pm_default, pd_first_page = 0, pd_len = 0, pd_default = None\<rparr>"

text \<open>The loop of \<open>from_shared\<close>, from an offset on.\<close>

lemma page_capacity_pos [simp]: "0 < page_capacity L"
  by (simp add: page_capacity_def Let_def MAX_PAGE_ELEMENTS_def)

function share_pages :: "'a layout \<Rightarrow> SharedFlat \<Rightarrow> nat \<Rightarrow> 'a PageDirectory \<Rightarrow> (string + 'a PageDirectory) option" where
  "share_pages L vals offset d =
     (if offset < sf_len vals then
        let capacity = page_capacity L;
            page_len = min capacity (sf_len vals - offset) in
        (case sf_slice L vals offset page_len of
           Inl e \<Rightarrow> Some (Inl e)
         | Inr page \<Rightarrow>
             (case dir_page_mut d (offset div capacity) (\<lambda>_. Some (Shared page)) of
                None \<Rightarrow> None
              | Some d \<Rightarrow> share_pages L vals (offset + page_len) d))
      else Some (Inr d))"
  by pat_completeness auto
termination
  by (relation "measure (\<lambda>(L, vals, offset, d). sf_len vals - offset)") (auto intro!: diff_less_mono2)

declare share_pages.simps [simp del]

definition from_shared :: "'a layout \<Rightarrow> SharedFlat \<Rightarrow> (string + 'a PagedVec) option" where
  "from_shared L vals = share_pages L vals 0 (paged_default\<lparr>pd_len := sf_len vals\<rparr>)"

definition paged_repeat :: "'a \<Rightarrow> nat \<Rightarrow> 'a PagedVec" where
  "paged_repeat v len = \<lparr>pd_leaves = pm_default, pd_first_page = 0, pd_len = len, pd_default = Some v\<rparr>"

definition rebase_shared :: "'a layout \<Rightarrow> 'a PagedVec \<Rightarrow> SharedFlat \<Rightarrow> (string + 'a PagedVec) option" where
  "rebase_shared L d vals = from_shared L vals"

definition paged_is_empty :: "'a PagedVec \<Rightarrow> bool" where
  "paged_is_empty d \<longleftrightarrow> pd_len d = 0"

definition paged_get :: "'a layout \<Rightarrow> 'a PagedVec \<Rightarrow> nat \<Rightarrow> 'a option" where
  "paged_get L d index =
     (if index \<ge> pd_len d then None
      else let capacity = page_capacity L in
        (case checked_add_usize (pd_first_page d) (index div capacity) of
           None \<Rightarrow> None
         | Some page \<Rightarrow>
             (case (case dir_page d page of
                      None \<Rightarrow> None
                    | Some page \<Rightarrow> let vs = page_slice L page; i = index mod capacity
                                   in if i < length vs then Some (vs ! i) else None) of
                Some v \<Rightarrow> Some v
              | None \<Rightarrow> pd_default d)))"

text \<open>Allocating the page of a row from the default; \<open>Some None\<close> when there is no default.\<close>

definition ensure_page :: "'a layout \<Rightarrow> 'a PagedVec \<Rightarrow> nat \<Rightarrow> nat \<Rightarrow> 'a PagedVec option option" where
  "ensure_page L d index page_index =
     (if dir_page d page_index = None then
        (case pd_default d of
           None \<Rightarrow> Some None
         | Some v \<Rightarrow>
             let capacity = page_capacity L;
                 len = min capacity (pd_len d - index div capacity * capacity)
             in map_option Some (dir_page_mut d page_index (\<lambda>_. Some (Owned (replicate len v)))))
      else Some (Some d))"

definition paged_get_mut :: "'a layout \<Rightarrow> 'a PagedVec \<Rightarrow> nat \<Rightarrow> ('a \<Rightarrow> 'a) \<Rightarrow> 'a PagedVec option option" where
  "paged_get_mut L d index f =
     (if index \<ge> pd_len d then Some None
      else let capacity = page_capacity L in
        (case checked_add_usize (pd_first_page d) (index div capacity) of
           None \<Rightarrow> Some None
         | Some page_index \<Rightarrow>
             (case ensure_page L d index page_index of
                None \<Rightarrow> None
              | Some None \<Rightarrow> Some None
              | Some (Some d) \<Rightarrow>
                  (case dir_page d page_index of
                     None \<Rightarrow> Some None
                   | Some page \<Rightarrow>
                       (case page_get_mut L page (index mod capacity) f of
                          None \<Rightarrow> Some None
                        | Some page \<Rightarrow> map_option Some (dir_page_mut d page_index (\<lambda>_. Some page)))))))"

definition paged_replace :: "'a layout \<Rightarrow> 'a PagedVec \<Rightarrow> nat \<Rightarrow> 'a \<Rightarrow> (string + 'a PagedVec) option" where
  "paged_replace L d index v =
     map_option (\<lambda>r. case r of None \<Rightarrow> Inl ''paged vector index is out of bounds'' | Some d \<Rightarrow> Inr d)
       (paged_get_mut L d index (\<lambda>_. v))"

definition paged_push :: "'a layout \<Rightarrow> 'a PagedVec \<Rightarrow> 'a \<Rightarrow> 'a PagedVec option" where
  "paged_push L d v =
     (let capacity = page_capacity L;
          page_index = (pd_first_page d + pd_len d div capacity) mod usize_limit;
          offset = pd_len d mod capacity;
          fresh = Owned (if offset \<noteq> 0 then (case pd_default d of Some w \<Rightarrow> replicate offset w | None \<Rightarrow> []) else [])
      in map_option (\<lambda>d. d\<lparr>pd_len := (pd_len d + 1) mod usize_limit\<rparr>)
           (dir_page_mut d page_index (\<lambda>p. Some (page_push L (case p of None \<Rightarrow> fresh | Some page \<Rightarrow> page) v))))"

text \<open>One page of the iterator; slicing a page shorter than its extent panics.\<close>

definition iter_page :: "'a layout \<Rightarrow> 'a PagedVec \<Rightarrow> nat \<Rightarrow> 'a list option" where
  "iter_page L d page =
     (let capacity = page_capacity L;
          len = min capacity (pd_len d - page * capacity) in
      case (case dir_page d ((pd_first_page d + page) mod usize_limit) of
              None \<Rightarrow> Some []
            | Some vals \<Rightarrow> let vs = page_slice L vals in if len \<le> length vs then Some (take len vs) else None) of
        None \<Rightarrow> None
      | Some allocated \<Rightarrow>
          Some (allocated @ (case pd_default d of None \<Rightarrow> [] | Some v \<Rightarrow> replicate (len - length allocated) v)))"

definition div_ceil :: "nat \<Rightarrow> nat \<Rightarrow> nat" where
  "div_ceil a b = (if a mod b = 0 then a div b else a div b + 1)"

definition paged_iter :: "'a layout \<Rightarrow> 'a PagedVec \<Rightarrow> 'a list option" where
  "paged_iter L d = map_option concat (those (map (iter_page L d) [0..<div_ceil (pd_len d) (page_capacity L)]))"

definition discard_prefix_leaves :: "'a layout \<Rightarrow> 'a PagedVec \<Rightarrow> nat \<Rightarrow> 'a PagedVec \<times> nat" where
  "discard_prefix_leaves L d elements =
     (let capacity = page_capacity L;
          leaf_capacity = capacity * PAGES_PER_LEAF;
          removable = (if elements \<ge> pd_len d then pd_len d else elements div leaf_capacity * leaf_capacity) in
      if removable = 0 then (d, 0)
      else let page_count = div_ceil removable capacity;
               past = (pd_first_page d + page_count) mod usize_limit;
               leaves = foldl (\<lambda>m leaf. fst (pm_remove m (leaf_key leaf))) (pd_leaves d)
                 [pd_first_page d div PAGES_PER_LEAF..<div_ceil past PAGES_PER_LEAF];
               d = d\<lparr>pd_leaves := leaves, pd_first_page := past, pd_len := pd_len d - removable\<rparr>;
               d = (if pd_len d = 0 then d\<lparr>pd_leaves := pm_default, pd_first_page := 0\<rparr> else d)
           in (d, removable))"

definition first_leaf_len :: "'a layout \<Rightarrow> 'a PagedVec \<Rightarrow> nat" where
  "first_leaf_len L d = min (pd_len d) (page_capacity L * PAGES_PER_LEAF)"

definition paged_to_vec :: "'a layout \<Rightarrow> 'a PagedVec \<Rightarrow> 'a list option" where
  "paged_to_vec L d = paged_iter L d"

text \<open>\<open>Index\<close> and \<open>IndexMut\<close> panic out of bounds.\<close>

definition paged_index :: "'a layout \<Rightarrow> 'a PagedVec \<Rightarrow> nat \<Rightarrow> 'a option" where
  "paged_index L d index = paged_get L d index"

definition paged_index_mut :: "'a layout \<Rightarrow> 'a PagedVec \<Rightarrow> nat \<Rightarrow> ('a \<Rightarrow> 'a) \<Rightarrow> 'a PagedVec option" where
  "paged_index_mut L d index f = (case paged_get_mut L d index f of Some (Some d) \<Rightarrow> Some d | _ \<Rightarrow> None)"

definition paged_eq :: "'a layout \<Rightarrow> 'a PagedVec \<Rightarrow> 'a PagedVec \<Rightarrow> bool option" where
  "paged_eq L a b =
     (if pd_len a \<noteq> pd_len b then Some False
      else case (paged_iter L a, paged_iter L b) of (Some xs, Some ys) \<Rightarrow> Some (xs = ys) | _ \<Rightarrow> None)"

definition paged_serialize :: "'a layout \<Rightarrow> 'a PagedVec \<Rightarrow> (nat \<times> 'a list) option" where
  "paged_serialize L d = map_option (\<lambda>vs. (pd_len d, vs)) (paged_iter L d)"

definition visit_seq :: "'a layout \<Rightarrow> 'a list \<Rightarrow> 'a PagedVec option" where
  "visit_seq L vs = fold_panics (paged_push L) paged_default vs"

section \<open>The directory holds one page per index\<close>

lemma leaf_key_inject:
  assumes "a < 2 ^ 128" "b < 2 ^ 128"
  shows "leaf_key a = leaf_key b \<longleftrightarrow> a = b"
proof
  assume "leaf_key a = leaf_key b"
  then have "(word_of_nat a :: u128) = word_of_nat b" unfolding leaf_key_def by (metis word_rev_rev)
  then have "unat (word_of_nat a :: u128) = unat (word_of_nat b :: u128)" by simp
  then show "a = b" using assms by (simp add: unsigned_of_nat take_bit_nat_eq_self)
qed simp

lemma leaf_index: "page < usize_limit \<Longrightarrow> page div PAGES_PER_LEAF < 2 ^ 128"
  by (rule le_less_trans[OF div_le_dividend]) simp

lemma slot_page_store:
  "slot_page (store_slot s u leaf) t = (if t = s then u (slot_page leaf s) else slot_page leaf t)"
  by (auto simp: slot_page_def store_slot_def Let_def nth_append nth_list_update not_le)

text \<open>A page of the directory, for all page numbers that a \<open>usize\<close> holds.\<close>

lemma dir_page_mut_ok:
  assumes "pmap_ok (pd_leaves d)" "page < usize_limit"
  shows "\<exists>d'. dir_page_mut d page u = Some d' \<and> pmap_ok (pd_leaves d') \<and> pd_first_page d' = pd_first_page d \<and>
    pd_len d' = pd_len d \<and> pd_default d' = pd_default d \<and>
    (\<forall>q < usize_limit. dir_page d' q = (if q = page then u (dir_page d page) else dir_page d q))"
proof -
  let ?m = "pd_leaves d" and ?k = "leaf_key (page div PAGES_PER_LEAF)" and ?s = "page mod PAGES_PER_LEAF"
  have "\<exists>m1 leaf. (if pm_contains_key ?m ?k then Some ?m else map_option fst (pm_insert_cow ?m ?k \<lparr>leaf_pages = []\<rparr>)) = Some m1 \<and>
    pmap_ok m1 \<and> pm_map m1 = (pm_map ?m)(?k \<mapsto> leaf) \<and> slot_page leaf = (case pm_map ?m ?k of None \<Rightarrow> \<lambda>_. None | Some l \<Rightarrow> slot_page l)"
  proof (cases "pm_map ?m ?k")
    case None
    from pm.insert_contents[OF assms(1), of ?k "\<lparr>leaf_pages = []\<rparr>"] obtain m1 where
      "pm_insert_cow ?m ?k \<lparr>leaf_pages = []\<rparr> = Some (m1, None)" "pmap_ok m1"
      "pm_map m1 = (pm_map ?m)(?k \<mapsto> \<lparr>leaf_pages = []\<rparr>)" by (auto simp: None)
    then show ?thesis
      using None by (auto simp: pm_contains_key_def pm.lookup_contents[OF assms(1)] slot_page_def fun_eq_iff)
  next
    case (Some l)
    then show ?thesis
      using assms(1) by (auto simp: pm_contains_key_def pm.lookup_contents[OF assms(1)] intro!: exI[of _ l])
  qed
  then obtain m1 leaf where m1: "(if pm_contains_key ?m ?k then Some ?m else map_option fst (pm_insert_cow ?m ?k \<lparr>leaf_pages = []\<rparr>)) = Some m1"
    "pmap_ok m1" "pm_map m1 = (pm_map ?m)(?k \<mapsto> leaf)"
    "slot_page leaf = (case pm_map ?m ?k of None \<Rightarrow> \<lambda>_. None | Some l \<Rightarrow> slot_page l)" by blast
  obtain m2 where m2: "pm_get_mut m1 ?k (store_slot ?s u) = Some m2" "pmap_ok m2"
    "pm_map m2 = (pm_map m1)(?k \<mapsto> store_slot ?s u leaf)"
    using pm.modify_present[OF m1(2), of ?k leaf] m1(3) by (metis fun_upd_same)
  have page: "dir_page d q = (case pm_map ?m (leaf_key (q div PAGES_PER_LEAF)) of None \<Rightarrow> None | Some l \<Rightarrow> slot_page l (q mod PAGES_PER_LEAF))" for q
    by (simp add: dir_page_def pm.lookup_contents[OF assms(1)])
  let ?d = "d\<lparr>pd_leaves := m2\<rparr>"
  have "dir_page ?d q = (if q = page then u (dir_page d page) else dir_page d q)" if "q < usize_limit" for q
  proof (cases "q div PAGES_PER_LEAF = page div PAGES_PER_LEAF")
    case True
    then have "q = page \<longleftrightarrow> q mod PAGES_PER_LEAF = ?s" by (metis div_mult_mod_eq)
    then show ?thesis using True m1(4) m2(3)
      by (auto simp: page dir_page_def[of ?d] pm.lookup_contents[OF m2(2)] slot_page_store split: option.splits)
  next
    case False
    then have "leaf_key (q div PAGES_PER_LEAF) \<noteq> ?k"
      using leaf_key_inject[OF leaf_index[OF that] leaf_index[OF assms(2)]] by blast
    with False show ?thesis using m1(3) m2(3) by (auto simp: page dir_page_def[of ?d] pm.lookup_contents[OF m2(2)])
  qed
  moreover have "dir_page_mut d page u = Some ?d" unfolding dir_page_mut_def Let_def m1(1) using m2(1) by simp
  ultimately show ?thesis using m2(2) by simp
qed

section \<open>The vector as a list\<close>

text \<open>The number of rows of a page, and their values, whether or not the page is allocated.\<close>

definition extent :: "'a layout \<Rightarrow> 'a PagedVec \<Rightarrow> nat \<Rightarrow> nat" where
  "extent L d j = min (page_capacity L) (pd_len d - j * page_capacity L)"

definition page_view :: "'a layout \<Rightarrow> 'a PagedVec \<Rightarrow> nat \<Rightarrow> 'a list" where
  "page_view L d j =
     (case dir_page d (pd_first_page d + j) of
        Some page \<Rightarrow> page_slice L page
      | None \<Rightarrow> (case pd_default d of None \<Rightarrow> [] | Some v \<Rightarrow> replicate (extent L d j) v))"

definition paged_ok :: "'a layout \<Rightarrow> 'a PagedVec \<Rightarrow> bool" where
  "paged_ok L d \<longleftrightarrow>
     pmap_ok (pd_leaves d) \<and> pd_first_page d mod PAGES_PER_LEAF = 0 \<and> pd_len d < usize_limit \<and>
     pd_first_page d + pd_len d div page_capacity L < usize_limit \<and>
     (\<forall>j. pd_first_page d + j < usize_limit \<longrightarrow> length (page_view L d j) = extent L d j \<and>
        (dir_page d (pd_first_page d + j) \<noteq> None \<longrightarrow> j * page_capacity L < pd_len d))"

definition element :: "'a layout \<Rightarrow> 'a PagedVec \<Rightarrow> nat \<Rightarrow> 'a" where
  "element L d i = page_view L d (i div page_capacity L) ! (i mod page_capacity L)"

definition paged_list :: "'a layout \<Rightarrow> 'a PagedVec \<Rightarrow> 'a list" where
  "paged_list L d = map (element L d) [0..<pd_len d]"

lemma length_paged_list [simp]: "length (paged_list L d) = pd_len d"
  by (simp add: paged_list_def)

lemma nth_paged_list [simp]: "i < pd_len d \<Longrightarrow> paged_list L d ! i = element L d i"
  by (simp add: paged_list_def)

lemma row_page:
  assumes "i < pd_len d"
  shows "i mod page_capacity L < extent L d (i div page_capacity L)" "i div page_capacity L * page_capacity L < pd_len d"
proof -
  define q r where "q = i div page_capacity L" and "r = i mod page_capacity L"
  have "q * page_capacity L + r < pd_len d" "r < page_capacity L" using assms by (simp_all add: q_def r_def)
  then show "i mod page_capacity L < extent L d (i div page_capacity L)" "i div page_capacity L * page_capacity L < pd_len d"
    unfolding q_def[symmetric] r_def[symmetric] extent_def by (simp_all add: less_diff_conv)
qed

lemma row_page_bound:
  assumes "paged_ok L d" "i \<le> pd_len d"
  shows "pd_first_page d + i div page_capacity L < usize_limit"
proof -
  have "i div page_capacity L \<le> pd_len d div page_capacity L" by (rule div_le_mono[OF assms(2)])
  then show ?thesis using assms(1) by (simp add: paged_ok_def)
qed

lemma page_view_length:
  "paged_ok L d \<Longrightarrow> pd_first_page d + j < usize_limit \<Longrightarrow> length (page_view L d j) = extent L d j"
  by (simp add: paged_ok_def)

lemma paged_get_element:
  assumes "paged_ok L d"
  shows "paged_get L d i = (if i < pd_len d then Some (element L d i) else None)"
proof (cases "i < pd_len d")
  case True
  let ?c = "page_capacity L"
  have b: "pd_first_page d + i div ?c < usize_limit" using row_page_bound[OF assms] True by simp
  have len: "i mod ?c < length (page_view L d (i div ?c))" using page_view_length[OF assms b] row_page(1)[OF True] by simp
  show ?thesis
  proof (cases "dir_page d (pd_first_page d + i div ?c)")
    case None
    with len obtain v where "pd_default d = Some v" by (auto simp: page_view_def split: option.splits)
    with True b None len show ?thesis
      by (simp add: paged_get_def element_def page_view_def checked_add_usize_def)
  next
    case (Some page)
    with True b len show ?thesis by (simp add: paged_get_def element_def page_view_def checked_add_usize_def)
  qed
qed (simp add: paged_get_def)

text \<open>A vector with one page replaced by another of the right size.\<close>

lemma paged_update:
  assumes "paged_ok L d" "pd_first_page d + j < usize_limit" "j * page_capacity L < pd_len d"
    and "length (page_slice L page) = extent L d j" "u (dir_page d (pd_first_page d + j)) = Some page"
  shows "\<exists>d'. dir_page_mut d (pd_first_page d + j) u = Some d' \<and> paged_ok L d' \<and> pd_len d' = pd_len d \<and>
    pd_default d' = pd_default d \<and> dir_page d' (pd_first_page d' + j) = Some page \<and> pd_first_page d' = pd_first_page d \<and>
    (\<forall>k. pd_first_page d + k < usize_limit \<longrightarrow> page_view L d' k = (if k = j then page_slice L page else page_view L d k))"
proof -
  from assms(1) have "pmap_ok (pd_leaves d)" by (simp add: paged_ok_def)
  from dir_page_mut_ok[OF this assms(2), of u] obtain d' where
    d': "dir_page_mut d (pd_first_page d + j) u = Some d'" "pmap_ok (pd_leaves d')" "pd_first_page d' = pd_first_page d"
      "pd_len d' = pd_len d" "pd_default d' = pd_default d"
    and pages: "\<And>q. q < usize_limit \<Longrightarrow> dir_page d' q = (if q = pd_first_page d + j then Some page else dir_page d q)"
    using assms(5) by auto
  have e: "extent L d' = extent L d" by (simp add: extent_def fun_eq_iff d')
  have v: "page_view L d' k = (if k = j then page_slice L page else page_view L d k)" if "pd_first_page d + k < usize_limit" for k
    using pages[OF that] by (simp add: page_view_def d' e split: option.split)
  have "paged_ok L d'"
    using assms(1,3,4) d' pages v by (simp add: paged_ok_def e)
  with d' v pages[OF assms(2)] show ?thesis by auto
qed

lemma paged_list_update:
  assumes "paged_ok L d" "i < pd_len d" "pd_len d' = pd_len d"
    and "\<And>k. pd_first_page d + k < usize_limit \<Longrightarrow> page_view L d' k =
      (if k = i div page_capacity L then (page_view L d k)[i mod page_capacity L := v] else page_view L d k)"
  shows "paged_list L d' = (paged_list L d)[i := v]"
proof (rule nth_equalityI)
  fix k assume "k < length (paged_list L d')"
  then have k: "k < pd_len d" by (simp add: assms(3))
  let ?c = "page_capacity L"
  have b: "pd_first_page d + k div ?c < usize_limit" using row_page_bound[OF assms(1)] k by simp
  have len: "k mod ?c < length (page_view L d (k div ?c))" using page_view_length[OF assms(1) b] row_page(1)[OF k] by simp
  have "k = i \<longleftrightarrow> k div ?c = i div ?c \<and> k mod ?c = i mod ?c" by (metis div_mult_mod_eq)
  then show "paged_list L d' ! k = (paged_list L d)[i := v] ! k"
    using k assms(3) assms(4)[OF b] len by (auto simp: element_def nth_list_update)
qed (simp add: assms(3))

lemma ensure_page_ok:
  assumes "paged_ok L d" "i < pd_len d"
  defines "q \<equiv> pd_first_page d + i div page_capacity L"
  shows "\<exists>d1 page. ensure_page L d i q = Some (Some d1) \<and>
    paged_ok L d1 \<and> pd_len d1 = pd_len d \<and> pd_first_page d1 = pd_first_page d \<and>
    dir_page d1 q = Some page \<and> page_slice L page = page_view L d (i div page_capacity L) \<and>
    (\<forall>k. pd_first_page d + k < usize_limit \<longrightarrow> page_view L d1 k = page_view L d k)"
proof (cases "dir_page d q")
  case None
  let ?j = "i div page_capacity L"
  have b: "q < usize_limit" using row_page_bound[OF assms(1)] assms(2) by (simp add: q_def)
  have view: "length (page_view L d ?j) = extent L d ?j" using page_view_length[OF assms(1)] b by (simp add: q_def)
  note row = row_page[OF assms(2), of L]
  from None view row(1) obtain v where v: "pd_default d = Some v" by (auto simp: q_def page_view_def split: option.splits)
  let ?p = "Owned (replicate (extent L d ?j) v)"
  have pv: "page_slice L ?p = page_view L d ?j" using None v by (simp add: page_view_def q_def)
  from paged_update[OF assms(1) _ row(2), of ?p "\<lambda>_. Some ?p"] b obtain d1 where
    "dir_page_mut d q (\<lambda>_. Some ?p) = Some d1" "paged_ok L d1" "pd_len d1 = pd_len d"
    "pd_first_page d1 = pd_first_page d" "dir_page d1 q = Some ?p"
    "\<forall>k. pd_first_page d + k < usize_limit \<longrightarrow> page_view L d1 k = (if k = ?j then page_slice L ?p else page_view L d k)"
    by (auto simp: q_def)
  with None v pv show ?thesis by (auto simp: ensure_page_def extent_def[symmetric] Let_def)
next
  case (Some page)
  then show ?thesis using assms(1) by (auto simp: page_view_def q_def ensure_page_def)
qed

lemma paged_get_mut_ok:
  assumes "paged_ok L d" "i < pd_len d"
  shows "\<exists>d'. paged_get_mut L d i f = Some (Some d') \<and> paged_ok L d' \<and> paged_list L d' = (paged_list L d)[i := f (paged_list L d ! i)]"
proof -
  let ?c = "page_capacity L" and ?j = "i div page_capacity L"
  have b: "pd_first_page d + ?j < usize_limit" using row_page_bound[OF assms(1)] assms(2) by simp
  note row = row_page[OF assms(2), of L]
  have view: "length (page_view L d ?j) = extent L d ?j" by (rule page_view_length[OF assms(1) b])
  from ensure_page_ok[OF assms] obtain d1 page where
    d1: "ensure_page L d i (pd_first_page d + ?j) = Some (Some d1)" "paged_ok L d1" "pd_len d1 = pd_len d" "pd_first_page d1 = pd_first_page d"
    and page: "dir_page d1 (pd_first_page d + ?j) = Some page" "page_slice L page = page_view L d ?j"
    and same: "\<And>k. pd_first_page d + k < usize_limit \<Longrightarrow> page_view L d1 k = page_view L d k" by blast
  let ?v = "f (page_view L d ?j ! (i mod ?c))"
  let ?q = "Owned ((page_view L d ?j)[i mod ?c := ?v])"
  have e: "extent L d1 = extent L d" by (simp add: extent_def fun_eq_iff d1)
  have "page_get_mut L page (i mod ?c) f = Some ?q" using row(1) view page(2) by (simp add: page_get_mut_def Let_def)
  moreover from paged_update[OF d1(2), of ?j ?q "\<lambda>_. Some ?q"] b row(2) view obtain d2 where
    d2: "dir_page_mut d1 (pd_first_page d + ?j) (\<lambda>_. Some ?q) = Some d2" "paged_ok L d2" "pd_len d2 = pd_len d"
    "\<forall>k. pd_first_page d + k < usize_limit \<longrightarrow> page_view L d2 k = (if k = ?j then page_slice L ?q else page_view L d1 k)"
    by (auto simp: d1 e)
  ultimately have "paged_get_mut L d i f = Some (Some d2)"
    using b assms(2) d1(1) page(1) by (simp add: paged_get_mut_def Let_def checked_add_usize_def)
  moreover have "paged_list L d2 = (paged_list L d)[i := ?v]"
    by (rule paged_list_update[OF assms d2(3)]) (use d2(4) same in auto)
  ultimately show ?thesis using assms(2) d2(2) by (simp add: element_def)
qed

lemma dir_page_len [simp]: "dir_page (d\<lparr>pd_len := n\<rparr>) = dir_page d"
  by (simp add: dir_page_def fun_eq_iff)

lemma pushed_extent:
  assumes "0 < (c :: nat)"
  shows "min c (n + 1 - k * c) = (if k = n div c then n mod c + 1 else min c (n - k * c))"
proof -
  consider "k < n div c" | "k = n div c" | "n div c < k" by linarith
  then show ?thesis
  proof cases
    case 1
    then have "(k + 1) * c \<le> n div c * c" by (intro mult_le_mono1) simp
    also have "\<dots> \<le> n" by simp
    finally have "c \<le> n - k * c" by (simp add: le_diff_conv2)
    then show ?thesis using 1 by simp
  next
    case 2
    have "n + 1 - n div c * c = n mod c + 1" using div_mult_mod_eq[of n c] by linarith
    moreover have "n mod c < c" using assms by simp
    ultimately show ?thesis using 2 by simp
  next
    case 3
    then have "(n div c + 1) * c \<le> k * c" by (intro mult_le_mono1) simp
    moreover have "n < (n div c + 1) * c" using assms dividend_less_div_times[of c n] by simp
    ultimately show ?thesis using 3 by simp
  qed
qed

lemma paged_push_ok:
  assumes "paged_ok L d" "pd_len d + 1 < usize_limit" "pd_first_page d + (pd_len d + 1) div page_capacity L < usize_limit"
  shows "\<exists>d'. paged_push L d v = Some d' \<and> paged_ok L d' \<and> paged_list L d' = paged_list L d @ [v] \<and>
    pd_first_page d' = pd_first_page d"
proof -
  let ?c = "page_capacity L" and ?n = "pd_len d"
  let ?j = "?n div ?c"
  have b: "pd_first_page d + ?j < usize_limit" using assms(1) by (simp add: paged_ok_def)
  have n: "?n = ?j * ?c + ?n mod ?c" "?n mod ?c < ?c" by simp_all
  have ext: "extent L d ?j = ?n mod ?c"
    unfolding extent_def minus_div_mult_eq_mod by (simp add: less_imp_le)
  have view: "length (page_view L d ?j) = ?n mod ?c" using page_view_length[OF assms(1) b] ext by simp
  let ?old = "case dir_page d (pd_first_page d + ?j) of
      None \<Rightarrow> Owned (if ?n mod ?c \<noteq> 0 then (case pd_default d of Some w \<Rightarrow> replicate (?n mod ?c) w | None \<Rightarrow> []) else [])
    | Some page \<Rightarrow> page"
  have old: "page_slice L ?old = page_view L d ?j"
    using view by (auto simp: page_view_def ext split: option.splits)
  have "pmap_ok (pd_leaves d)" using assms(1) by (simp add: paged_ok_def)
  from dir_page_mut_ok[OF this b, of "\<lambda>p. Some (page_push L (case p of None \<Rightarrow> _ | Some page \<Rightarrow> page) v)"] obtain d1 where
    d1: "paged_push L d v = Some (d1\<lparr>pd_len := Suc ?n\<rparr>)" "pmap_ok (pd_leaves d1)" "pd_first_page d1 = pd_first_page d"
      "pd_default d1 = pd_default d"
    and pages: "\<And>q. q < usize_limit \<Longrightarrow>
      dir_page d1 q = (if q = pd_first_page d + ?j then Some (page_push L ?old v) else dir_page d q)"
    using assms(2) unfolding paged_push_def Let_def mod_less[OF b] by (fastforce simp: mod_less)
  let ?d = "d1\<lparr>pd_len := Suc ?n\<rparr>"
  have ext': "extent L ?d k = (if k = ?j then ?n mod ?c + 1 else extent L d k)" for k
    using pushed_extent[where c = ?c and n = ?n and k = k] by (simp add: extent_def)
  have pv: "page_view L ?d k = (if k = ?j then page_view L d ?j @ [v] else page_view L d k)"
    if "pd_first_page d + k < usize_limit" for k
  proof (cases "k = ?j")
    case True
    then show ?thesis using pages[OF b] old by (simp add: page_view_def[of L ?d] d1 page_push_def)
  next
    case False
    then show ?thesis using pages[OF that] ext'[of k] by (simp add: page_view_def d1 split: option.split)
  qed
  have "paged_ok L ?d"
    unfolding paged_ok_def
  proof (intro conjI allI impI)
    fix k assume "pd_first_page ?d + k < usize_limit"
    then have k: "pd_first_page d + k < usize_limit" by (simp add: d1)
    show "length (page_view L ?d k) = extent L ?d k"
      using pv[OF k] ext'[of k] view page_view_length[OF assms(1) k] by simp
    show "k * ?c < pd_len ?d" if "dir_page ?d (pd_first_page ?d + k) \<noteq> None"
      using that pages[OF k] div_times_less_eq_dividend[of ?n ?c] assms(1) k
      by (auto simp: d1 paged_ok_def less_Suc_eq_le less_imp_le split: if_splits)
  qed (use d1 assms in \<open>simp_all add: paged_ok_def\<close>)
  moreover have "paged_list L ?d = paged_list L d @ [v]"
  proof (rule nth_equalityI)
    fix i assume "i < length (paged_list L ?d)"
    then have i: "i < Suc ?n" by simp
    have bi: "pd_first_page d + i div ?c < usize_limit" using row_page_bound[OF assms(1), of i] i by simp
    show "paged_list L ?d ! i = (paged_list L d @ [v]) ! i"
    proof (cases "i = ?n")
      case True
      then show ?thesis using pv[OF bi] view by (simp add: nth_append element_def)
    next
      case False
      then have "i < ?n" using i by simp
      then have "i mod ?c < length (page_view L d (i div ?c))"
        using page_view_length[OF assms(1) bi] row_page(1)[of i d L] by simp
      with \<open>i < ?n\<close> show ?thesis using pv[OF bi] by (auto simp: nth_append element_def)
    qed
  qed simp
  ultimately show ?thesis using d1 by auto
qed

text \<open>At the greatest length the increment wraps: the vector reports no rows.\<close>

lemma paged_push_wraps:
  assumes "paged_ok L d" "pd_len d = usize_limit - 1"
  shows "\<exists>d'. paged_push L d v = Some d' \<and> pd_len d' = 0"
proof -
  have ok: "pmap_ok (pd_leaves d)" "pd_first_page d + pd_len d div page_capacity L < usize_limit"
    using assms(1) by (simp_all add: paged_ok_def)
  from dir_page_mut_ok[OF ok, of "\<lambda>p. Some (page_push L (case p of None \<Rightarrow> _ | Some page \<Rightarrow> page) v)"] obtain d1 where
    "paged_push L d v = Some (d1\<lparr>pd_len := (pd_len d + 1) mod usize_limit\<rparr>)"
    unfolding paged_push_def Let_def mod_less[OF ok(2)] by fastforce
  then show ?thesis using assms(2) by simp
qed

text \<open>Iteration, page by page.\<close>

lemma concat_chunks:
  "concat (map (\<lambda>j. map f [j * c..<min ((j + 1) * c) n]) [0..<k]) = map f [0..<min (k * c) n]"
proof (induction k)
  case (Suc k)
  have "[0..<min (k * c) n] @ [k * c..<min ((k + 1) * c) n] = [0..<min ((k + 1) * c) n]"
  proof (cases "k * c \<le> n")
    case True
    then have "min ((k + 1) * c) n = k * c + (min ((k + 1) * c) n - k * c)" by simp
    then show ?thesis using upt_add_eq_append[of 0 "k * c" "min ((k + 1) * c) n - k * c"] True by (simp add: min_absorb1)
  qed (simp add: min_def)
  then have "map f [0..<min (k * c) n] @ map f [k * c..<min ((k + 1) * c) n] = map f [0..<min (Suc k * c) n]"
    unfolding map_append[symmetric] by simp
  with Suc show ?case by (simp only: upt_Suc_append[OF le0] map_append concat_append list.map concat.simps append_Nil2)
qed simp

lemma div_ceil_covers: "0 < c \<Longrightarrow> n \<le> div_ceil n c * c"
  using dividend_less_div_times[of c n] by (auto simp: div_ceil_def)

lemma iter_page_view:
  assumes "paged_ok L d" "j < div_ceil (pd_len d) (page_capacity L)"
  shows "iter_page L d j = Some (map (element L d) [j * page_capacity L..<min ((j + 1) * page_capacity L) (pd_len d)])"
proof -
  let ?c = "page_capacity L" and ?n = "pd_len d"
  have jn: "j * ?c < ?n"
  proof -
    have "j \<le> ?n div ?c \<and> (?n mod ?c = 0 \<longrightarrow> j < ?n div ?c)" using assms(2) by (auto simp: div_ceil_def split: if_splits)
    then show ?thesis
      by (metis div_mult_mod_eq div_times_less_eq_dividend le_neq_implies_less mult_less_mono1 page_capacity_pos
          add_0_right less_le_trans mult_is_0 nat_neq_iff mod_mult_self2_is_0)
  qed
  have "j \<le> ?n div ?c" using assms(2) by (auto simp: div_ceil_def split: if_splits)
  then have b: "pd_first_page d + j < usize_limit" using assms(1) by (auto simp: paged_ok_def)
  have len: "length (page_view L d j) = extent L d j" by (rule page_view_length[OF assms(1) b])
  have pos: "0 < extent L d j" using jn by (simp add: extent_def)
  have "iter_page L d j = Some (page_view L d j)"
  proof (cases "dir_page d (pd_first_page d + j)")
    case None
    with len pos obtain v where "pd_default d = Some v" by (auto simp: page_view_def split: option.splits)
    then show ?thesis using None mod_less[OF b] by (simp only: iter_page_def Let_def) (simp add: page_view_def extent_def)
  next
    case (Some page)
    then have "length (page_slice L page) = extent L d j" using len by (simp add: page_view_def)
    then show ?thesis using Some mod_less[OF b]
      by (simp only: iter_page_def Let_def) (simp add: page_view_def extent_def[symmetric] split: option.split)
  qed
  moreover have "page_view L d j = map (element L d) [j * ?c..<min ((j + 1) * ?c) ?n]"
  proof (rule nth_equalityI)
    show "length (page_view L d j) = length (map (element L d) [j * ?c..<min ((j + 1) * ?c) ?n])"
      using len jn by (auto simp: extent_def min_def)
    fix i assume "i < length (page_view L d j)"
    then have "i < ?c" "j * ?c + i < ?n" using len by (auto simp: extent_def)
    then show "page_view L d j ! i = map (element L d) [j * ?c..<min ((j + 1) * ?c) ?n] ! i"
      by (simp add: element_def)
  qed
  ultimately show ?thesis by simp
qed

lemma those_map_Some: "(\<And>x. x \<in> set xs \<Longrightarrow> f x = Some (g x)) \<Longrightarrow> those (map f xs) = Some (map g xs)"
  by (induction xs) auto

lemma paged_iter_list: "paged_ok L d \<Longrightarrow> paged_iter L d = Some (paged_list L d)"
proof -
  assume ok: "paged_ok L d"
  let ?c = "page_capacity L" and ?n = "pd_len d"
  have "those (map (iter_page L d) [0..<div_ceil ?n ?c]) =
      Some (map (\<lambda>j. map (element L d) [j * ?c..<min ((j + 1) * ?c) ?n]) [0..<div_ceil ?n ?c])"
    by (rule those_map_Some) (simp add: iter_page_view[OF ok])
  moreover have "min (div_ceil ?n ?c * ?c) ?n = ?n" using div_ceil_covers[of ?c ?n] by simp
  ultimately show ?thesis by (simp only: paged_iter_def concat_chunks paged_list_def option.map)
qed

text \<open>Discarding leading leaves.\<close>

lemma empty_paged_ok:
  "pd_leaves d = pm_default \<Longrightarrow> pd_first_page d = 0 \<Longrightarrow> pd_len d < usize_limit \<Longrightarrow>
     pd_default d \<noteq> None \<or> pd_len d = 0 \<Longrightarrow> paged_ok L d"
  using le_less_trans[OF div_le_dividend, of "pd_len d" usize_limit "page_capacity L"]
  by (auto simp: paged_ok_def pm.empty_ok page_view_def dir_page_def pm.lookup_contents pm.empty_contents extent_def
      split: option.splits)

lemma removed_leaves:
  assumes "pmap_ok (pd_leaves d)" "hi \<le> usize_limit"
    and "m = foldl (\<lambda>m leaf. fst (pm_remove m (leaf_key leaf))) (pd_leaves d) [lo..<hi]"
  shows "pmap_ok m" "q < usize_limit \<Longrightarrow> hi \<le> q div PAGES_PER_LEAF \<Longrightarrow> dir_page (d\<lparr>pd_leaves := m\<rparr>) q = dir_page d q"
proof -
  have m: "m = foldl (\<lambda>m k. fst (pm_remove m k)) (pd_leaves d) (map leaf_key [lo..<hi])"
    by (simp only: assms(3) foldl_map)
  from pm.remove_all[OF assms(1), of "map leaf_key [lo..<hi]"] have ok: "pmap_ok m"
    and map: "pm_map m = (\<lambda>k. if k \<in> leaf_key ` {lo..<hi} then None else pm_map (pd_leaves d) k)"
    unfolding m[symmetric] by simp_all
  show "pmap_ok m" by fact
  assume q: "q < usize_limit" "hi \<le> q div PAGES_PER_LEAF"
  have "leaf_key (q div PAGES_PER_LEAF) \<notin> leaf_key ` {lo..<hi}"
  proof
    assume "leaf_key (q div PAGES_PER_LEAF) \<in> leaf_key ` {lo..<hi}"
    then obtain l where l: "l < hi" "leaf_key (q div PAGES_PER_LEAF) = leaf_key l" by auto
    have "l < 2 ^ 128" using l(1) assms(2) by (rule order.strict_trans2[OF _ order.trans]) simp
    with leaf_key_inject[OF leaf_index[OF q(1)], of l] l q(2) show False by auto
  qed
  then show "dir_page (d\<lparr>pd_leaves := m\<rparr>) q = dir_page d q"
    by (simp add: dir_page_def pm.lookup_contents[OF ok] pm.lookup_contents[OF assms(1)] map)
qed

lemma discard_leaves:
  assumes "paged_ok L d" "0 < k" "k * (page_capacity L * PAGES_PER_LEAF) < pd_len d"
    and "d' = d\<lparr>pd_leaves := m, pd_first_page := pd_first_page d + k * PAGES_PER_LEAF,
                pd_len := pd_len d - k * (page_capacity L * PAGES_PER_LEAF)\<rparr>"
    and "m = foldl (\<lambda>m leaf. fst (pm_remove m (leaf_key leaf))) (pd_leaves d)
               [pd_first_page d div PAGES_PER_LEAF..<pd_first_page d div PAGES_PER_LEAF + k]"
  shows "paged_ok L d' \<and> paged_list L d' = drop (k * (page_capacity L * PAGES_PER_LEAF)) (paged_list L d)"
proof -
  let ?c = "page_capacity L" and ?f = "pd_first_page d"
  let ?r = "k * (?c * PAGES_PER_LEAF)"
  have P: "PAGES_PER_LEAF = 256" by (simp add: PAGES_PER_LEAF_def)
  have r: "?r = k * PAGES_PER_LEAF * ?c" by simp
  have ok: "pmap_ok (pd_leaves d)" "?f mod PAGES_PER_LEAF = 0" "?f + pd_len d div ?c < usize_limit"
    using assms(1) by (simp_all add: paged_ok_def)
  have kn: "k * PAGES_PER_LEAF + (pd_len d - ?r) div ?c = pd_len d div ?c"
  proof -
    have "pd_len d = (pd_len d - ?r) + ?r" using assms(3) by simp
    then have "pd_len d = (pd_len d - ?r) + k * PAGES_PER_LEAF * ?c" by (simp only: r)
    then have "pd_len d div ?c = (pd_len d - ?r) div ?c + k * PAGES_PER_LEAF"
      by (metis div_mult_self3 gr_implies_not0 page_capacity_pos add.commute)
    then show ?thesis by simp
  qed
  have hi: "?f div PAGES_PER_LEAF + k \<le> usize_limit"
  proof -
    have "?f div PAGES_PER_LEAF + k \<le> ?f + k * PAGES_PER_LEAF"
      by (rule add_mono) (simp_all add: P)
    then show ?thesis using kn ok(3) by linarith
  qed
  note rm = removed_leaves[OF ok(1) hi assms(5)]
  have page: "dir_page d' (pd_first_page d' + j) = dir_page d (?f + (k * PAGES_PER_LEAF + j))"
    if "?f + (k * PAGES_PER_LEAF + j) < usize_limit" for j
  proof -
    have "?f div PAGES_PER_LEAF + k \<le> (?f + (k * PAGES_PER_LEAF + j)) div PAGES_PER_LEAF"
      using ok(2) by (auto simp: P)
    from rm(2)[OF that this] show ?thesis by (simp add: assms(4) dir_page_def add.assoc)
  qed
  have ext: "extent L d' j = extent L d (k * PAGES_PER_LEAF + j)" for j
    by (simp add: extent_def assms(4) r add_mult_distrib)
  have view: "page_view L d' j = page_view L d (k * PAGES_PER_LEAF + j)" if "?f + (k * PAGES_PER_LEAF + j) < usize_limit" for j
    unfolding page_view_def page[OF that] ext by (simp add: assms(4) split: option.split)
  have "paged_ok L d'"
    unfolding paged_ok_def
  proof (intro conjI allI impI)
    show "pmap_ok (pd_leaves d')" using rm(1) by (simp add: assms(4))
    show "pd_first_page d' mod PAGES_PER_LEAF = 0" using ok(2) by (simp add: assms(4))
    have "pd_len d' \<le> pd_len d" by (simp add: assms(4))
    then show "pd_len d' < usize_limit" by (rule le_less_trans) (use assms(1) in \<open>simp add: paged_ok_def\<close>)
    show "pd_first_page d' + pd_len d' div ?c < usize_limit" using kn ok(3) by (simp add: assms(4))
    fix j assume "pd_first_page d' + j < usize_limit"
    then have j: "?f + (k * PAGES_PER_LEAF + j) < usize_limit" by (simp add: assms(4))
    show "length (page_view L d' j) = extent L d' j" using view[OF j] ext page_view_length[OF assms(1) j] by simp
    show "j * ?c < pd_len d'" if "dir_page d' (pd_first_page d' + j) \<noteq> None"
    proof -
      have "(k * PAGES_PER_LEAF + j) * ?c < pd_len d" using that page[OF j] assms(1) j by (simp add: paged_ok_def)
      then show ?thesis by (simp add: assms(4) r add_mult_distrib)
    qed
  qed
  moreover have "paged_list L d' = drop ?r (paged_list L d)"
  proof (rule nth_equalityI)
    show "length (paged_list L d') = length (drop ?r (paged_list L d))" by (simp add: assms(4))
    fix i assume "i < length (paged_list L d')"
    then have i: "i + ?r < pd_len d" by (simp add: assms(4))
    have dm: "(i + ?r) div ?c = k * PAGES_PER_LEAF + i div ?c" "(i + ?r) mod ?c = i mod ?c"
      unfolding r by (simp_all add: add.commute)
    have "?f + (k * PAGES_PER_LEAF + i div ?c) < usize_limit"
      using row_page_bound[OF assms(1), of "i + ?r"] i dm(1) by simp
    from view[OF this] show "paged_list L d' ! i = drop ?r (paged_list L d) ! i"
      using i dm by (simp add: element_def assms(4) add.commute)
  qed
  ultimately show ?thesis ..
qed

lemma div_ceil_exact: "0 < c \<Longrightarrow> div_ceil (k * c) c = k"
  by (simp add: div_ceil_def)

lemma discard_prefix_ok:
  assumes "paged_ok L d" "discard_prefix_leaves L d elements = (d', n)"
  shows "paged_ok L d' \<and> n \<le> elements \<and> paged_list L d' = drop n (paged_list L d)"
proof -
  let ?c = "page_capacity L"
  let ?lc = "?c * PAGES_PER_LEAF"
  have P: "0 < PAGES_PER_LEAF" by (simp add: PAGES_PER_LEAF_def)
  consider (all) "pd_len d \<le> elements" "pd_len d \<noteq> 0" | (none) "(if pd_len d \<le> elements then pd_len d else elements div ?lc * ?lc) = 0"
    | (some) "elements < pd_len d" "0 < elements div ?lc"
    by (cases "pd_len d \<le> elements"; cases "elements div ?lc = 0"; cases "pd_len d = 0") auto
  then show ?thesis
  proof cases
    case all
    then have "d' = d\<lparr>pd_leaves := pm_default, pd_first_page := 0, pd_len := 0\<rparr>" "n = pd_len d"
      using assms(2) by (auto simp: discard_prefix_leaves_def Let_def)
    then show ?thesis using all empty_paged_ok[of d' L] by (simp add: paged_list_def)
  next
    case none
    then have "d' = d" "n = 0" using assms(2) unfolding discard_prefix_leaves_def Let_def by simp_all
    then show ?thesis using assms(1) by simp
  next
    case some
    let ?k = "elements div ?lc"
    have le: "?k * ?lc \<le> elements" by simp
    have r: "?k * ?lc = ?k * PAGES_PER_LEAF * ?c" by simp
    have pc: "div_ceil (?k * ?lc) ?c = ?k * PAGES_PER_LEAF" unfolding r by (rule div_ceil_exact) simp
    have f: "pd_first_page d mod PAGES_PER_LEAF = 0" using assms(1) by (simp add: paged_ok_def)
    have hi: "div_ceil (pd_first_page d + ?k * PAGES_PER_LEAF) PAGES_PER_LEAF = pd_first_page d div PAGES_PER_LEAF + ?k"
      using f P by (simp add: div_ceil_def)
    have lt: "?k * ?lc < pd_len d" by (rule le_less_trans[OF le some(1)])
    then have ne: "?k * ?lc \<noteq> 0" "pd_len d - ?k * ?lc \<noteq> 0" using some(2) P by simp_all
    have "?k * PAGES_PER_LEAF \<le> pd_len d div ?c" using div_le_mono[OF less_imp_le[OF lt], of ?c] unfolding r by simp
    then have "pd_first_page d + ?k * PAGES_PER_LEAF < usize_limit" using assms(1) by (simp add: paged_ok_def)
    note past = mod_less[OF this]
    have "discard_prefix_leaves L d elements =
      (d\<lparr>pd_leaves := foldl (\<lambda>m leaf. fst (pm_remove m (leaf_key leaf))) (pd_leaves d)
               [pd_first_page d div PAGES_PER_LEAF..<pd_first_page d div PAGES_PER_LEAF + ?k],
         pd_first_page := pd_first_page d + ?k * PAGES_PER_LEAF, pd_len := pd_len d - ?k * ?lc\<rparr>, ?k * ?lc)"
      unfolding discard_prefix_leaves_def Let_def if_not_P[OF some(1)[folded not_le]] pc past hi if_not_P[OF ne(1)]
      using ne(2) by simp
    then have "n = ?k * ?lc" and d': "d' = d\<lparr>pd_leaves := foldl (\<lambda>m leaf. fst (pm_remove m (leaf_key leaf))) (pd_leaves d)
               [pd_first_page d div PAGES_PER_LEAF..<pd_first_page d div PAGES_PER_LEAF + ?k],
         pd_first_page := pd_first_page d + ?k * PAGES_PER_LEAF, pd_len := pd_len d - ?k * ?lc\<rparr>"
      using assms(2) by simp_all
    with discard_leaves[OF assms(1) some(2) lt d' refl] le show ?thesis by simp
  qed
qed

text \<open>Building a vector over a shared allocation: the pages up to an offset are in place.\<close>

definition shared_upto :: "'a layout \<Rightarrow> SharedFlat \<Rightarrow> nat \<Rightarrow> 'a PagedVec \<Rightarrow> bool" where
  "shared_upto L vals offset d \<longleftrightarrow>
     pmap_ok (pd_leaves d) \<and> pd_first_page d = 0 \<and> pd_len d = sf_len vals \<and> pd_default d = None \<and>
     offset \<le> sf_len vals \<and> (offset < sf_len vals \<longrightarrow> offset mod page_capacity L = 0) \<and>
     (\<forall>j < usize_limit.
        if j * page_capacity L < offset
        then \<exists>page. dir_page d j = Some page \<and>
          page_slice L page = take (page_capacity L) (drop (j * page_capacity L) (sf_as_slice L vals))
        else dir_page d j = None)"

lemma length_sf_as_slice [simp]: "length (sf_as_slice L v) = sf_len v"
  by (simp add: sf_as_slice_def)

lemma view_len_bound: "layout_ok L \<Longrightarrow> view_ok L v \<Longrightarrow> sf_len v < usize_limit"
proof (cases "sf_len v = 0")
  case False
  assume "layout_ok L" "view_ok L v"
  then have "sf_len v * 1 \<le> sf_len v * size_of L" "sf_pointer v + sf_len v * size_of L < usize_limit"
    using False by (auto simp: layout_ok_def view_ok_def allocation_ok_def)
  then show "sf_len v < usize_limit" by linarith
qed simp

lemma shared_upto_complete:
  assumes "layout_ok L" "view_ok L vals" "shared_upto L vals (sf_len vals) d"
  shows "paged_ok L d \<and> paged_list L d = sf_as_slice L vals"
proof -
  let ?c = "page_capacity L" and ?n = "sf_len vals"
  have n: "?n div ?c < usize_limit" by (rule le_less_trans[OF div_le_dividend view_len_bound[OF assms(1,2)]])
  have d: "pmap_ok (pd_leaves d)" "pd_first_page d = 0" "pd_len d = ?n" "pd_default d = None"
    and pages: "\<And>j. j < usize_limit \<Longrightarrow> if j * ?c < ?n
        then \<exists>page. dir_page d j = Some page \<and> page_slice L page = take ?c (drop (j * ?c) (sf_as_slice L vals))
        else dir_page d j = None"
    using assms(3) by (auto simp: shared_upto_def)
  have view: "page_view L d j = take ?c (drop (j * ?c) (sf_as_slice L vals))" if "j < usize_limit" for j
    using pages[OF that] d by (auto simp: page_view_def split: if_splits)
  have "j * ?c < ?n" if "j < usize_limit" "dir_page d j \<noteq> None" for j
    using pages[OF that(1)] that(2) by (auto split: if_splits)
  then have "paged_ok L d"
    using d n view view_len_bound[OF assms(1,2)] by (auto simp: paged_ok_def extent_def)
  moreover have "paged_list L d = sf_as_slice L vals"
  proof (rule nth_equalityI)
    fix i assume "i < length (paged_list L d)"
    then have i: "i < ?n" by (simp add: d)
    have "i div ?c < usize_limit" by (rule le_less_trans[OF div_le_dividend less_trans[OF i view_len_bound[OF assms(1,2)]]])
    moreover have "i div ?c * ?c \<le> ?n" by (rule order.trans[OF div_times_less_eq_dividend less_imp_le[OF i]])
    ultimately show "paged_list L d ! i = sf_as_slice L vals ! i"
      using i d view by (simp add: element_def)
  qed (simp add: d)
  ultimately show ?thesis ..
qed

lemma shared_upto_step:
  assumes "layout_ok L" "view_ok L vals" "shared_upto L vals offset d" "offset < sf_len vals"
    and "n = min (page_capacity L) (sf_len vals - offset)"
  shows "\<exists>page d'. sf_slice L vals offset n = Inr page \<and>
    dir_page_mut d (offset div page_capacity L) (\<lambda>_. Some (Shared page)) = Some d' \<and> shared_upto L vals (offset + n) d'"
proof -
  let ?c = "page_capacity L"
  have n: "n \<noteq> 0" "offset + n \<le> sf_len vals" "offset + n < sf_len vals \<Longrightarrow> n = ?c" using assms(4,5) by auto
  from sf_slice_ok[OF assms(1,2) n(2,1)] obtain page where page: "sf_slice L vals offset n = Inr page"
    "sf_as_slice L page = take n (drop offset (sf_as_slice L vals))" by blast
  have slice: "sf_as_slice L page = take ?c (drop offset (sf_as_slice L vals))"
    unfolding page(2) using assms(4,5) by (intro nth_equalityI) auto
  define q where "q = offset div ?c"
  have "offset mod ?c = 0" using assms(3,4) by (simp add: shared_upto_def)
  then have q: "offset = q * ?c" by (simp add: q_def mod_eq_0_iff_dvd)
  have ql: "q < usize_limit"
    unfolding q_def by (rule le_less_trans[OF div_le_dividend less_trans[OF assms(4) view_len_bound[OF assms(1,2)]]])
  have ok: "pmap_ok (pd_leaves d)" using assms(3) by (simp add: shared_upto_def)
  from dir_page_mut_ok[OF ok ql, of "\<lambda>_. Some (Shared page)"] obtain d' where
    d': "dir_page_mut d q (\<lambda>_. Some (Shared page)) = Some d'" "pmap_ok (pd_leaves d')" "pd_first_page d' = pd_first_page d"
      "pd_len d' = pd_len d" "pd_default d' = pd_default d"
    and pages: "\<And>j. j < usize_limit \<Longrightarrow> dir_page d' j = (if j = q then Some (Shared page) else dir_page d j)" by blast
  have less: "j * ?c < offset + n \<longleftrightarrow> j \<le> q" for j
  proof (cases "j \<le> q")
    case True
    then have "j * ?c \<le> q * ?c" by (rule mult_le_mono1)
    then show ?thesis using True n(1) q by linarith
  next
    case False
    then have "(q + 1) * ?c \<le> j * ?c" by (intro mult_le_mono1) simp
    moreover have "n \<le> ?c" using assms(5) by simp
    ultimately show ?thesis using False q by simp
  qed
  have old: "if j * ?c < offset
      then \<exists>page. dir_page d j = Some page \<and> page_slice L page = take ?c (drop (j * ?c) (sf_as_slice L vals))
      else dir_page d j = None" if "j < usize_limit" for j
    using assms(3) that unfolding shared_upto_def by blast
  have new: "if j * ?c < offset + n
      then \<exists>page. dir_page d' j = Some page \<and> page_slice L page = take ?c (drop (j * ?c) (sf_as_slice L vals))
      else dir_page d' j = None" if j: "j < usize_limit" for j
  proof (cases "j = q")
    case True
    then show ?thesis using pages[OF j] slice q n(1) by simp
  next
    case False
    have "j * ?c < offset \<longleftrightarrow> j < q" unfolding q by simp
    with False have "j * ?c < offset + n \<longleftrightarrow> j * ?c < offset" using less[of j] by auto
    with False show ?thesis using pages[OF j] old[OF j] by simp
  qed
  have m: "(offset + n) mod ?c = 0" if "offset + n < sf_len vals" using n(3)[OF that] q by simp
  have "pd_first_page d = 0" "pd_len d = sf_len vals" "pd_default d = None" using assms(3) by (simp_all add: shared_upto_def)
  then have "shared_upto L vals (offset + n) d'"
    unfolding shared_upto_def using d'(2-5) n(2) m new by presburger
  then show ?thesis using page(1) d'(1) by (simp add: q_def)
qed

lemma share_pages_ok:
  assumes "layout_ok L" "view_ok L vals" "shared_upto L vals offset d"
  shows "\<exists>d'. share_pages L vals offset d = Some (Inr d') \<and> paged_ok L d' \<and> paged_list L d' = sf_as_slice L vals"
  using assms
proof (induction L vals offset d rule: share_pages.induct)
  case (1 L vals offset d)
  show ?case
  proof (cases "offset < sf_len vals")
    case True
    from shared_upto_step[OF "1.prems" True refl] obtain page d' where
      "sf_slice L vals offset (min (page_capacity L) (sf_len vals - offset)) = Inr page"
      "dir_page_mut d (offset div page_capacity L) (\<lambda>_. Some (Shared page)) = Some d'"
      "shared_upto L vals (offset + min (page_capacity L) (sf_len vals - offset)) d'" by blast
    with "1.IH"[OF True refl refl this(1,2) "1.prems"(1,2) this(3)] True show ?thesis
      by (simp add: share_pages.simps[of L vals offset] Let_def)
  next
    case False
    then have "shared_upto L vals (sf_len vals) d" using "1.prems"(3) by (auto simp: shared_upto_def)
    with False shared_upto_complete[OF "1.prems"(1,2)] show ?thesis
      by (simp add: share_pages.simps[of L vals offset])
  qed
qed

lemma from_shared_ok:
  assumes "layout_ok (L :: 'a layout)" "view_ok L vals"
  shows "\<exists>d. from_shared L vals = Some (Inr d) \<and> paged_ok L d \<and> paged_list L d = sf_as_slice L vals"
proof -
  have "dir_page ((paged_default :: 'a PagedVec)\<lparr>pd_len := n\<rparr>) j = None" for n j
    by (simp add: dir_page_def paged_default_def pm.lookup_contents[OF pm.empty_ok] pm.empty_contents)
  then have "shared_upto L vals 0 (paged_default\<lparr>pd_len := sf_len vals\<rparr>)"
    by (simp add: shared_upto_def paged_default_def pm.empty_ok)
  then show ?thesis unfolding from_shared_def by (rule share_pages_ok[OF assms])
qed

lemma push_all:
  assumes "paged_ok L d" "pd_len d + length vs < usize_limit"
    and "pd_first_page d + (pd_len d + length vs) div page_capacity L < usize_limit"
  shows "\<exists>d'. fold_panics (paged_push L) d vs = Some d' \<and> paged_ok L d' \<and> paged_list L d' = paged_list L d @ vs"
  using assms
proof (induction vs arbitrary: d)
  case (Cons v vs)
  have "(pd_len d + 1) div page_capacity L \<le> (pd_len d + length (v # vs)) div page_capacity L"
    by (rule div_le_mono) simp
  then have "pd_first_page d + (pd_len d + 1) div page_capacity L < usize_limit" using Cons.prems(3) by linarith
  from paged_push_ok[OF Cons.prems(1) _ this, of v] Cons.prems(2) obtain d1 where
    d1: "paged_push L d v = Some d1" "paged_ok L d1" "paged_list L d1 = paged_list L d @ [v]" "pd_first_page d1 = pd_first_page d"
    by fastforce
  have "pd_len d1 = pd_len d + 1" using arg_cong[OF d1(3), of length] by simp
  with Cons.IH[OF d1(2)] Cons.prems(2,3) d1 show ?case by simp
qed simp

section \<open>Properties\<close>

text \<open>
  C26. The paged vector is a list. Under the invariant of its pages, indexing is list indexing, a point
  replacement updates one row, an append adds one row at the end while the new length and the page
  numbers fit a \<open>usize\<close>, iteration yields the rows in order, and discarding a prefix drops exactly the reported number of
  rows. No operation panics, and each keeps the invariant.
\<close>

theorem paged_vec_refines:
  assumes "paged_ok L d"
  shows "paged_get L d i = (if i < length (paged_list L d) then Some (paged_list L d ! i) else None) \<and>
    paged_to_vec L d = Some (paged_list L d) \<and>
    (if i < length (paged_list L d)
     then \<exists>d'. paged_replace L d i v = Some (Inr d') \<and> paged_ok L d' \<and> paged_list L d' = (paged_list L d)[i := v]
     else paged_replace L d i v = Some (Inl ''paged vector index is out of bounds'')) \<and>
    (length (paged_list L d @ [v]) < usize_limit \<and>
     pd_first_page d + length (paged_list L d @ [v]) div page_capacity L < usize_limit \<longrightarrow>
       (\<exists>d'. paged_push L d v = Some d' \<and> paged_ok L d' \<and> paged_list L d' = paged_list L d @ [v])) \<and>
    (\<exists>d' n. discard_prefix_leaves L d k = (d', n) \<and> n \<le> k \<and> paged_ok L d' \<and> paged_list L d' = drop n (paged_list L d))"
proof (intro conjI)
  show "paged_get L d i = (if i < length (paged_list L d) then Some (paged_list L d ! i) else None)"
    using paged_get_element[OF assms, of i] by simp
  show "paged_to_vec L d = Some (paged_list L d)" using paged_iter_list[OF assms] by (simp add: paged_to_vec_def)
  show "if i < length (paged_list L d)
     then \<exists>d'. paged_replace L d i v = Some (Inr d') \<and> paged_ok L d' \<and> paged_list L d' = (paged_list L d)[i := v]
     else paged_replace L d i v = Some (Inl ''paged vector index is out of bounds'')"
  proof (cases "i < pd_len d")
    case True
    from paged_get_mut_ok[OF assms True, of "\<lambda>_. v"] True show ?thesis by (auto simp: paged_replace_def)
  qed (simp add: paged_replace_def paged_get_mut_def)
  show "length (paged_list L d @ [v]) < usize_limit \<and>
     pd_first_page d + length (paged_list L d @ [v]) div page_capacity L < usize_limit \<longrightarrow>
       (\<exists>d'. paged_push L d v = Some d' \<and> paged_ok L d' \<and> paged_list L d' = paged_list L d @ [v])"
    using paged_push_ok[OF assms, of v] by auto
  obtain d' n where "discard_prefix_leaves L d k = (d', n)" by fastforce
  with discard_prefix_ok[OF assms this]
  show "\<exists>d' n. discard_prefix_leaves L d k = (d', n) \<and> n \<le> k \<and> paged_ok L d' \<and> paged_list L d' = drop n (paged_list L d)"
    by blast
qed

lemma repeat_ok:
  assumes "n < usize_limit"
  shows "paged_ok L (paged_repeat v n)" "paged_list L (paged_repeat v n) = replicate n v"
proof -
  show ok: "paged_ok L (paged_repeat v n)" using assms by (intro empty_paged_ok) (simp_all add: paged_repeat_def)
  have "element L (paged_repeat v n) i = v" if "i < n" for i
    using row_page(1)[of i "paged_repeat v n" L] that
    by (simp add: element_def page_view_def paged_repeat_def dir_page_def pm.lookup_contents[OF pm.empty_ok] pm.empty_contents)
  then show "paged_list L (paged_repeat v n) = replicate n v"
    by (intro nth_equalityI) (simp_all add: paged_repeat_def)
qed

theorem paged_vec_refines_witness:
  "\<exists>d'. paged_replace u8_layout (paged_repeat 7 3) 1 9 = Some (Inr d') \<and> paged_list u8_layout d' = [7, 9, 7]"
proof -
  note r = repeat_ok[of 3 u8_layout 7, simplified]
  have "paged_list u8_layout (paged_repeat 7 3) = [7, 7, 7]" unfolding r(2) by (simp add: numeral_3_eq_3)
  with paged_vec_refines[OF r(1), of 1 9] show ?thesis by auto
qed

text \<open>
  C27. Adopting shared memory. Building a vector over a valid shared view always succeeds and holds the
  rows of the view; building one from a serialised sequence whose length fits a \<open>usize\<close> succeeds and
  reproduces the sequence.
\<close>

theorem paged_vec_construction:
  assumes "layout_ok L" "view_ok L vals" "length vs < usize_limit"
  shows "(\<exists>d. from_shared L vals = Some (Inr d) \<and> paged_ok L d \<and> paged_to_vec L d = Some (sf_as_slice L vals)) \<and>
    (\<exists>d. visit_seq L vs = Some d \<and> paged_ok L d \<and> paged_serialize L d = Some (length vs, vs))"
proof
  show "\<exists>d. from_shared L vals = Some (Inr d) \<and> paged_ok L d \<and> paged_to_vec L d = Some (sf_as_slice L vals)"
    using from_shared_ok[OF assms(1,2)] paged_iter_list unfolding paged_to_vec_def by metis
  have "paged_ok L paged_default" by (rule empty_paged_ok) (simp_all add: paged_default_def)
  from push_all[OF this, of vs] obtain d where
    d: "visit_seq L vs = Some d" "paged_ok L d" "paged_list L d = vs"
    using assms(3) le_less_trans[OF div_le_dividend assms(3), of "page_capacity L"]
    by (auto simp: visit_seq_def paged_default_def paged_list_def)
  have "pd_len d = length vs" using arg_cong[OF d(3), of length] by simp
  with d paged_iter_list[OF d(2)] show "\<exists>d. visit_seq L vs = Some d \<and> paged_ok L d \<and> paged_serialize L d = Some (length vs, vs)"
    by (auto simp: paged_serialize_def)
qed

theorem paged_vec_construction_witness:
  "\<exists>d. from_shared u8_layout \<lparr>sf_allocation = example_allocation, sf_pointer = 4097, sf_len = 2\<rparr> = Some (Inr d) \<and>
     paged_to_vec u8_layout d = Some [0, 1]"
proof -
  let ?v = "\<lparr>sf_allocation = example_allocation, sf_pointer = 4097, sf_len = 2\<rparr>"
  have "layout_ok u8_layout" "view_ok u8_layout ?v"
    by (simp_all add: layout_ok_def u8_layout_def view_ok_def allocation_ok_def example_allocation_def byte_len_def)
  moreover have "sf_as_slice u8_layout ?v = [0, 1]"
    by (simp add: sf_as_slice_def sf_element_def u8_layout_def example_allocation_def upt_rec)
  ultimately show ?thesis using paged_vec_construction[of u8_layout ?v "[]"] by auto
qed

end
