(* ===== verification/Temporal.thy ===== *)
theory Temporal
  imports Scalar_Value "HOL-Library.Signed_Division"
begin

text \<open>
  Temporal values, \<^verbatim>\<open>crates/execution/src/temporal.rs\<close>: field accessors, comparison, duration
  arithmetic and formatting of the temporal scalars.

  The calendar is the \<open>chrono\<close> crate, which is not part of the sources: the record \<open>chrono\<close> holds
  the functions that are called, and every operation takes it as an argument. \<open>Duration::days\<close>
  and \<open>naive_local\<close> panic outside their documented ranges; a panic is \<open>None\<close>. Signed machine integers are read with
  \<open>sint\<close>; Rust's \<open>/\<close> and \<open>%\<close> truncate (\<open>sdiv\<close>, \<open>smod\<close>) and \<open>div_euclid\<close>, \<open>rem_euclid\<close>
  round down.
\<close>

section \<open>Types of the row program\<close>

datatype CompareOp = CmpEq | CmpNotEq | CmpLess | CmpLessOrEqual | CmpGreater | CmpGreaterOrEqual

datatype ResidentRowValueType =
    RowBoolean | RowInteger | RowFloat | RowString | RowDate | RowLocalTime | RowZonedTime
  | RowLocalDateTime | RowZonedDateTime | RowList

fun payload_bytes :: "ResidentRowValueType \<Rightarrow> nat" where
  "payload_bytes RowBoolean = 1"
| "payload_bytes RowZonedTime = 8 + 4"
| "payload_bytes RowLocalDateTime = 8 + 4"
| "payload_bytes RowZonedDateTime = 8 + 4 + 8"
| "payload_bytes _ = 8"

definition is_numeric :: "ResidentRowValueType \<Rightarrow> bool" where
  "is_numeric t \<longleftrightarrow> t \<in> {RowInteger, RowFloat}"

definition is_temporal :: "ResidentRowValueType \<Rightarrow> bool" where
  "is_temporal t \<longleftrightarrow> t \<in> {RowDate, RowLocalTime, RowZonedTime, RowLocalDateTime, RowZonedDateTime}"

datatype ResidentTemporalAccessor =
    AYear | AQuarter | AMonth | AWeek | AWeekYear | ADay | AOrdinalDay | AWeekDay | ADayOfQuarter |
    AHour | AMinute | ASecond | AMillisecond | AMicrosecond | ANanosecond | ATimezone | AOffset |
    AOffsetMinutes | AOffsetSeconds | AEpochSeconds | AEpochMillis | AYears | AQuarters | AMonths |
    AWeeks | ADays | AHours | AMinutes | ASeconds | AMilliseconds | AMicroseconds | ANanoseconds |
    AQuartersOfYear | AMonthsOfQuarter | AMonthsOfYear | ADaysOfWeek | AMinutesOfHour |
    ASecondsOfMinute | AMillisecondsOfSecond | AMicrosecondsOfSecond | ANanosecondsOfSecond

text \<open>\<open>str\<close> values of ASCII literals, and \<open>to_ascii_lowercase\<close>.\<close>

definition ascii :: "string \<Rightarrow> str" where
  "ascii s = map of_char s"

definition to_ascii_lowercase :: "str \<Rightarrow> str" where
  "to_ascii_lowercase s = map (\<lambda>b. if 65 \<le> b \<and> b \<le> 90 then b + 32 else b) s"

definition accessor_arms :: "(string \<times> ResidentTemporalAccessor) list" where
  "accessor_arms = [
     (''year'', AYear), (''quarter'', AQuarter), (''month'', AMonth), (''week'', AWeek),
     (''weekyear'', AWeekYear), (''day'', ADay), (''ordinalday'', AOrdinalDay),
     (''weekday'', AWeekDay), (''dayofweek'', AWeekDay), (''dayofquarter'', ADayOfQuarter),
     (''hour'', AHour), (''minute'', AMinute), (''second'', ASecond),
     (''millisecond'', AMillisecond), (''microsecond'', AMicrosecond),
     (''nanosecond'', ANanosecond), (''timezone'', ATimezone), (''offset'', AOffset),
     (''offsetminutes'', AOffsetMinutes), (''offsetseconds'', AOffsetSeconds),
     (''epochseconds'', AEpochSeconds), (''epochmillis'', AEpochMillis), (''years'', AYears),
     (''quarters'', AQuarters), (''months'', AMonths), (''weeks'', AWeeks), (''days'', ADays),
     (''hours'', AHours), (''minutes'', AMinutes), (''seconds'', ASeconds),
     (''milliseconds'', AMilliseconds), (''microseconds'', AMicroseconds),
     (''nanoseconds'', ANanoseconds), (''quartersofyear'', AQuartersOfYear),
     (''monthsofquarter'', AMonthsOfQuarter), (''monthsofyear'', AMonthsOfYear),
     (''daysofweek'', ADaysOfWeek), (''minutesofhour'', AMinutesOfHour),
     (''secondsofminute'', ASecondsOfMinute), (''millisecondsofsecond'', AMillisecondsOfSecond),
     (''microsecondsofsecond'', AMicrosecondsOfSecond),
     (''nanosecondsofsecond'', ANanosecondsOfSecond)]"

definition from_property_name :: "str \<Rightarrow> ResidentTemporalAccessor option" where
  "from_property_name name = map_of (map (\<lambda>(n, a). (ascii n, a)) accessor_arms) (to_ascii_lowercase name)"

fun property_name :: "ResidentTemporalAccessor \<Rightarrow> string" where
  "property_name AYear = ''year''"
| "property_name AQuarter = ''quarter''"
| "property_name AMonth = ''month''"
| "property_name AWeek = ''week''"
| "property_name AWeekYear = ''weekyear''"
| "property_name ADay = ''day''"
| "property_name AOrdinalDay = ''ordinalday''"
| "property_name AWeekDay = ''weekday''"
| "property_name ADayOfQuarter = ''dayofquarter''"
| "property_name AHour = ''hour''"
| "property_name AMinute = ''minute''"
| "property_name ASecond = ''second''"
| "property_name AMillisecond = ''millisecond''"
| "property_name AMicrosecond = ''microsecond''"
| "property_name ANanosecond = ''nanosecond''"
| "property_name ATimezone = ''timezone''"
| "property_name AOffset = ''offset''"
| "property_name AOffsetMinutes = ''offsetminutes''"
| "property_name AOffsetSeconds = ''offsetseconds''"
| "property_name AEpochSeconds = ''epochseconds''"
| "property_name AEpochMillis = ''epochmillis''"
| "property_name AYears = ''years''"
| "property_name AQuarters = ''quarters''"
| "property_name AMonths = ''months''"
| "property_name AWeeks = ''weeks''"
| "property_name ADays = ''days''"
| "property_name AHours = ''hours''"
| "property_name AMinutes = ''minutes''"
| "property_name ASeconds = ''seconds''"
| "property_name AMilliseconds = ''milliseconds''"
| "property_name AMicroseconds = ''microseconds''"
| "property_name ANanoseconds = ''nanoseconds''"
| "property_name AQuartersOfYear = ''quartersofyear''"
| "property_name AMonthsOfQuarter = ''monthsofquarter''"
| "property_name AMonthsOfYear = ''monthsofyear''"
| "property_name ADaysOfWeek = ''daysofweek''"
| "property_name AMinutesOfHour = ''minutesofhour''"
| "property_name ASecondsOfMinute = ''secondsofminute''"
| "property_name AMillisecondsOfSecond = ''millisecondsofsecond''"
| "property_name AMicrosecondsOfSecond = ''microsecondsofsecond''"
| "property_name ANanosecondsOfSecond = ''nanosecondsofsecond''"

definition output_type :: "ResidentTemporalAccessor \<Rightarrow> ResidentRowValueType" where
  "output_type a = (if a \<in> {ATimezone, AOffset} then RowString else RowInteger)"

definition is_duration :: "ResidentTemporalAccessor \<Rightarrow> bool" where
  "is_duration a \<longleftrightarrow> a \<in> {
     AYears, AQuarters, AMonths, AWeeks, ADays, AHours, AMinutes, ASeconds, AMilliseconds,
     AMicroseconds, ANanoseconds, AQuartersOfYear, AMonthsOfQuarter, AMonthsOfYear, ADaysOfWeek,
     AMinutesOfHour, ASecondsOfMinute, AMillisecondsOfSecond, AMicrosecondsOfSecond,
     ANanosecondsOfSecond}"

definition supports :: "ResidentTemporalAccessor \<Rightarrow> ResidentRowValueType \<Rightarrow> bool" where
  "supports a t \<longleftrightarrow>
     (if a \<in> {AYear, AQuarter, AMonth, AWeek, AWeekYear, ADay, AOrdinalDay, AWeekDay, ADayOfQuarter}
      then t \<in> {RowDate, RowLocalDateTime, RowZonedDateTime}
      else if a \<in> {AHour, AMinute, ASecond, AMillisecond, AMicrosecond, ANanosecond}
      then t \<in> {RowLocalTime, RowZonedTime, RowLocalDateTime, RowZonedDateTime}
      else if a \<in> {ATimezone, AOffset, AOffsetMinutes, AOffsetSeconds}
      then t \<in> {RowZonedTime, RowZonedDateTime}
      else if a \<in> {AEpochSeconds, AEpochMillis} then t = RowZonedDateTime
      else False)"

section \<open>The calendar and machine arithmetic\<close>

text \<open>
  The functions of \<open>chrono\<close> and \<open>chrono_tz\<close> that the sources call. A \<open>NaiveDateTime\<close> is a date and
  a time of day; \<open>days_in_range\<close> is the documented domain of \<open>Duration::days\<close>, outside of which it
  panics.
\<close>

record ('d, 't, 'z) chrono =
  from_ymd_opt :: "int \<Rightarrow> nat \<Rightarrow> nat \<Rightarrow> 'd option"
  date_year :: "'d \<Rightarrow> int"
  date_month :: "'d \<Rightarrow> nat"
  date_day :: "'d \<Rightarrow> nat"
  date_ordinal :: "'d \<Rightarrow> nat"
  iso_week :: "'d \<Rightarrow> nat"
  iso_week_year :: "'d \<Rightarrow> int"
  number_from_monday :: "'d \<Rightarrow> nat"
  days_in_range :: "int \<Rightarrow> bool"
  checked_add_days :: "'d \<Rightarrow> int \<Rightarrow> 'd option"
  days_between :: "'d \<Rightarrow> 'd \<Rightarrow> int"
  from_timestamp :: "int \<Rightarrow> nat \<Rightarrow> ('d \<times> 't) option"
  utc_timestamp :: "'d \<times> 't \<Rightarrow> int"
  seconds_from_midnight :: "'t \<Rightarrow> nat"
  nanosecond :: "'t \<Rightarrow> nat"
  parse_zone :: "str \<Rightarrow> 'z option"
  parse_offset :: "str \<Rightarrow> int option"
  zone_local :: "'z \<Rightarrow> int \<Rightarrow> nat \<Rightarrow> (('d \<times> 't) \<times> int) option"
  offset_local :: "int \<Rightarrow> int \<Rightarrow> nat \<Rightarrow> ('d \<times> 't) option"
  zone_instant :: "'z \<Rightarrow> 'd \<times> 't \<Rightarrow> (int \<times> nat) option"
  offset_instant :: "int \<Rightarrow> 'd \<times> 't \<Rightarrow> (int \<times> nat) option"
  offset_display :: "int \<Rightarrow> str option"
  date_display :: "'d \<Rightarrow> str"
  datetime_display :: "'d \<times> 't \<Rightarrow> str"
  clock_display :: "nat \<Rightarrow> nat \<Rightarrow> str option"
  rfc3339_utc :: "int \<Rightarrow> nat \<Rightarrow> str"
  rfc3339_zone :: "'z \<Rightarrow> int \<Rightarrow> nat \<Rightarrow> str"
  rfc3339_offset :: "int \<Rightarrow> int \<Rightarrow> nat \<Rightarrow> str"

text \<open>Checked conversion and arithmetic: the exact value, when it fits the type.\<close>

definition checked :: "nat \<Rightarrow> int \<Rightarrow> int option" where
  "checked width v = (if - (2 ^ (width - 1)) \<le> v \<and> v < 2 ^ (width - 1) then Some v else None)"

definition checked_u32 :: "int \<Rightarrow> int option" where
  "checked_u32 v = (if 0 \<le> v \<and> v < 2 ^ 32 then Some v else None)"

definition checked_then :: "int option \<Rightarrow> (int \<Rightarrow> int option) \<Rightarrow> int option" where
  "checked_then v f = (case v of None \<Rightarrow> None | Some x \<Rightarrow> f x)"

definition NANOS_PER_SECOND :: int where "NANOS_PER_SECOND = 1000000000"
definition NANOS_PER_DAY :: int where "NANOS_PER_DAY = 86400 * NANOS_PER_SECOND"

definition temporal_range :: "string \<Rightarrow> Error" where
  "temporal_range m = new_error TemporalRange m"

definition unsupported_accessor :: "ResidentTemporalAccessor \<Rightarrow> Error" where
  "unsupported_accessor a = new_error QueryType (''unsupported temporal field `'' @ property_name a @ ''`'')"

definition integer_scalar :: "int \<Rightarrow> ScalarValue result" where
  "integer_scalar v = Ok (SInteger (word_of_int v))"

definition date_from_epoch_day :: "('d, 't, 'z) chrono \<Rightarrow> i64 \<Rightarrow> 'd outcome" where
  "date_from_epoch_day ch days =
     (case from_ymd_opt ch 1970 1 1 of
        None \<Rightarrow> Some (Err (temporal_range ''date is outside the supported range''))
      | Some date \<Rightarrow>
          if \<not> days_in_range ch (sint days) then None
          else Some (ok_or (checked_add_days ch date (sint days))
                 (temporal_range ''date is outside the supported range'')))"

definition epoch_day_from_date :: "('d, 't, 'z) chrono \<Rightarrow> 'd \<Rightarrow> i64 result" where
  "epoch_day_from_date ch date =
     and_then (ok_or (from_ymd_opt ch 1970 1 1) (temporal_range ''invalid epoch''))
       (\<lambda>epoch. Ok (word_of_int (days_between ch date epoch)))"

definition datetime_from_stored :: "('d, 't, 'z) chrono \<Rightarrow> i64 \<Rightarrow> u32 \<Rightarrow> ('d \<times> 't) result" where
  "datetime_from_stored ch seconds nanos =
     ok_or (from_timestamp ch (sint seconds) (unat nanos)) (temporal_range ''datetime is outside the supported range'')"

text \<open>The loop that lowers the day until the date exists.\<close>

primrec clamp_day :: "('d, 't, 'z) chrono \<Rightarrow> int \<Rightarrow> nat \<Rightarrow> nat \<Rightarrow> 'd result" where
  "clamp_day ch year month 0 =
     (case from_ymd_opt ch year month 0 of
        Some d \<Rightarrow> Ok d
      | None \<Rightarrow> Err (temporal_range ''calendar date overflow''))"
| "clamp_day ch year month (Suc day) =
     (case from_ymd_opt ch year month (Suc day) of Some d \<Rightarrow> Ok d | None \<Rightarrow> clamp_day ch year month day)"

definition add_months :: "('d, 't, 'z) chrono \<Rightarrow> 'd \<Rightarrow> i64 \<Rightarrow> 'd result" where
  "add_months ch date months =
     and_then (ok_or (checked_then (checked 64 (date_year ch date * 12)) (\<lambda>v.
         checked_then (checked 64 (v + (int (date_month ch date) - 1))) (\<lambda>v. checked 64 (v + sint months))))
       (temporal_range ''calendar month overflow''))
     (\<lambda>total. and_then (ok_or (checked 32 (total div 12)) (temporal_range ''calendar year overflow''))
       (\<lambda>year. and_then (ok_or (checked_u32 (total mod 12 + 1)) (temporal_range ''calendar month overflow''))
         (\<lambda>month. clamp_day ch year (nat month) (date_day ch date))))"

definition add_calendar :: "('d, 't, 'z) chrono \<Rightarrow> 'd \<times> 't \<Rightarrow> i64 \<Rightarrow> i64 \<Rightarrow> ('d \<times> 't) outcome" where
  "add_calendar ch v months days =
     and_try (Some (add_months ch (fst v) months)) (\<lambda>date.
       if \<not> days_in_range ch (sint days) then None
       else Some (and_then (ok_or (checked_add_days ch date (sint days)) (temporal_range ''calendar day overflow''))
              (\<lambda>date. Ok (date, snd v))))"

definition add_clock :: "i64 \<Rightarrow> i64 \<Rightarrow> i32 \<Rightarrow> i64 result" where
  "add_clock v seconds nanos =
     and_then (ok_or (checked_then (checked 128 (sint seconds * NANOS_PER_SECOND)) (\<lambda>e. checked 128 (e + sint nanos)))
         (temporal_range ''time duration overflow''))
       (\<lambda>elapsed. and_then (ok_or (checked 64 ((sint v + elapsed) mod NANOS_PER_DAY)) (temporal_range ''time duration overflow''))
         (\<lambda>t. Ok (word_of_int t)))"

definition add_elapsed :: "int \<Rightarrow> nat \<Rightarrow> i64 \<Rightarrow> i32 \<Rightarrow> (i64 \<times> u32) result" where
  "add_elapsed base_seconds base_nanos seconds nanos =
     and_then (ok_or (checked_then (checked 128 (base_seconds * NANOS_PER_SECOND)) (\<lambda>v.
         checked_then (checked 128 (v + int base_nanos)) (\<lambda>v.
           checked 128 (v + (sint seconds * NANOS_PER_SECOND + sint nanos)))))
       (temporal_range ''datetime duration overflow''))
     (\<lambda>v. and_then (ok_or (checked 64 (v div NANOS_PER_SECOND)) (temporal_range ''datetime duration overflow''))
       (\<lambda>s. and_then (ok_or (checked_u32 (v mod NANOS_PER_SECOND)) (temporal_range ''datetime duration overflow''))
         (\<lambda>n. Ok (word_of_int s, word_of_int n))))"

text \<open>\<open>naive_local\<close> panics when the offset moves the instant out of the representable range.\<close>

definition zoned_local :: "('d, 't, 'z) chrono \<Rightarrow> i64 \<Rightarrow> u32 \<Rightarrow> str \<Rightarrow> (('d \<times> 't) \<times> int) outcome" where
  "zoned_local ch seconds nanos timezone =
     and_try (Some (ok_or (from_timestamp ch (sint seconds) (unat nanos)) (temporal_range ''datetime is outside the supported range'')))
       (\<lambda>_. case parse_zone ch timezone of
          Some zone \<Rightarrow> map_option Ok (zone_local ch zone (sint seconds) (unat nanos))
        | None \<Rightarrow> (case parse_offset ch timezone of
            Some offset \<Rightarrow> map_option (\<lambda>local. Ok (local, offset)) (offset_local ch offset (sint seconds) (unat nanos))
          | None \<Rightarrow> Some (Err (temporal_range ''datetime timezone is invalid''))))"

definition local_to_instant :: "('d, 't, 'z) chrono \<Rightarrow> 'd \<times> 't \<Rightarrow> str \<Rightarrow> (int \<times> nat) result" where
  "local_to_instant ch local timezone =
     (case parse_zone ch timezone of
        Some zone \<Rightarrow> ok_or (zone_instant ch zone local) (temporal_range ''local datetime is ambiguous or nonexistent'')
      | None \<Rightarrow> (case parse_offset ch timezone of
          Some offset \<Rightarrow> ok_or (offset_instant ch offset local) (temporal_range ''local datetime is invalid'')
        | None \<Rightarrow> Err (temporal_range ''datetime timezone is invalid'')))"

definition offset_text :: "('d, 't, 'z) chrono \<Rightarrow> int \<Rightarrow> str result" where
  "offset_text ch offset = ok_or (offset_display ch offset) (temporal_range ''time offset is invalid'')"

section \<open>Field accessors\<close>

text \<open>
  The day of the quarter subtracts two ordinals in \<open>u32\<close>; a quarter starts no later than any of its
  days, so the exact difference taken here is the machine's.
\<close>

definition date_accessor ::
  "('d, 't, 'z) chrono \<Rightarrow> 'd \<Rightarrow> ResidentTemporalAccessor \<Rightarrow> ScalarValue result" where
  "date_accessor ch date a = (case a of
       AYear \<Rightarrow> integer_scalar (date_year ch date)
     | AQuarter \<Rightarrow> integer_scalar (int ((date_month ch date - 1) div 3 + 1))
     | AMonth \<Rightarrow> integer_scalar (int (date_month ch date))
     | AWeek \<Rightarrow> integer_scalar (int (iso_week ch date))
     | AWeekYear \<Rightarrow> integer_scalar (iso_week_year ch date)
     | ADay \<Rightarrow> integer_scalar (int (date_day ch date))
     | AOrdinalDay \<Rightarrow> integer_scalar (int (date_ordinal ch date))
     | AWeekDay \<Rightarrow> integer_scalar (int (number_from_monday ch date))
     | ADayOfQuarter \<Rightarrow>
         and_then (ok_or (from_ymd_opt ch (date_year ch date) ((date_month ch date - 1) div 3 * 3 + 1) 1)
             (temporal_range ''invalid quarter''))
           (\<lambda>start. integer_scalar (int (date_ordinal ch date) - int (date_ordinal ch start) + 1))
     | _ \<Rightarrow> Err (unsupported_accessor a))"

definition time_accessor :: "int \<Rightarrow> ResidentTemporalAccessor \<Rightarrow> ScalarValue result" where
  "time_accessor nanos a =
     (if \<not> (0 \<le> nanos \<and> nanos < 86400000000000) then Err (temporal_range ''time is outside one day'')
      else let seconds = nanos sdiv 1000000000; sub = nanos smod 1000000000 in
        (case a of
           AHour \<Rightarrow> integer_scalar (seconds sdiv 3600)
         | AMinute \<Rightarrow> integer_scalar (seconds sdiv 60 smod 60)
         | ASecond \<Rightarrow> integer_scalar (seconds smod 60)
         | AMillisecond \<Rightarrow> integer_scalar (sub sdiv 1000000)
         | AMicrosecond \<Rightarrow> integer_scalar (sub sdiv 1000)
         | ANanosecond \<Rightarrow> integer_scalar sub
         | _ \<Rightarrow> Err (unsupported_accessor a)))"

text \<open>\<open>seconds * scale + part\<close> in checked 64-bit arithmetic.\<close>

definition scaled_seconds :: "int \<Rightarrow> int \<Rightarrow> int \<Rightarrow> string \<Rightarrow> ScalarValue result" where
  "scaled_seconds seconds scale part m =
     and_then (ok_or (checked_then (checked 64 (seconds * scale)) (\<lambda>v. checked 64 (v + part))) (temporal_range m)) integer_scalar"

definition duration_accessor ::
  "int \<Rightarrow> int \<Rightarrow> int \<Rightarrow> int \<Rightarrow> ResidentTemporalAccessor \<Rightarrow> ScalarValue result" where
  "duration_accessor months days seconds nanos a = (case a of
       AYears \<Rightarrow> integer_scalar (months sdiv 12)
     | AQuarters \<Rightarrow> integer_scalar (months sdiv 3)
     | AMonths \<Rightarrow> integer_scalar months
     | AWeeks \<Rightarrow> integer_scalar (days sdiv 7)
     | ADays \<Rightarrow> integer_scalar days
     | AHours \<Rightarrow> integer_scalar (seconds sdiv 3600)
     | AMinutes \<Rightarrow> integer_scalar (seconds sdiv 60)
     | ASeconds \<Rightarrow> integer_scalar seconds
     | AMilliseconds \<Rightarrow> scaled_seconds seconds 1000 (nanos sdiv 1000000) ''duration milliseconds overflow''
     | AMicroseconds \<Rightarrow> scaled_seconds seconds 1000000 (nanos sdiv 1000) ''duration microseconds overflow''
     | ANanoseconds \<Rightarrow> scaled_seconds seconds 1000000000 nanos ''duration nanoseconds overflow''
     | AQuartersOfYear \<Rightarrow> integer_scalar (months sdiv 3 smod 4)
     | AMonthsOfQuarter \<Rightarrow> integer_scalar (months smod 3)
     | AMonthsOfYear \<Rightarrow> integer_scalar (months smod 12)
     | ADaysOfWeek \<Rightarrow> integer_scalar (days smod 7)
     | AMinutesOfHour \<Rightarrow> integer_scalar (seconds sdiv 60 smod 60)
     | ASecondsOfMinute \<Rightarrow> integer_scalar (seconds smod 60)
     | AMillisecondsOfSecond \<Rightarrow> integer_scalar (nanos sdiv 1000000)
     | AMicrosecondsOfSecond \<Rightarrow> integer_scalar (nanos sdiv 1000)
     | ANanosecondsOfSecond \<Rightarrow> integer_scalar nanos
     | _ \<Rightarrow> Err (unsupported_accessor a))"

text \<open>\<open>Result::or_else\<close>, and the accessor of a local date and time.\<close>

definition or_else :: "'a result \<Rightarrow> 'a result \<Rightarrow> 'a result" where
  "or_else r s = (case r of Inl _ \<Rightarrow> s | Inr x \<Rightarrow> Ok x)"

definition local_accessor ::
  "('d, 't, 'z) chrono \<Rightarrow> 'd \<times> 't \<Rightarrow> ResidentTemporalAccessor \<Rightarrow> ScalarValue result" where
  "local_accessor ch local a =
     or_else (date_accessor ch (fst local) a)
       (time_accessor (int (seconds_from_midnight ch (snd local)) * 1000000000 + int (nanosecond ch (snd local))) a)"

definition evaluate_temporal_accessor ::
  "('d, 't, 'z) chrono \<Rightarrow> ScalarValue \<Rightarrow> ResidentTemporalAccessor \<Rightarrow> ScalarValue outcome" where
  "evaluate_temporal_accessor ch v a = (case v of
       SDate days \<Rightarrow> and_try (date_from_epoch_day ch days) (\<lambda>date. Some (date_accessor ch date a))
     | SLocalTime nanos \<Rightarrow> Some (time_accessor (sint nanos) a)
     | SZonedTime nanos offset \<Rightarrow>
         Some (if a \<in> {ATimezone, AOffset} then and_then (offset_text ch (sint offset)) (\<lambda>t. Ok (SString t))
               else if a = AOffsetMinutes then integer_scalar (sint offset sdiv 60)
               else if a = AOffsetSeconds then integer_scalar (sint offset)
               else time_accessor (sint nanos) a)
     | SLocalDateTime seconds nanos \<Rightarrow>
         Some (and_then (datetime_from_stored ch seconds nanos) (\<lambda>local. local_accessor ch local a))
     | SZonedDateTime seconds nanos timezone \<Rightarrow>
         (if a = ATimezone then Some (Ok (SString timezone))
          else if a = AEpochSeconds then Some (integer_scalar (sint seconds))
          else if a = AEpochMillis then
            Some (and_then (ok_or (checked_then (checked 64 (sint seconds * 1000)) (\<lambda>v. checked 64 (v + int (unat nanos div 1000000))))
                (temporal_range ''datetime epochMillis overflow'')) integer_scalar)
          else and_try (zoned_local ch seconds nanos timezone) (\<lambda>(local, offset).
            Some (if a = AOffset then and_then (offset_text ch offset) (\<lambda>t. Ok (SString t))
                  else if a = AOffsetMinutes then integer_scalar (offset sdiv 60)
                  else if a = AOffsetSeconds then integer_scalar offset
                  else local_accessor ch local a)))
     | SDuration months days seconds nanos \<Rightarrow>
         Some (duration_accessor (sint months) (sint days) (sint seconds) (sint nanos) a)
     | _ \<Rightarrow> Some (Err (new_error QueryType ''temporal accessor requires a temporal or duration value'')))"

section \<open>Comparison\<close>

definition temporal_family :: "ScalarValue \<Rightarrow> nat option" where
  "temporal_family v = (case v of
       SDate _ \<Rightarrow> Some 0 | SLocalTime _ \<Rightarrow> Some 1 | SZonedTime _ _ \<Rightarrow> Some 2 | SLocalDateTime _ _ \<Rightarrow> Some 3
     | SZonedDateTime _ _ _ \<Rightarrow> Some 4 | SDuration _ _ _ _ \<Rightarrow> Some 5 | _ \<Rightarrow> None)"

definition ensure_temporal :: "ScalarValue \<Rightarrow> unit result" where
  "ensure_temporal v =
     ok_or (map_option (\<lambda>_. ()) (temporal_family v)) (new_error QueryType ''temporal comparison requires temporal values'')"

definition temporal_key :: "ScalarValue \<Rightarrow> (nat \<times> int \<times> int \<times> str) result" where
  "temporal_key v = (case v of
       SDate days \<Rightarrow> Ok (0, sint days, 0, [])
     | SLocalTime nanos \<Rightarrow> Ok (1, sint nanos, 0, [])
     | SZonedTime nanos offset \<Rightarrow> Ok (2, sint nanos - sint offset * NANOS_PER_SECOND, sint offset, [])
     | SLocalDateTime seconds nanos \<Rightarrow> Ok (3, sint seconds, int (unat nanos), [])
     | SZonedDateTime seconds nanos timezone \<Rightarrow> Ok (4, sint seconds, int (unat nanos), timezone)
     | SDuration months days seconds nanos \<Rightarrow>
         Ok (5, sint months * 2629746000000000 + sint days * 86400000000000 + sint seconds * NANOS_PER_SECOND + sint nanos, 0, [])
     | _ \<Rightarrow> Err (new_error QueryType ''temporal comparison requires temporal values''))"

text \<open>The derived lexicographic order of the key tuples.\<close>

definition key_cmp :: "nat \<times> int \<times> int \<times> str \<Rightarrow> nat \<times> int \<times> int \<times> str \<Rightarrow> Ordering" where
  "key_cmp l r = (case (l, r) of ((f, a, b, s), (g, c, d, t)) \<Rightarrow>
     then_with (cmp f g) (then_with (cmp a c) (then_with (cmp b d) (bytes_cmp s t))))"

fun ordering_matches :: "CompareOp \<Rightarrow> Ordering \<Rightarrow> bool" where
  "ordering_matches CmpEq ord = (ord = Equal)"
| "ordering_matches CmpNotEq ord = (ord \<noteq> Equal)"
| "ordering_matches CmpLess ord = (ord = Less)"
| "ordering_matches CmpLessOrEqual ord = (ord \<noteq> Greater)"
| "ordering_matches CmpGreater ord = (ord = Greater)"
| "ordering_matches CmpGreaterOrEqual ord = (ord \<noteq> Less)"

definition is_duration_value :: "ScalarValue \<Rightarrow> bool" where
  "is_duration_value v = (case v of SDuration _ _ _ _ \<Rightarrow> True | _ \<Rightarrow> False)"

definition compare_temporal_scalars :: "ScalarValue \<Rightarrow> ScalarValue \<Rightarrow> CompareOp \<Rightarrow> ScalarValue result" where
  "compare_temporal_scalars l r operation =
     (if l = SNull \<or> r = SNull then Ok SNull
      else and_then (ensure_temporal l) (\<lambda>_. and_then (ensure_temporal r) (\<lambda>_.
        if operation \<in> {CmpEq, CmpNotEq} then
          let eq = (temporal_family l = temporal_family r \<and> l = r)
          in Ok (SBoolean (if operation = CmpEq then eq else \<not> eq))
        else if temporal_family l \<noteq> temporal_family r \<or> is_duration_value l then Ok SNull
        else and_then (temporal_key l) (\<lambda>a. and_then (temporal_key r) (\<lambda>b.
          Ok (SBoolean (ordering_matches operation (key_cmp a b))))))))"

section \<open>Arithmetic\<close>

definition apply_duration_to_temporal_scalar ::
  "('d, 't, 'z) chrono \<Rightarrow> ScalarValue \<Rightarrow> i64 \<Rightarrow> i64 \<Rightarrow> i64 \<Rightarrow> i32 \<Rightarrow> ScalarValue outcome" where
  "apply_duration_to_temporal_scalar ch temporal months days seconds nanos = (case temporal of
       SDate epoch_day \<Rightarrow>
         and_try (date_from_epoch_day ch epoch_day) (\<lambda>date.
         and_try (Some (add_months ch date months)) (\<lambda>date.
         and_try (Some (ok_or (checked 64 (sint days + sint seconds sdiv 86400)) (temporal_range ''date duration overflow''))) (\<lambda>total.
         if \<not> days_in_range ch total then None
         else Some (and_then (ok_or (checked_add_days ch date total) (temporal_range ''date duration overflow''))
                (\<lambda>date. and_then (epoch_day_from_date ch date) (\<lambda>d. Ok (SDate d)))))))
     | SLocalTime v \<Rightarrow> Some (and_then (add_clock v seconds nanos) (\<lambda>t. Ok (SLocalTime t)))
     | SZonedTime v offset \<Rightarrow> Some (and_then (add_clock v seconds nanos) (\<lambda>t. Ok (SZonedTime t offset)))
     | SLocalDateTime v sub \<Rightarrow>
         and_try (Some (datetime_from_stored ch v sub)) (\<lambda>local.
         and_try (add_calendar ch local months days) (\<lambda>local.
         Some (and_then (add_elapsed (utc_timestamp ch local) (nanosecond ch (snd local)) seconds nanos) (\<lambda>(s, n).
           and_then (datetime_from_stored ch s n) (\<lambda>_. Ok (SLocalDateTime s n))))))
     | SZonedDateTime v sub timezone \<Rightarrow>
         and_try (if months = 0 \<and> days = 0 then Some (Ok (sint v, unat sub))
                  else and_try (zoned_local ch v sub timezone) (\<lambda>(local, _).
                    and_try (add_calendar ch local months days) (\<lambda>local. Some (local_to_instant ch local timezone))))
           (\<lambda>(base_seconds, base_nanos).
             and_try (Some (add_elapsed base_seconds base_nanos seconds nanos)) (\<lambda>(s, n).
               and_try (zoned_local ch s n timezone) (\<lambda>_. Some (Ok (SZonedDateTime s n timezone)))))
     | _ \<Rightarrow> Some (Err (new_error QueryType ''duration arithmetic requires a temporal value'')))"

section \<open>Formatting\<close>

text \<open>\<open>Display\<close> of integers: decimal digits, and a sign.\<close>

fun show_nat :: "nat \<Rightarrow> str" where
  "show_nat n = (if n < 10 then [word_of_nat (48 + n)] else show_nat (n div 10) @ [word_of_nat (48 + n mod 10)])"

declare show_nat.simps [simp del]

definition show_int :: "int \<Rightarrow> str" where
  "show_int i = (if i < 0 then 45 # show_nat (nat (- i)) else show_nat (nat i))"

definition format_time :: "('d, 't, 'z) chrono \<Rightarrow> int \<Rightarrow> str result" where
  "format_time ch nanos =
     (if \<not> (0 \<le> nanos \<and> nanos < 86400000000000) then Err (temporal_range ''local time is outside one day'')
      else and_then (ok_or (checked_u32 (nanos sdiv 1000000000)) (temporal_range ''time overflow'')) (\<lambda>seconds.
        and_then (ok_or (checked_u32 (nanos smod 1000000000)) (temporal_range ''time overflow'')) (\<lambda>sub.
          ok_or (clock_display ch (nat seconds) (nat sub)) (temporal_range ''local time is invalid''))))"

text \<open>\<open>{:09}\<close> and \<open>trim_end_matches('0')\<close>.\<close>

definition pad_nine :: "str \<Rightarrow> str" where
  "pad_nine s = replicate (9 - length s) 48 @ s"

definition trim_zeros :: "str \<Rightarrow> str" where
  "trim_zeros s = rev (dropWhile (\<lambda>b. b = 48) (rev s))"

definition format_seconds :: "int \<Rightarrow> str" where
  "format_seconds second_nanos =
     (let sign = (if second_nanos < 0 then ascii ''-'' else []);
          absolute = \<bar>second_nanos\<bar>;
          component_seconds = absolute sdiv NANOS_PER_SECOND;
          component_nanos = absolute smod NANOS_PER_SECOND in
      if component_nanos = 0 then sign @ show_int component_seconds @ ascii ''S''
      else sign @ show_int component_seconds @ ascii ''.'' @ trim_zeros (pad_nine (show_int component_nanos)) @ ascii ''S'')"

definition format_part :: "int \<Rightarrow> string \<Rightarrow> str" where
  "format_part v unit = (if v \<noteq> 0 then show_int v @ ascii unit else [])"

definition format_duration :: "int \<Rightarrow> int \<Rightarrow> int \<Rightarrow> int \<Rightarrow> str" where
  "format_duration months days seconds nanos =
     (let years = months sdiv 12;
          remaining_months = months smod 12;
          date = ascii ''P'' @ format_part years ''Y'' @ format_part remaining_months ''M'' @ format_part days ''D'';
          total_nanos = seconds * NANOS_PER_SECOND + nanos in
      if total_nanos \<noteq> 0 then
        let whole_seconds = total_nanos sdiv NANOS_PER_SECOND;
            fractional_nanos = total_nanos smod NANOS_PER_SECOND;
            hours = whole_seconds sdiv 3600;
            after_hours = whole_seconds smod 3600;
            minutes = after_hours sdiv 60;
            second_nanos = after_hours smod 60 * NANOS_PER_SECOND + fractional_nanos
        in date @ ascii ''T'' @ format_part hours ''H'' @ format_part minutes ''M'' @
           (if second_nanos \<noteq> 0 then format_seconds second_nanos else [])
      else if years = 0 \<and> remaining_months = 0 \<and> days = 0 then date @ ascii ''T0S''
      else date)"

definition format_temporal_scalar :: "('d, 't, 'z) chrono \<Rightarrow> ScalarValue \<Rightarrow> str option outcome" where
  "format_temporal_scalar ch v = (case v of
       SNull \<Rightarrow> Some (Ok None)
     | SDate days \<Rightarrow> and_try (date_from_epoch_day ch days) (\<lambda>date. Some (Ok (Some (date_display ch date))))
     | SLocalTime nanos \<Rightarrow> Some (and_then (format_time ch (sint nanos)) (\<lambda>t. Ok (Some t)))
     | SZonedTime nanos offset \<Rightarrow>
         Some (and_then (format_time ch (sint nanos)) (\<lambda>t. and_then (offset_text ch (sint offset)) (\<lambda>offset_str. Ok (Some (t @ offset_str)))))
     | SLocalDateTime seconds nanos \<Rightarrow>
         Some (and_then (datetime_from_stored ch seconds nanos) (\<lambda>local. Ok (Some (datetime_display ch local))))
     | SZonedDateTime seconds nanos timezone \<Rightarrow>
         Some (and_then (ok_or (from_timestamp ch (sint seconds) (unat nanos)) (temporal_range ''datetime is outside the format range'')) (\<lambda>_.
           if timezone = ascii ''UTC'' then Ok (Some (rfc3339_utc ch (sint seconds) (unat nanos)))
           else (case parse_zone ch timezone of
               Some zone \<Rightarrow> Ok (Some (rfc3339_zone ch zone (sint seconds) (unat nanos) @ ascii ''['' @ timezone @ ascii '']''))
             | None \<Rightarrow> (case parse_offset ch timezone of
                 Some offset \<Rightarrow> Ok (Some (rfc3339_offset ch offset (sint seconds) (unat nanos)))
               | None \<Rightarrow> Err (temporal_range ''datetime timezone is invalid'')))))
     | SDuration months days seconds nanos \<Rightarrow>
         Some (Ok (Some (format_duration (sint months) (sint days) (sint seconds) (sint nanos))))
     | _ \<Rightarrow> Some (Err (new_error QueryType ''temporal serialization requires a temporal value'')))"

end
