(* ===== verification/Temporal_Laws.thy ===== *)
theory Temporal_Laws
  imports Temporal
begin

text \<open>
  Laws of the temporal operations of \<^verbatim>\<open>crates/execution/src/temporal.rs\<close>: names and types of the
  field accessors, recomposition of the fields, the range of clock and calendar arithmetic, and the
  order that comparison induces.
\<close>

section \<open>Field names\<close>

lemma from_property_name_iff_arm:
  "from_property_name name = Some a \<longleftrightarrow> (\<exists>n. (n, a) \<in> set accessor_arms \<and> to_ascii_lowercase name = ascii n)"
proof -
  have "distinct (map fst (map (\<lambda>(n, a). (ascii n, a)) accessor_arms))"
    by code_simp
  then show ?thesis
    unfolding from_property_name_def by (force simp: map_of_eq_Some_iff)
qed

lemma accessor_arm_iff:
  "(n, a) \<in> set accessor_arms \<longleftrightarrow> n = property_name a \<or> a = AWeekDay \<and> n = ''dayofweek''"
  by (cases a) (simp_all add: accessor_arms_def)

text \<open>
  A property name selects exactly the accessor that prints it, whatever the case of its ASCII
  letters; \<open>dayofweek\<close> is the one alias, of \<open>weekday\<close>.
\<close>

theorem accessor_name_roundtrip:
  "from_property_name name = Some a \<longleftrightarrow>
     to_ascii_lowercase name = ascii (property_name a) \<or>
     a = AWeekDay \<and> to_ascii_lowercase name = ascii ''dayofweek''"
  by (auto simp: from_property_name_iff_arm accessor_arm_iff)

section \<open>Types of the results\<close>

fun row_type :: "ScalarValue \<Rightarrow> ResidentRowValueType option" where
  "row_type (SDate _) = Some RowDate"
| "row_type (SLocalTime _) = Some RowLocalTime"
| "row_type (SZonedTime _ _) = Some RowZonedTime"
| "row_type (SLocalDateTime _ _) = Some RowLocalDateTime"
| "row_type (SZonedDateTime _ _ _) = Some RowZonedDateTime"
| "row_type _ = None"

definition has_output_type :: "ResidentTemporalAccessor \<Rightarrow> ScalarValue \<Rightarrow> bool" where
  "has_output_type a r = (case r of SString _ \<Rightarrow> output_type a = RowString
     | SInteger _ \<Rightarrow> output_type a = RowInteger | _ \<Rightarrow> False)"

lemma and_try_Ok: "and_try m f = Some (Ok y) \<longleftrightarrow> (\<exists>x. m = Some (Ok x) \<and> f x = Some (Ok y))"
  by (auto simp: and_try_def split: option.splits sum.splits)

lemma date_accessor_Ok:
  assumes "date_accessor ch d a = Ok r"
  shows "has_output_type a r \<and> supports a RowDate"
  using assms
  by (cases a) (auto simp: date_accessor_def integer_scalar_def has_output_type_def output_type_def supports_def and_then_eq_Inr_iff)

lemma time_accessor_Ok:
  assumes "time_accessor n a = Ok r"
  shows "has_output_type a r \<and> supports a RowLocalTime"
  using assms
  by (cases a) (auto simp: time_accessor_def integer_scalar_def has_output_type_def output_type_def supports_def Let_def split: if_splits)

lemma duration_accessor_Ok:
  assumes "duration_accessor m d s n a = Ok r"
  shows "has_output_type a r \<and> is_duration a"
  using assms
  by (cases a) (auto simp: duration_accessor_def scaled_seconds_def integer_scalar_def has_output_type_def output_type_def is_duration_def and_then_eq_Inr_iff)

lemma supports_mono:
  "supports a RowDate \<Longrightarrow> supports a RowLocalDateTime \<and> supports a RowZonedDateTime"
  "supports a RowLocalTime \<Longrightarrow> supports a RowZonedTime \<and> supports a RowLocalDateTime \<and> supports a RowZonedDateTime"
  by (auto simp: supports_def split: if_splits)

lemma local_accessor_Ok:
  assumes "local_accessor ch l a = Ok r"
  shows "has_output_type a r \<and> supports a RowLocalDateTime \<and> supports a RowZonedDateTime"
  using assms date_accessor_Ok [of ch "fst l" a r] time_accessor_Ok [of _ a r]
  by (auto simp: local_accessor_def or_else_def supports_mono split: sum.splits)

lemma zoned_time_Ok:
  assumes "evaluate_temporal_accessor ch (SZonedTime n z) a = Some (Ok r)"
  shows "has_output_type a r \<and> supports a RowZonedTime"
  using assms time_accessor_Ok [of "sint n" a r] supports_mono
  by (auto simp: evaluate_temporal_accessor_def and_then_eq_Inr_iff integer_scalar_def has_output_type_def output_type_def supports_def split: if_splits)

lemma zoned_date_time_Ok:
  assumes "evaluate_temporal_accessor ch (SZonedDateTime s n z) a = Some (Ok r)"
  shows "has_output_type a r \<and> supports a RowZonedDateTime"
proof (cases "a \<in> {ATimezone, AOffset, AOffsetMinutes, AOffsetSeconds, AEpochSeconds, AEpochMillis}")
  case True
  with assms show ?thesis
    by (auto simp: evaluate_temporal_accessor_def and_try_Ok and_then_eq_Inr_iff integer_scalar_def has_output_type_def output_type_def supports_def)
next
  case False
  with assms obtain local offset where "local_accessor ch local a = Ok r"
    by (auto simp: evaluate_temporal_accessor_def and_try_Ok and_then_eq_Inr_iff)
  from local_accessor_Ok [OF this] show ?thesis by simp
qed

text \<open>
  C28. Typing of the accessors: a field that is read has the accessor's declared output type, and was
  read from a value whose row type the accessor declares to support, or is a duration field of a
  duration.
\<close>

theorem accessor_typing:
  assumes "evaluate_temporal_accessor ch v a = Some (Ok r)"
  shows "has_output_type a r \<and>
    ((\<exists>t. row_type v = Some t \<and> supports a t) \<or> is_duration_value v \<and> is_duration a)"
proof (cases v)
  case (SDate d)
  with assms show ?thesis
    by (auto simp: evaluate_temporal_accessor_def and_try_Ok dest: date_accessor_Ok)
next
  case (SZonedTime n z)
  with assms zoned_time_Ok show ?thesis by fastforce
next
  case (SZonedDateTime s n z)
  with assms zoned_date_time_Ok show ?thesis by fastforce
qed (use assms in \<open>auto simp: evaluate_temporal_accessor_def and_then_eq_Inr_iff is_duration_value_def
       dest: time_accessor_Ok local_accessor_Ok duration_accessor_Ok\<close>)

text \<open>
  A proleptic Gregorian calendar of dates \<open>(year, month, day)\<close>, without time zones, on which the
  hypotheses about \<open>chrono\<close> hold.
\<close>

definition month_days :: "int \<Rightarrow> nat \<Rightarrow> nat" where
  "month_days y m =
     (if m = 2 then (if y mod 4 = 0 \<and> (y mod 100 \<noteq> 0 \<or> y mod 400 = 0) then 29 else 28)
      else if m \<in> {4, 6, 9, 11} then 30 else 31)"

definition gregorian_ymd :: "int \<Rightarrow> nat \<Rightarrow> nat \<Rightarrow> (int \<times> nat \<times> nat) option" where
  "gregorian_ymd y m d =
     (if - 262143 \<le> y \<and> y \<le> 262142 \<and> 1 \<le> m \<and> m \<le> 12 \<and> 1 \<le> d \<and> d \<le> month_days y m then Some (y, m, d) else None)"

definition gregorian :: "(int \<times> nat \<times> nat, nat \<times> nat, unit) chrono" where
  "gregorian = \<lparr>
     from_ymd_opt = gregorian_ymd, date_year = fst, date_month = (\<lambda>d. fst (snd d)), date_day = (\<lambda>d. snd (snd d)),
     date_ordinal = (\<lambda>d. (\<Sum>m\<leftarrow>[1..<fst (snd d)]. month_days (fst d) m) + snd (snd d)),
     iso_week = (\<lambda>_. 1), iso_week_year = fst, number_from_monday = (\<lambda>_. 1),
     days_in_range = (\<lambda>n. \<bar>n\<bar> \<le> 106751991167), checked_add_days = (\<lambda>d n. if n = 0 then Some d else None),
     days_between = (\<lambda>_ _. 0), from_timestamp = (\<lambda>_ _. None), utc_timestamp = (\<lambda>_. 0),
     seconds_from_midnight = fst, nanosecond = snd, parse_zone = (\<lambda>_. None), parse_offset = (\<lambda>_. None),
     zone_local = (\<lambda>_ _ _. Some (((1970, 1, 1), (0, 0)), 0)), offset_local = (\<lambda>_ _ _. Some ((1970, 1, 1), (0, 0))),
     zone_instant = (\<lambda>_ _. None), offset_instant = (\<lambda>_ _. None), offset_display = (\<lambda>_. None),
     date_display = (\<lambda>_. []), datetime_display = (\<lambda>_. []), clock_display = (\<lambda>_ _. None),
     rfc3339_utc = (\<lambda>_ _. []), rfc3339_zone = (\<lambda>_ _ _. []), rfc3339_offset = (\<lambda>_ _ _. [])\<rparr>"

theorem accessor_typing_witness:
  "evaluate_temporal_accessor gregorian (SDate 0) AQuarter = Some (Ok (SInteger 1)) \<and>
   has_output_type AQuarter (SInteger 1) \<and> supports AQuarter RowDate"
proof -
  have e: "evaluate_temporal_accessor gregorian (SDate 0) AQuarter = Some (Ok (SInteger 1))"
    by (simp add: evaluate_temporal_accessor_def date_from_epoch_day_def gregorian_def gregorian_ymd_def month_days_def
        date_accessor_def integer_scalar_def ok_or_def)
  show ?thesis
    using e accessor_typing [OF e] by (simp add: is_duration_value_def)
qed

section \<open>Fields of times and durations\<close>

lemma div_less_iff:
  assumes "0 < (b::int)"
  shows "a div b < c \<longleftrightarrow> a < c * b"
proof
  assume "a div b < c"
  then have "(a div b + 1) * b \<le> c * b"
    using assms by (intro mult_right_mono) auto
  moreover have "a < (a div b + 1) * b"
    using assms by (simp add: algebra_simps) (metis add.commute add_strict_right_mono mult_div_mod_eq pos_mod_bound)
  ultimately show "a < c * b" by linarith
next
  assume "a < c * b"
  show "a div b < c"
  proof (rule ccontr)
    assume "\<not> a div b < c"
    then have "c * b \<le> a div b * b"
      using assms by (intro mult_right_mono) auto
    also have "\<dots> \<le> a"
      using assms by (metis div_mult_mod_eq le_add_same_cancel1 pos_mod_sign)
    finally show False using \<open>a < c * b\<close> by simp
  qed
qed

lemma sdiv_pos: "0 \<le> a \<Longrightarrow> 0 < b \<Longrightarrow> a sdiv b = a div (b::int)"
  by (cases "a = 0") (simp_all add: signed_divide_int_def sgn_1_pos)

lemma smod_pos: "0 \<le> a \<Longrightarrow> 0 < b \<Longrightarrow> a smod b = a mod (b::int)"
  by (cases "a = 0") (simp_all add: signed_modulo_int_def sgn_1_pos)

lemma sdiv_neg: "a < 0 \<Longrightarrow> 0 < b \<Longrightarrow> a sdiv b = - (- a div (b::int))"
  by (simp add: signed_divide_int_def)

lemma smod_neg: "a < 0 \<Longrightarrow> 0 < b \<Longrightarrow> a smod b = - (- a mod (b::int))"
  by (simp add: signed_modulo_int_def)

lemma sdiv_smod:
  assumes "0 < (b::int)"
  shows "b * (a sdiv b) + a smod b = a"
proof (cases "0 \<le> a")
  case False
  then have neg: "a < 0" by simp
  have "b * (- a div b) + - a mod b = - a" by (rule mult_div_mod_eq)
  then show ?thesis
    unfolding sdiv_neg [OF neg assms] smod_neg [OF neg assms] by linarith
qed (simp add: sdiv_pos smod_pos assms)

lemma smod_bound: "0 < b \<Longrightarrow> \<bar>a smod b\<bar> < (b::int)"
  by (cases "0 \<le> a") (simp_all add: smod_pos smod_neg)

text \<open>
  The fields of a time of day are in their ranges and recompose the stored nanoseconds; outside
  one day every field is a range error.
\<close>

theorem time_fields_recompose:
  "if 0 \<le> nanos \<and> nanos < NANOS_PER_DAY then
     \<exists>h m s sub. time_accessor nanos AHour = integer_scalar h \<and> time_accessor nanos AMinute = integer_scalar m \<and>
       time_accessor nanos ASecond = integer_scalar s \<and> time_accessor nanos ANanosecond = integer_scalar sub \<and>
       time_accessor nanos AMicrosecond = integer_scalar (sub div 1000) \<and>
       time_accessor nanos AMillisecond = integer_scalar (sub div 1000000) \<and>
       0 \<le> h \<and> h < 24 \<and> 0 \<le> m \<and> m < 60 \<and> 0 \<le> s \<and> s < 60 \<and> 0 \<le> sub \<and> sub < NANOS_PER_SECOND \<and>
       nanos = ((h * 60 + m) * 60 + s) * NANOS_PER_SECOND + sub
   else time_accessor nanos a = Err (temporal_range ''time is outside one day'')"
proof (cases "0 \<le> nanos \<and> nanos < NANOS_PER_DAY")
  case True
  define t where "t = nanos div 1000000000"
  have t0: "0 \<le> t" and t1: "t < 86400"
    using True by (simp_all add: t_def NANOS_PER_DAY_def NANOS_PER_SECOND_def pos_imp_zdiv_nonneg_iff div_less_iff)
  have n: "nanos = t * 1000000000 + nanos mod 1000000000"
    unfolding t_def by (rule div_mult_mod_eq [symmetric])
  have h: "t div 60 div 60 = t div 3600"
    using zdiv_zmult2_eq [of 60 t 60] by simp
  have m: "t div 60 = t div 3600 * 60 + t div 60 mod 60"
    unfolding h [symmetric] by (rule div_mult_mod_eq [symmetric])
  have s: "t = (t div 3600 * 60 + t div 60 mod 60) * 60 + t mod 60"
    unfolding m [symmetric] by (rule div_mult_mod_eq [symmetric])
  have acc: "time_accessor nanos AHour = integer_scalar (t div 3600)"
    "time_accessor nanos AMinute = integer_scalar (t div 60 mod 60)"
    "time_accessor nanos ASecond = integer_scalar (t mod 60)"
    "time_accessor nanos ANanosecond = integer_scalar (nanos mod 1000000000)"
    "time_accessor nanos AMicrosecond = integer_scalar (nanos mod 1000000000 div 1000)"
    "time_accessor nanos AMillisecond = integer_scalar (nanos mod 1000000000 div 1000000)"
    using True t0 by (simp_all add: time_accessor_def NANOS_PER_DAY_def NANOS_PER_SECOND_def sdiv_pos smod_pos t_def Let_def pos_imp_zdiv_nonneg_iff)
  have r: "nanos = ((t div 3600 * 60 + t div 60 mod 60) * 60 + t mod 60) * NANOS_PER_SECOND + nanos mod 1000000000"
    unfolding NANOS_PER_SECOND_def s [symmetric] by (rule n)
  have b: "0 \<le> t div 3600" "t div 3600 < 24" "0 \<le> nanos mod 1000000000" "nanos mod 1000000000 < NANOS_PER_SECOND"
    using t0 t1 by (simp_all add: pos_imp_zdiv_nonneg_iff div_less_iff NANOS_PER_SECOND_def)
  show ?thesis
    unfolding if_P [OF True]
    by (intro exI [of _ "t div 3600"] exI [of _ "t div 60 mod 60"] exI [of _ "t mod 60"] exI [of _ "nanos mod 1000000000"] conjI)
       (rule acc r b | simp)+
next
  case False
  show ?thesis
    unfolding if_not_P [OF False] using False
    by (simp add: time_accessor_def NANOS_PER_DAY_def NANOS_PER_SECOND_def)
qed

text \<open>
  The parts of a duration recompose its groups: years and months of the year the months, weeks
  and days of the week the days, hours, minutes of the hour and seconds of the minute the seconds.
  Each part truncates towards zero and is below its unit.
\<close>

theorem duration_fields_recompose:
  "\<exists>y moy w dow h moh som.
     duration_accessor months days seconds nanos AYears = integer_scalar y \<and>
     duration_accessor months days seconds nanos AMonthsOfYear = integer_scalar moy \<and>
     duration_accessor months days seconds nanos AWeeks = integer_scalar w \<and>
     duration_accessor months days seconds nanos ADaysOfWeek = integer_scalar dow \<and>
     duration_accessor months days seconds nanos AHours = integer_scalar h \<and>
     duration_accessor months days seconds nanos AMinutesOfHour = integer_scalar moh \<and>
     duration_accessor months days seconds nanos ASecondsOfMinute = integer_scalar som \<and>
     months = 12 * y + moy \<and> \<bar>moy\<bar> < 12 \<and> days = 7 * w + dow \<and> \<bar>dow\<bar> < 7 \<and>
     seconds = 60 * (60 * h + moh) + som \<and> \<bar>moh\<bar> < 60 \<and> \<bar>som\<bar> < 60"
proof -
  have "seconds sdiv 3600 = seconds sdiv 60 sdiv 60"
    by (cases "seconds \<ge> 0") (simp_all add: signed_divide_int_def sgn_if zdiv_zmult2_eq [of 60 _ 60, simplified])
  then have "60 * (seconds sdiv 3600) + seconds sdiv 60 smod 60 = seconds sdiv 60"
    by (simp add: sdiv_smod)
  then have s: "seconds = 60 * (60 * (seconds sdiv 3600) + seconds sdiv 60 smod 60) + seconds smod 60"
    using sdiv_smod [of 60 seconds] by simp
  show ?thesis
    unfolding duration_accessor_def
    by (rule exI [of _ "months sdiv 12"], rule exI [of _ "months smod 12"], rule exI [of _ "days sdiv 7"],
        rule exI [of _ "days smod 7"], rule exI [of _ "seconds sdiv 3600"], rule exI [of _ "seconds sdiv 60 smod 60"],
        rule exI [of _ "seconds smod 60"])
       (use s in \<open>simp add: sdiv_smod smod_bound\<close>)
qed

section \<open>Clock and calendar arithmetic\<close>

lemma i64_bounds: "- 9223372036854775808 \<le> sint (w::i64)" "sint (w::i64) < 9223372036854775808"
  using sint_ge [of w] sint_lt [of w] by simp_all

lemma i32_bounds: "- 2147483648 \<le> sint (w::i32)" "sint (w::i32) < 2147483648"
  using sint_ge [of w] sint_lt [of w] by simp_all

lemma u32_bound: "int (unat (w::u32)) < 4294967296"
  using unsigned_less [of w, where ?'a = int] by simp

lemma sint_of_fitting:
  "- 9223372036854775808 \<le> x \<Longrightarrow> x < 9223372036854775808 \<Longrightarrow> sint (word_of_int x :: i64) = x"
  by (simp add: signed_of_int signed_take_bit_int_eq_self)

lemma unat_of_fitting: "0 \<le> x \<Longrightarrow> x < 4294967296 \<Longrightarrow> int (unat (word_of_int x :: u32)) = x"
  by (simp add: unsigned_of_int take_bit_int_eq_self)

definition elapsed :: "i64 \<Rightarrow> i32 \<Rightarrow> int" where
  "elapsed seconds nanos = sint seconds * NANOS_PER_SECOND + sint nanos"

lemma day_mod_bounds:
  "0 \<le> x mod NANOS_PER_DAY" "x mod NANOS_PER_DAY < NANOS_PER_DAY"
  by (simp_all add: NANOS_PER_DAY_def NANOS_PER_SECOND_def)

lemma NANOS_PER_DAY_eq: "NANOS_PER_DAY = 86400000000000"
  by (simp add: NANOS_PER_DAY_def NANOS_PER_SECOND_def)

lemma add_clock_eq:
  "add_clock v seconds nanos = Ok (word_of_int ((sint v + elapsed seconds nanos) mod NANOS_PER_DAY))"
proof -
  let ?t = "(sint v + elapsed seconds nanos) mod NANOS_PER_DAY"
  have "- 9223372036854775808 \<le> ?t" "?t < 9223372036854775808"
    using day_mod_bounds [of "sint v + elapsed seconds nanos"] NANOS_PER_DAY_eq by linarith+
  then have "checked 64 ?t = Some ?t"
    by (simp add: checked_def)
  moreover have "checked 128 (sint seconds * NANOS_PER_SECOND) = Some (sint seconds * NANOS_PER_SECOND)"
    "checked 128 (elapsed seconds nanos) = Some (elapsed seconds nanos)"
    using i64_bounds [of seconds] i32_bounds [of nanos] by (simp_all add: checked_def elapsed_def NANOS_PER_SECOND_def)
  ultimately show ?thesis
    by (simp add: add_clock_def checked_then_def elapsed_def)
qed

lemma sint_add_clock:
  "sint (word_of_int (x mod NANOS_PER_DAY) :: i64) = x mod NANOS_PER_DAY"
  using day_mod_bounds [of x] NANOS_PER_DAY_eq by (intro sint_of_fitting) linarith+

lemma sint_uminus_i64:
  assumes "sint (w::i64) \<noteq> - 9223372036854775808"
  shows "sint (- w) = - sint w"
proof -
  have "- w = word_of_int (- sint w)" by simp
  then show ?thesis
    using sint_of_fitting [of "- sint w"] assms i64_bounds [of w] by simp
qed

lemma sint_uminus_i32:
  assumes "sint (w::i32) \<noteq> - 2147483648"
  shows "sint (- w) = - sint w"
proof -
  have w: "- w = word_of_int (- sint w)" by simp
  show ?thesis
    unfolding w signed_of_int of_int_eq_id id_apply
    by (rule signed_take_bit_int_eq_self) (use assms i32_bounds [of w] in simp_all)
qed

lemma elapsed_uminus:
  "sint seconds \<noteq> - 9223372036854775808 \<Longrightarrow> sint nanos \<noteq> - 2147483648 \<Longrightarrow>
   elapsed (- seconds) (- nanos) = - elapsed seconds nanos"
  by (simp add: elapsed_def sint_uminus_i64 sint_uminus_i32)

text \<open>
  C31. Clock arithmetic never fails and never leaves the day: it is addition modulo one day, and
  subtracting the same duration gives the time back.
\<close>

theorem add_clock_wraps:
  assumes "0 \<le> sint v" "sint v < NANOS_PER_DAY" "sint seconds \<noteq> - 9223372036854775808" "sint nanos \<noteq> - 2147483648"
  shows "\<exists>t. add_clock v seconds nanos = Ok t \<and> 0 \<le> sint t \<and> sint t < NANOS_PER_DAY \<and>
    NANOS_PER_DAY dvd sint v + elapsed seconds nanos - sint t \<and> add_clock t (- seconds) (- nanos) = Ok v"
proof -
  let ?t = "(sint v + elapsed seconds nanos) mod NANOS_PER_DAY"
  have "(?t - elapsed seconds nanos) mod NANOS_PER_DAY = sint v"
    using assms by (simp add: mod_simps)
  then have "add_clock (word_of_int ?t) (- seconds) (- nanos) = Ok v"
    by (simp add: add_clock_eq sint_add_clock elapsed_uminus assms)
  moreover have "0 \<le> ?t" "?t < NANOS_PER_DAY"
    by (simp_all add: NANOS_PER_DAY_def NANOS_PER_SECOND_def)
  ultimately show ?thesis
    by (intro exI [of _ "word_of_int ?t"]) (simp add: add_clock_eq sint_add_clock)
qed

theorem add_clock_wraps_witness:
  "\<exists>t. add_clock 86399000000000 2 0 = Ok t \<and> 0 \<le> sint t \<and> sint t < NANOS_PER_DAY \<and> add_clock t (- 2) (- 0) = Ok 86399000000000"
  using add_clock_wraps [of 86399000000000 2 0] by (auto simp: NANOS_PER_DAY_def NANOS_PER_SECOND_def)

lemma elapsed_fits:
  assumes "- 9223372036854775808 \<le> a" "a < 9223372036854775808" "0 \<le> b" "b < 4294967296"
    and "- 9223372036854775808 \<le> c" "c < 9223372036854775808" "- 2147483648 \<le> d" "d < 2147483648"
  shows "checked 128 (a * NANOS_PER_SECOND) = Some (a * NANOS_PER_SECOND)"
    "checked 128 (a * NANOS_PER_SECOND + b) = Some (a * NANOS_PER_SECOND + b)"
    "checked 128 (a * NANOS_PER_SECOND + b + (c * NANOS_PER_SECOND + d)) =
       Some (a * NANOS_PER_SECOND + b + (c * NANOS_PER_SECOND + d))"
  using assms by (simp_all add: checked_def NANOS_PER_SECOND_def)

text \<open>
  C32. Elapsed time is added exactly: the result is the Euclidean decomposition of the total into
  seconds and nanoseconds below one second, and the only failure is a second count outside 64 bits.
\<close>

theorem add_elapsed_exact:
  "let total = sint base_seconds * NANOS_PER_SECOND + int (unat base_nanos) + elapsed seconds nanos in
   case add_elapsed (sint (base_seconds :: i64)) (unat (base_nanos :: u32)) seconds nanos of
     Inr (s, n) \<Rightarrow> sint s * NANOS_PER_SECOND + int (unat n) = total \<and> unat n < 1000000000
   | Inl e \<Rightarrow> e = temporal_range ''datetime duration overflow'' \<and>
       (total div NANOS_PER_SECOND < - 9223372036854775808 \<or> 9223372036854775808 \<le> total div NANOS_PER_SECOND)"
proof -
  define total where "total = sint base_seconds * NANOS_PER_SECOND + int (unat base_nanos) + elapsed seconds nanos"
  have c: "checked 128 (sint base_seconds * NANOS_PER_SECOND) = Some (sint base_seconds * NANOS_PER_SECOND)"
    "checked 128 (sint base_seconds * NANOS_PER_SECOND + int (unat base_nanos)) = Some (sint base_seconds * NANOS_PER_SECOND + int (unat base_nanos))"
    "checked 128 total = Some total"
    unfolding total_def elapsed_def
    by (rule elapsed_fits; rule i64_bounds i32_bounds u32_bound of_nat_0_le_iff)+
  have n: "0 \<le> total mod NANOS_PER_SECOND" "total mod NANOS_PER_SECOND < 1000000000"
    by (simp_all add: NANOS_PER_SECOND_def)
  have u: "checked_u32 (total mod NANOS_PER_SECOND) = Some (total mod NANOS_PER_SECOND)"
    using n by (simp add: checked_u32_def)
  have e: "add_elapsed (sint base_seconds) (unat base_nanos) seconds nanos =
    and_then (ok_or (checked 64 (total div NANOS_PER_SECOND)) (temporal_range ''datetime duration overflow''))
      (\<lambda>s. Ok (word_of_int s, word_of_int (total mod NANOS_PER_SECOND)))"
    using c u by (simp add: add_elapsed_def checked_then_def total_def elapsed_def)
  have m: "int (unat (word_of_int (total mod NANOS_PER_SECOND) :: u32)) = total mod NANOS_PER_SECOND"
    using n by (intro unat_of_fitting) simp_all
  show ?thesis
  proof (cases "- 9223372036854775808 \<le> total div NANOS_PER_SECOND \<and> total div NANOS_PER_SECOND < 9223372036854775808")
    case True
    then have "checked 64 (total div NANOS_PER_SECOND) = Some (total div NANOS_PER_SECOND)"
      by (simp add: checked_def)
    moreover have "sint (word_of_int (total div NANOS_PER_SECOND) :: i64) = total div NANOS_PER_SECOND"
      using True by (intro sint_of_fitting) simp_all
    moreover have "unat (word_of_int (total mod NANOS_PER_SECOND) :: u32) < 1000000000"
      using m n by linarith
    ultimately show ?thesis
      unfolding Let_def e total_def [symmetric] using m by simp
  next
    case False
    then have "checked 64 (total div NANOS_PER_SECOND) = None"
      by (simp add: checked_def)
    with False show ?thesis
      unfolding Let_def e total_def [symmetric] by auto
  qed
qed

section \<open>Comparison\<close>

lemma key_cmp_Equal_iff: "key_cmp k l = Equal \<longleftrightarrow> k = l"
  by (cases k; cases l) (auto simp: key_cmp_def then_with_iffs)

lemma key_cmp_flip: "key_cmp l k = reverse_ordering (key_cmp k l)"
proof -
  obtain f a b s where k: "k = (f, a, b, s)" by (cases k)
  obtain g c d t where l: "l = (g, c, d, t)" by (cases l)
  have s: "bytes_cmp t s = reverse_ordering (bytes_cmp s t)"
    by (rule slice_cmp_flip) (rule cmp_flip)
  show ?thesis
    unfolding k l key_cmp_def prod.case reverse_then_with s cmp_flip [of g f] cmp_flip [of c a] cmp_flip [of d b] ..
qed

lemma key_cmp_Less_trans: "key_cmp j k = Less \<Longrightarrow> key_cmp k l = Less \<Longrightarrow> key_cmp j l = Less"
  by (cases j; cases k; cases l) (auto simp: key_cmp_def then_with_iffs intro: slice_cmp_Less_trans)

definition ordered_family :: "ScalarValue \<Rightarrow> ScalarValue \<Rightarrow> bool" where
  "ordered_family l r \<longleftrightarrow> temporal_family l \<noteq> None \<and> temporal_family l = temporal_family r \<and> \<not> is_duration_value l"

lemma temporal_key_Ok:
  assumes "temporal_family v \<noteq> None"
  obtains k where "temporal_key v = Ok k"
  using assms by (cases v) (auto simp: temporal_family_def temporal_key_def)

lemma temporal_key_inj:
  "ordered_family l r \<Longrightarrow> temporal_key l = temporal_key r \<Longrightarrow> l = r"
  by (cases l; cases r)
    (auto simp: ordered_family_def temporal_family_def temporal_key_def is_duration_value_def
      intro: signed_word_eqI unsigned_word_eqI)

lemma compare_via_key:
  assumes "ordered_family l r" "temporal_key l = Ok j" "temporal_key r = Ok k"
  shows "compare_temporal_scalars l r operation = Ok (SBoolean (ordering_matches operation (key_cmp j k)))"
proof -
  have n: "l \<noteq> SNull" "r \<noteq> SNull"
    using assms(1) by (auto simp: ordered_family_def temporal_family_def)
  have t: "ensure_temporal l = Ok ()" "ensure_temporal r = Ok ()"
    using assms(1) by (auto simp: ordered_family_def ensure_temporal_def)
  have "l = r \<longleftrightarrow> key_cmp j k = Equal"
    using temporal_key_inj [OF assms(1)] assms(2,3) by (auto simp: key_cmp_Equal_iff)
  with n t assms show ?thesis
    by (cases operation) (simp_all add: compare_temporal_scalars_def ordered_family_def)
qed

lemma ordered_family_sym: "ordered_family l r \<Longrightarrow> ordered_family r l"
  by (cases l; cases r) (auto simp: ordered_family_def temporal_family_def is_duration_value_def)

text \<open>
  C29. Within one temporal type other than durations the six comparisons are the answers of one total
  order: a single ordering decides them all, the swapped operands get the reverse ordering, equality
  is equality of the stored values, and less-than is transitive.
\<close>

theorem temporal_comparison_order:
  assumes "ordered_family l r" "ordered_family r s"
  shows "\<exists>d. (\<forall>operation. compare_temporal_scalars l r operation = Ok (SBoolean (ordering_matches operation d)) \<and>
      compare_temporal_scalars r l operation = Ok (SBoolean (ordering_matches operation (reverse_ordering d)))) \<and>
    (d = Equal \<longleftrightarrow> l = r) \<and>
    (d = Less \<and> compare_temporal_scalars r s CmpLess = Ok (SBoolean True) \<longrightarrow>
      compare_temporal_scalars l s CmpLess = Ok (SBoolean True))"
proof -
  have f: "temporal_family l \<noteq> None" "temporal_family r \<noteq> None" "temporal_family s \<noteq> None" "ordered_family l s"
    using assms by (auto simp: ordered_family_def)
  obtain i j k where k: "temporal_key l = Ok i" "temporal_key r = Ok j" "temporal_key s = Ok k"
    using temporal_key_Ok f(1-3) by metis
  note c = compare_via_key [OF assms(1) k(1,2)] compare_via_key [OF ordered_family_sym [OF assms(1)] k(2,1)]
    compare_via_key [OF assms(2) k(2,3)] compare_via_key [OF f(4) k(1,3)]
  have "key_cmp i j = Equal \<longleftrightarrow> l = r"
    using temporal_key_inj [OF assms(1)] k by (auto simp: key_cmp_Equal_iff)
  then show ?thesis
    by (intro exI [of _ "key_cmp i j"]) (auto simp: c key_cmp_flip [of j i] intro: key_cmp_Less_trans)
qed

theorem temporal_comparison_order_witness:
  "ordered_family (SZonedTime 0 3600) (SZonedTime 0 0) \<and>
   (\<exists>d. (\<forall>operation. compare_temporal_scalars (SZonedTime 0 3600) (SZonedTime 0 0) operation =
      Ok (SBoolean (ordering_matches operation d))) \<and> d \<noteq> Equal)"
proof -
  have o: "ordered_family (SZonedTime 0 3600) (SZonedTime 0 0)" "ordered_family (SZonedTime 0 0) (SZonedTime 0 0)"
    by (simp_all add: ordered_family_def temporal_family_def is_duration_value_def)
  show ?thesis
    using o(1) temporal_comparison_order [OF o] by auto
qed

section \<open>Calendar months\<close>

text \<open>
  What the code relies on of the calendar: a date that is built reads back its parts, and every month
  of the years from \<open>lo\<close> to \<open>hi\<close> has a first day.
\<close>

definition calendar_laws :: "('d, 't, 'z) chrono \<Rightarrow> int \<Rightarrow> int \<Rightarrow> bool" where
  "calendar_laws ch lo hi \<longleftrightarrow>
     (\<forall>y m d x. from_ymd_opt ch y m d = Some x \<longrightarrow> date_year ch x = y \<and> date_month ch x = m \<and> date_day ch x = d) \<and>
     (\<forall>y m. lo \<le> y \<and> y \<le> hi \<and> 1 \<le> m \<and> m \<le> 12 \<longrightarrow> from_ymd_opt ch y m 1 \<noteq> None)"

lemma calendar_lawsD:
  assumes "calendar_laws ch lo hi"
  shows "from_ymd_opt ch y m d = Some x \<Longrightarrow> date_year ch x = y \<and> date_month ch x = m \<and> date_day ch x = d"
    and "lo \<le> y \<Longrightarrow> y \<le> hi \<Longrightarrow> 1 \<le> m \<Longrightarrow> m \<le> 12 \<Longrightarrow> from_ymd_opt ch y m 1 \<noteq> None"
  using assms unfolding calendar_laws_def by blast+

lemma clamp_day_greatest:
  assumes "from_ymd_opt ch y m 1 \<noteq> None" "1 \<le> day"
  shows "\<exists>k x. 1 \<le> k \<and> k \<le> day \<and> from_ymd_opt ch y m k = Some x \<and> clamp_day ch y m day = Ok x \<and>
    (\<forall>d. k < d \<and> d \<le> day \<longrightarrow> from_ymd_opt ch y m d = None)"
  using assms(2)
proof (induction day)
  case (Suc day)
  show ?case
  proof (cases "from_ymd_opt ch y m (Suc day)")
    case None
    with assms(1) have "1 \<le> day" by (cases day) auto
    with Suc.IH obtain k x where "1 \<le> k" "k \<le> day" "from_ymd_opt ch y m k = Some x" "clamp_day ch y m day = Ok x"
      "\<forall>d. k < d \<and> d \<le> day \<longrightarrow> from_ymd_opt ch y m d = None" by blast
    with None show ?thesis
      by (intro exI [of _ k] exI [of _ x]) (auto simp: le_Suc_eq)
  next
    case (Some x)
    then show ?thesis
      by (intro exI [of _ "Suc day"] exI [of _ x]) auto
  qed
qed simp

definition month_count :: "('d, 't, 'z) chrono \<Rightarrow> 'd \<Rightarrow> int" where
  "month_count ch d = date_year ch d * 12 + (int (date_month ch d) - 1)"

lemma add_months_eq:
  assumes "- 2147483648 \<le> date_year ch d" "date_year ch d < 2147483648" "1 \<le> date_month ch d" "date_month ch d \<le> 12"
    and "- 2147483648 \<le> (month_count ch d + sint months) div 12" "(month_count ch d + sint months) div 12 < 2147483648"
  shows "add_months ch d months = clamp_day ch ((month_count ch d + sint months) div 12)
    (nat ((month_count ch d + sint months) mod 12 + 1)) (date_day ch d)"
proof -
  define total where "total = month_count ch d + sint months"
  have t: "- 25769803776 \<le> total" "total < 25769803776"
    using assms(5,6) unfolding total_def [symmetric] by linarith+
  have "checked 64 (date_year ch d * 12) = Some (date_year ch d * 12)"
    "checked 64 (date_year ch d * 12 + (int (date_month ch d) - 1)) = Some (month_count ch d)"
    using assms(1-4) by (simp_all add: checked_def month_count_def)
  moreover have "checked 64 total = Some total" "checked 32 (total div 12) = Some (total div 12)"
    using t assms(5,6) by (simp_all add: checked_def total_def)
  moreover have "0 \<le> total mod 12 + 1" "total mod 12 + 1 < 4294967296"
    using pos_mod_bound [of 12 total] pos_mod_sign [of 12 total] by linarith+
  then have "checked_u32 (total mod 12 + 1) = Some (total mod 12 + 1)"
    by (simp add: checked_u32_def)
  ultimately show ?thesis
    by (simp add: add_months_def checked_then_def total_def)
qed

text \<open>
  C30. Adding months ends on a date: the month reached is exactly the given number of months away, and
  the day is the greatest one, up to the day of the original date, that this month has.
\<close>

theorem add_months_clamps:
  assumes "calendar_laws ch lo hi" "- 2147483648 \<le> lo" "hi < 2147483648"
    and "lo \<le> date_year ch d" "date_year ch d \<le> hi" "1 \<le> date_month ch d" "date_month ch d \<le> 12" "1 \<le> date_day ch d"
    and "lo \<le> (month_count ch d + sint months) div 12" "(month_count ch d + sint months) div 12 \<le> hi"
  shows "\<exists>x. add_months ch d months = Ok x \<and> month_count ch x = month_count ch d + sint months \<and>
    1 \<le> date_day ch x \<and> date_day ch x \<le> date_day ch d \<and>
    (\<forall>k. date_day ch x < k \<and> k \<le> date_day ch d \<longrightarrow> from_ymd_opt ch (date_year ch x) (date_month ch x) k = None)"
proof -
  define y where "y = (month_count ch d + sint months) div 12"
  define m where "m = nat ((month_count ch d + sint months) mod 12 + 1)"
  have m: "1 \<le> m" "m \<le> 12" "int m = (month_count ch d + sint months) mod 12 + 1"
    unfolding m_def using pos_mod_bound [of 12 "month_count ch d + sint months"]
      pos_mod_sign [of 12 "month_count ch d + sint months"] by linarith+
  have a: "add_months ch d months = clamp_day ch y m (date_day ch d)"
    unfolding y_def m_def by (rule add_months_eq) (use assms in linarith)+
  have "from_ymd_opt ch y m 1 \<noteq> None"
    using calendar_lawsD(2) [OF assms(1)] assms(9,10) m by (simp add: y_def)
  from clamp_day_greatest [OF this assms(8)] obtain k x where
    x: "1 \<le> k" "k \<le> date_day ch d" "from_ymd_opt ch y m k = Some x" "clamp_day ch y m (date_day ch d) = Ok x"
      "\<forall>e. k < e \<and> e \<le> date_day ch d \<longrightarrow> from_ymd_opt ch y m e = None" by blast
  have p: "date_year ch x = y" "date_month ch x = m" "date_day ch x = k"
    using calendar_lawsD(1) [OF assms(1) x(3)] by simp_all
  have "month_count ch x = month_count ch d + sint months"
    unfolding month_count_def [of ch x] p m(3) y_def by simp
  with x p a show ?thesis by auto
qed

lemma gregorian_laws: "calendar_laws gregorian (- 262143) 262142"
  by (auto simp: calendar_laws_def gregorian_def gregorian_ymd_def month_days_def split: if_splits)

theorem add_months_clamps_witness:
  "\<exists>x. add_months gregorian (2023, 1, 31) 1 = Ok x \<and> month_count gregorian x = month_count gregorian (2023, 1, 31) + 1 \<and>
     date_day gregorian x \<le> 31"
  using add_months_clamps [OF gregorian_laws, of "(2023, 1, 31)" 1]
  by (auto simp: gregorian_def month_count_def)

section \<open>Day counts outside the calendar's durations\<close>

text \<open>
  C33. A day count that \<open>Duration::days\<close> does not accept panics: reading a field of such a date,
  printing it and adding a duration to it all panic instead of returning the range error, and so does
  adding that many days to a date and time.
\<close>

theorem day_count_panics:
  assumes "from_ymd_opt ch 1970 1 1 \<noteq> None" "\<not> days_in_range ch (sint days)"
  shows "evaluate_temporal_accessor ch (SDate days) a = None \<and> format_temporal_scalar ch (SDate days) = None \<and>
    apply_duration_to_temporal_scalar ch (SDate days) months added seconds nanos = None \<and>
    (add_months ch (fst local) months = Ok date \<longrightarrow> add_calendar ch local months days = None)"
proof -
  have "date_from_epoch_day ch days = None"
    using assms by (auto simp: date_from_epoch_day_def)
  then show ?thesis
    using assms(2)
    by (simp add: evaluate_temporal_accessor_def format_temporal_scalar_def apply_duration_to_temporal_scalar_def add_calendar_def)
qed

theorem day_count_panics_witness:
  "evaluate_temporal_accessor gregorian (SDate 106751991168) AYear = None"
  using day_count_panics [of gregorian 106751991168 AYear]
  by (simp add: gregorian_def gregorian_ymd_def month_days_def)

end
