(* ===== verification/Numeric_List.thy ===== *)
theory Numeric_List
  imports Document_Validate Ordered_Number
begin

text \<open>
  The reader of vector properties, \<open>DocumentList::numeric_values\<close> of
  \<^verbatim>\<open>crates/types/src/document.rs\<close>: it walks the canonical bytes of a list in records of nine bytes
  and never builds the decoded tree. It is shown to accept exactly the flat lists of integers and
  finite floats, and to return their elements.
\<close>

section \<open>Model\<close>

text \<open>
  \<open>i64 as f64\<close>: the sign, and the magnitude rounded to 53 bits, to the nearest and ties to even. A
  rounding carry moves into the exponent field.
\<close>

definition i64_as_f64 :: "i64 \<Rightarrow> f64" where
  "i64_as_f64 v =
     (let m = nat \<bar>sint v\<bar>;
          width = bit_width m;
          shift = width - 53;
          q = m div 2 ^ shift;
          r = m mod 2 ^ shift;
          up = 0 < shift \<and> (2 ^ (shift - 1) < r \<or> r = 2 ^ (shift - 1) \<and> odd q);
          magnitude = (if m = 0 then 0
                       else (width + 1022) * 2 ^ 52 + (q * 2 ^ (53 - width) + of_bool up - 2 ^ 52))
      in word_of_nat ((if sint v < 0 then 2 ^ 63 else 0) + magnitude))"

text \<open>\<open>chunks_exact\<close>: the complete chunks of a slice, from the front.\<close>

function chunks_exact :: "nat \<Rightarrow> 'a list \<Rightarrow> 'a list list" where
  "chunks_exact n xs = (if n = 0 \<or> length xs < n then [] else take n xs # chunks_exact n (drop n xs))"
  by pat_completeness auto
termination
  by (relation "measure (\<lambda>(n, xs). length xs)") auto

declare chunks_exact.simps [simp del]

definition invalid_vector :: Error where
  "invalid_vector = new_error QueryType ''vector property must be a flat finite numeric list''"

definition numeric_chunk :: "bytes \<Rightarrow> bool" where
  "numeric_chunk c \<longleftrightarrow>
     c ! 0 = DOC_INTEGER \<or> c ! 0 = DOC_FLOAT \<and> f64_is_finite (from_le_bytes (drop 1 c))"

definition chunk_value :: "bytes \<Rightarrow> f64" where
  "chunk_value c =
     (if c ! 0 = DOC_INTEGER then i64_as_f64 (from_le_bytes (drop 1 c)) else from_le_bytes (drop 1 c))"

text \<open>The iterator that the source returns is the list of what it yields.\<close>

definition numeric_values :: "DocumentList \<Rightarrow> f64 list result" where
  "numeric_values bs =
     (if length bs < 10 \<or> bs ! 0 \<noteq> FORMAT_VERSION \<or> bs ! 1 \<noteq> DOC_LIST then Err invalid_vector
      else
        let count = unat (from_le_bytes (take 8 (drop 2 bs)) :: u64) in
        and_then (ok_or (Option.bind (checked_mul_usize count 9) (\<lambda>n. checked_add_usize n 10)) invalid_vector) (\<lambda>expected.
          if length bs \<noteq> expected then Err invalid_vector
          else if list_all numeric_chunk (chunks_exact 9 (drop 10 bs))
          then Ok (map chunk_value (chunks_exact 9 (drop 10 bs)))
          else Err invalid_vector))"

section \<open>Agreement with the document tree\<close>

fun numeric_item :: "DocumentItem \<Rightarrow> bool" where
  "numeric_item (DScalar (SInteger _)) = True"
| "numeric_item (DScalar (SFloat f)) = f64_is_finite f"
| "numeric_item _ = False"

fun item_f64 :: "DocumentItem \<Rightarrow> f64" where
  "item_f64 (DScalar (SInteger i)) = i64_as_f64 i"
| "item_f64 (DScalar (SFloat f)) = canonical_f64 f"
| "item_f64 _ = 0"

lemma chunks_exact_append:
  "length c = n \<Longrightarrow> 0 < n \<Longrightarrow> chunks_exact n (c @ xs) = c # chunks_exact n xs"
  by (subst chunks_exact.simps) simp

lemma finite_canonical_f64: "f64_is_finite (canonical_f64 f) = f64_is_finite f"
  by (auto simp: canonical_f64_def f64_is_nan_def f64_is_zero_def f64_is_finite_def f64_exponent_bits_def f64_nan_def)

lemma numeric_item_enc:
  assumes "numeric_item x"
  shows "length (enc_item x) = 9" "numeric_chunk (enc_item x)" "chunk_value (enc_item x) = item_f64 x"
  using assms
  by (cases x rule: numeric_item.cases; simp add: numeric_chunk_def chunk_value_def finite_canonical_f64)+

lemma not_numeric_enc:
  assumes "\<not> numeric_item x" "encodable_item x" "9 \<le> length (enc_item x @ ys)"
  shows "\<not> numeric_chunk (take 9 (enc_item x @ ys))"
proof (cases "\<exists>f. x = DScalar (SFloat f)")
  case True
  with assms(1) show ?thesis
    by (auto simp: numeric_chunk_def finite_canonical_f64)
next
  case False
  then obtain tag rest where "enc_item x = tag # rest" "tag \<noteq> DOC_INTEGER" "tag \<noteq> DOC_FLOAT"
    using assms(1,2) by (cases x rule: numeric_item.cases) auto
  then show ?thesis by (simp add: numeric_chunk_def)
qed

lemma chunks_enc_items:
  assumes "list_all numeric_item xs"
  shows "length (enc_items xs) = 9 * length xs \<and> chunks_exact 9 (enc_items xs) = map enc_item xs"
  using assms
  by (induction xs) (simp_all add: numeric_item_enc chunks_exact_append chunks_exact.simps [of 9 "[]"])

lemma numeric_chunks_iff:
  assumes "encodable_items xs" "length (enc_items xs) = 9 * length xs"
  shows "list_all numeric_chunk (chunks_exact 9 (enc_items xs)) \<longleftrightarrow> list_all numeric_item xs"
  using assms
proof (induction xs)
  case (Cons x xs)
  show ?case
  proof (cases "numeric_item x")
    case True
    with Cons show ?thesis
      by (simp add: numeric_item_enc chunks_exact_append)
  next
    case False
    have "9 \<le> length (enc_item x @ enc_items xs)"
      using Cons.prems(2) by simp
    with not_numeric_enc [OF False _ this] Cons.prems(1) False show ?thesis
      by (subst chunks_exact.simps) simp
  qed
qed (simp add: chunks_exact.simps)

lemma numeric_values_enc:
  assumes "length xs < 2 ^ 64" "encodable_items xs" "length (enc_item (DList xs)) < 2 ^ 63"
  shows "numeric_values (FORMAT_VERSION # enc_item (DList xs)) =
    (if list_all numeric_item xs then Ok (map item_f64 xs) else Err invalid_vector)"
proof -
  let ?bs = "FORMAT_VERSION # enc_item (DList xs)"
  have l: "length (enc_len (length xs)) = 8"
    by (simp add: enc_len_def)
  have c: "unat (from_le_bytes (take 8 (drop 2 ?bs)) :: u64) = length xs"
    using l assms(1) by (simp add: enc_len_def unat_of_nat)
  have d: "drop 10 ?bs = enc_items xs"
    using l by simp
  have n: "length ?bs = length (enc_items xs) + 10"
    using l by simp
  show ?thesis
  proof (cases "length (enc_items xs) = 9 * length xs")
    case True
    have o: "length xs * 9 + 10 < usize_limit" "length xs * 9 < usize_limit"
      using True assms(3) l by simp_all
    have v: "numeric_values ?bs = (if list_all numeric_chunk (chunks_exact 9 (enc_items xs))
        then Ok (map chunk_value (chunks_exact 9 (enc_items xs))) else Err invalid_vector)"
      unfolding numeric_values_def c d n Let_def checked_mul_usize_def checked_add_usize_def using True o by simp
    show ?thesis
      unfolding v numeric_chunks_iff [OF assms(2) True]
      using chunks_enc_items [of xs] numeric_item_enc(3) by (auto simp: list_all_iff)
  next
    case False
    then have "\<not> list_all numeric_item xs"
      using chunks_enc_items by blast
    then show ?thesis
      unfolding numeric_values_def c d n Let_def using False
      by (auto simp: checked_mul_usize_def checked_add_usize_def ok_or_def)
  qed
qed

text \<open>
  C6. Reading a vector property from the canonical bytes of a list is decoding it: the reader accepts
  exactly the flat lists of integers and finite floats and returns their elements in order, integers
  converted and zeros without sign. Any other list is refused, also when its encoded length happens to
  be that of a numeric list.
\<close>

theorem numeric_values_reads_list:
  assumes "encode alloc (DList xs) RootList = Ok bs" "length bs < 2 ^ 63"
  shows "numeric_values bs =
    (if list_all numeric_item xs then Ok (map item_f64 xs) else Err invalid_vector)"
proof -
  have "encodable_item (DList xs)" "bs = FORMAT_VERSION # enc_item (DList xs)"
    using encode_Ok_iff [OF assms(1)] by simp_all
  then show ?thesis
    using numeric_values_enc [of xs] assms(2) by simp
qed

theorem numeric_values_reads_list_witness:
  "numeric_values [3, 13, 1, 0, 0, 0, 0, 0, 0, 0, 3, 1, 0, 0, 0, 0, 0, 0, 0] = Ok [0x3FF0000000000000]"
proof -
  have e: "encode (\<lambda>_. True) (DList [DScalar (SInteger 1)]) RootList =
    Ok [3, 13, 1, 0, 0, 0, 0, 0, 0, 0, 3, 1, 0, 0, 0, 0, 0, 0, 0]"
    by code_simp
  have "i64_as_f64 1 = 0x3FF0000000000000"
    by code_simp
  with numeric_values_reads_list [OF e] show ?thesis by simp
qed

end
