(* ===== verification/Unicode_Text.thy ===== *)
theory Unicode_Text
  imports Ordered_Number
begin

text \<open>
  What the Cypher front end uses of the standard library on text: \<open>char\<close> and its classes, UTF-8
  lengths and bytes, and the conversion of digits to integers and floats. A \<open>char\<close> is its code point
  and a \<open>str\<close> that is read by characters is the list of them.
\<close>

section \<open>Characters\<close>

type_synonym uchar = nat
type_synonym text_str = "uchar list"

definition chars :: "string \<Rightarrow> text_str" where
  "chars s = map of_char s"

definition valid_char :: "uchar \<Rightarrow> bool" where
  "valid_char c \<longleftrightarrow> c < 0xD800 \<or> 0xE000 \<le> c \<and> c < 0x110000"

definition is_ascii_digit :: "uchar \<Rightarrow> bool" where
  "is_ascii_digit c \<longleftrightarrow> 48 \<le> c \<and> c \<le> 57"

definition is_ascii_letter :: "uchar \<Rightarrow> bool" where
  "is_ascii_letter c \<longleftrightarrow> 65 \<le> c \<and> c \<le> 90 \<or> 97 \<le> c \<and> c \<le> 122"

text \<open>
  \<open>is_alphabetic\<close> and \<open>is_alphanumeric\<close> decide ASCII themselves and consult the Unicode tables beyond
  it. The tables change with the Unicode version and are an argument; \<open>is_whitespace\<close> is the closed
  list of the \<open>White_Space\<close> property.
\<close>

record char_tables =
  alphabetic_table :: "uchar \<Rightarrow> bool"
  numeric_table :: "uchar \<Rightarrow> bool"

definition is_alphabetic :: "char_tables \<Rightarrow> uchar \<Rightarrow> bool" where
  "is_alphabetic t c \<longleftrightarrow> is_ascii_letter c \<or> 127 < c \<and> alphabetic_table t c"

definition is_alphanumeric :: "char_tables \<Rightarrow> uchar \<Rightarrow> bool" where
  "is_alphanumeric t c \<longleftrightarrow> is_alphabetic t c \<or> is_ascii_digit c \<or> 127 < c \<and> numeric_table t c"

definition is_whitespace :: "uchar \<Rightarrow> bool" where
  "is_whitespace c \<longleftrightarrow> 9 \<le> c \<and> c \<le> 13 \<or> c = 32 \<or> c = 0x85 \<or> c = 0xA0 \<or> c = 0x1680 \<or>
     0x2000 \<le> c \<and> c \<le> 0x200A \<or> c = 0x2028 \<or> c = 0x2029 \<or> c = 0x202F \<or> c = 0x205F \<or> c = 0x3000"

text \<open>\<open>to_digit\<close>, for a radix up to 36.\<close>

definition to_digit :: "nat \<Rightarrow> uchar \<Rightarrow> nat option" where
  "to_digit radix c =
     (let d = (if is_ascii_digit c then c - 48
               else if 97 \<le> c \<and> c \<le> 122 then c - 87
               else if 65 \<le> c \<and> c \<le> 90 then c - 55 else radix)
      in if d < radix then Some d else None)"

definition starts_with :: "text_str \<Rightarrow> string \<Rightarrow> bool" where
  "starts_with s p \<longleftrightarrow> take (length p) s = chars p"

section \<open>UTF-8\<close>

definition len_utf8 :: "uchar \<Rightarrow> nat" where
  "len_utf8 c = (if c < 0x80 then 1 else if c < 0x800 then 2 else if c < 0x10000 then 3 else 4)"

definition utf8_units :: "uchar \<Rightarrow> nat list" where
  "utf8_units c =
     (if c < 0x80 then [c]
      else if c < 0x800 then [192 + c div 64, 128 + c mod 64]
      else if c < 0x10000 then [224 + c div 64 div 64, 128 + c div 64 mod 64, 128 + c mod 64]
      else [240 + c div 64 div 64 div 64, 128 + c div 64 div 64 mod 64, 128 + c div 64 mod 64, 128 + c mod 64])"

definition utf8_char :: "uchar \<Rightarrow> bytes" where
  "utf8_char c = map word_of_nat (utf8_units c)"

definition as_bytes :: "text_str \<Rightarrow> bytes" where
  "as_bytes s = concat (map utf8_char s)"

definition utf8_len :: "text_str \<Rightarrow> nat" where
  "utf8_len s = sum_list (map len_utf8 s)"

lemma len_utf8_pos [simp]: "0 < len_utf8 c" "len_utf8 c \<noteq> 0"
  by (simp_all add: len_utf8_def)

lemma utf8_len_simps [simp]:
  "utf8_len [] = 0" "utf8_len (c # s) = len_utf8 c + utf8_len s" "utf8_len (s @ t) = utf8_len s + utf8_len t"
  by (simp_all add: utf8_len_def)

lemma as_bytes_simps [simp]: "as_bytes [] = []" "as_bytes (c # s) = utf8_char c @ as_bytes s"
  by (simp_all add: as_bytes_def)

lemma length_utf8_char [simp]: "length (utf8_char c) = len_utf8 c"
  by (simp add: utf8_char_def utf8_units_def len_utf8_def)

lemma length_as_bytes [simp]: "length (as_bytes s) = utf8_len s"
  by (induction s) simp_all

lemma byte_inject: "a < 256 \<Longrightarrow> b < 256 \<Longrightarrow> (word_of_nat a :: u8) = word_of_nat b \<longleftrightarrow> a = b"
  by (metis mod_less unat_byte_of_nat_mod)

lemma div_mod_inject: "(c::nat) div n = d div n \<Longrightarrow> c mod n = d mod n \<Longrightarrow> c = d"
  by (metis div_mult_mod_eq)

lemma utf8_units_bytes: "c < 0x110000 \<Longrightarrow> u \<in> set (utf8_units c) \<Longrightarrow> u < 256"
  by (auto simp: utf8_units_def split: if_splits)

lemma utf8_units_inject:
  assumes "c < 0x110000" "d < 0x110000" "utf8_units c @ xs = utf8_units d @ ys"
  shows "utf8_units c = utf8_units d"
proof -
  have lead: "(hd (utf8_units c) < 128 \<longleftrightarrow> c < 0x80) \<and> (hd (utf8_units c) < 224 \<longleftrightarrow> c < 0x800) \<and>
      (hd (utf8_units c) < 240 \<longleftrightarrow> c < 0x10000)" if "c < 0x110000" for c
    using that by (auto simp: utf8_units_def)
  have "hd (utf8_units c) = hd (utf8_units d)"
    using assms(3) by (metis utf8_units_def hd_append2 list.distinct(1))
  with lead [OF assms(1)] lead [OF assms(2)]
  have "(c < 0x80 \<longleftrightarrow> d < 0x80) \<and> (c < 0x800 \<longleftrightarrow> d < 0x800) \<and> (c < 0x10000 \<longleftrightarrow> d < 0x10000)"
    by simp
  then have "length (utf8_units c) = length (utf8_units d)"
    by (simp add: utf8_units_def)
  with assms(3) show ?thesis by simp
qed

lemma utf8_units_eq: "utf8_units c = utf8_units d \<Longrightarrow> c = d"
  by (auto simp: utf8_units_def split: if_splits dest: div_mod_inject)

lemma utf8_char_inject:
  assumes c: "c < 0x110000" and d: "d < 0x110000" and e: "utf8_char c @ xs = utf8_char d @ ys"
  shows "c = d \<and> xs = ys"
proof -
  have units: "map unat (utf8_char c) = utf8_units c" if "c < 0x110000" for c
    using utf8_units_bytes [OF that]
    by (auto simp: utf8_char_def unat_of_nat intro!: map_idI)
  have "utf8_units c @ map unat xs = utf8_units d @ map unat ys"
    using arg_cong [OF e, of "map unat"] by (simp add: units c d)
  then have "c = d"
    using utf8_units_inject [OF c d] utf8_units_eq by blast
  with e show ?thesis by simp
qed

lemma as_bytes_inject:
  assumes "list_all valid_char s" "list_all valid_char t"
  shows "as_bytes s = as_bytes t \<longleftrightarrow> s = t"
proof
  have range: "c < 0x110000" if "valid_char c" for c
    using that by (auto simp: valid_char_def)
  have nonempty: "utf8_char c \<noteq> []" for c
    by (metis length_utf8_char len_utf8_pos(1) length_greater_0_conv)
  show "as_bytes s = as_bytes t \<Longrightarrow> s = t"
    using assms
  proof (induction s arbitrary: t)
    case Nil
    then show ?case by (cases t) (simp_all add: nonempty)
  next
    case (Cons c s)
    then obtain d t' where t: "t = d # t'"
      by (cases t) (simp_all add: nonempty)
    with Cons.prems have "c = d \<and> as_bytes s = as_bytes t'"
      by (intro utf8_char_inject) (simp_all add: range)
    with Cons t show ?case by simp
  qed
qed simp

section \<open>Numbers\<close>

text \<open>\<open>u64::from_str_radix\<close> and \<open>str::parse::<u64>\<close> on text without a sign.\<close>

fun digits_value :: "nat \<Rightarrow> nat \<Rightarrow> text_str \<Rightarrow> nat option" where
  "digits_value radix acc [] = Some acc"
| "digits_value radix acc (c # s) =
     (case to_digit radix c of None \<Rightarrow> None | Some d \<Rightarrow> digits_value radix (acc * radix + d) s)"

definition from_str_radix :: "nat \<Rightarrow> nat \<Rightarrow> text_str \<Rightarrow> nat option" where
  "from_str_radix limit radix s =
     (if s = [] then None
      else case digits_value radix 0 s of None \<Rightarrow> None | Some v \<Rightarrow> if v < limit then Some v else None)"

text \<open>
  The float nearest to the positive fraction \<open>n / d\<close>, ties to even: \<open>q\<close> is the 53-bit significand at
  the exponent \<open>e\<close>, fewer bits for a subnormal; a rounding carry moves into the exponent field, and a
  result past the greatest finite float is infinity.
\<close>

definition significand_at :: "nat \<Rightarrow> nat \<Rightarrow> int \<Rightarrow> nat \<times> nat \<times> nat" where
  "significand_at n d e =
     (let a = n * 2 ^ nat (- e); b = d * 2 ^ nat e in (a div b, a mod b, b))"

definition nearest_f64 :: "nat \<Rightarrow> nat \<Rightarrow> f64" where
  "nearest_f64 n d =
     (if n = 0 then 0
      else
        let e0 = int (bit_width n) - int (bit_width d) - 53;
            e = max (- 1074) (if 2 ^ 53 \<le> fst (significand_at n d e0) then e0 + 1 else e0);
            (q, r, b) = significand_at n d e;
            rounded = q + of_bool (b < 2 * r \<or> 2 * r = b \<and> odd q);
            bits = (if q < 2 ^ 52 then rounded else nat (e + 1075) * 2 ^ 52 + (rounded - 2 ^ 52))
        in if 0x7FF0000000000000 \<le> bits then f64_positive_infinity else word_of_nat bits)"

definition decimal_f64 :: "nat \<Rightarrow> int \<Rightarrow> f64" where
  "decimal_f64 m e = nearest_f64 (m * 10 ^ nat e) (10 ^ nat (- e))"

text \<open>
  \<open>str::parse::<f64>\<close> on unsigned text: digits with at most one point, at least one digit, and an
  optional exponent with at least one digit.
\<close>

definition exponent_value :: "text_str \<Rightarrow> int option" where
  "exponent_value s =
     (let negative = starts_with s ''-'';
          ds = (if negative \<or> starts_with s ''+'' then tl s else s)
      in if ds = [] then None
         else map_option (\<lambda>v. if negative then - int v else int v) (digits_value 10 0 ds))"

definition parse_f64 :: "text_str \<Rightarrow> f64 option" where
  "parse_f64 s =
     (let whole = takeWhile is_ascii_digit s;
          rest = dropWhile is_ascii_digit s;
          point = starts_with rest ''.'';
          fraction = (if point then takeWhile is_ascii_digit (tl rest) else []);
          rest = (if point then dropWhile is_ascii_digit (tl rest) else rest)
      in if whole = [] \<and> fraction = [] then None
         else case digits_value 10 0 (whole @ fraction) of
             None \<Rightarrow> None
           | Some m \<Rightarrow>
               if rest = [] then Some (decimal_f64 m (- int (length fraction)))
               else if starts_with rest ''e'' \<or> starts_with rest ''E'' then
                 map_option (\<lambda>e. decimal_f64 m (e - int (length fraction))) (exponent_value (tl rest))
               else None)"

end
