(* ===== verification/Lexer.thy ===== *)
theory Lexer
  imports Unicode_Text
begin

text \<open>
  The Cypher tokenizer, \<^verbatim>\<open>crates/cypher/src/lexer.rs\<close>: a state of byte offset, line and column over
  the source text, advanced one character at a time by \<open>bump\<close>. Every loop of the source is a recursion
  that ends because \<open>bump\<close> shortens the remaining text. An operation returns its value with the new
  state; an error drops the state, as \<open>collect\<close> does.

  \<open>remaining\<close> slices the source at the byte offset. The slice panics inside a character; it is the
  empty text there, and \<open>Lexer_Laws\<close> shows that no offset the lexer reaches is inside a character.
\<close>

section \<open>Tokens\<close>

record Span =
  span_start :: nat
  span_end :: nat
  span_line :: u32
  span_column :: u32

datatype Symbol =
    LeftParen | RightParen | LeftBracket | RightBracket | LeftBrace | RightBrace | Comma | Dot | Colon
  | Semicolon | Dollar | Pipe | DoublePipe | Ampersand | Bang | Plus | Minus | Star | Slash | Percent
  | Caret | SymEqual | NotEqual | SymLess | LessOrEqual | SymGreater | GreaterOrEqual | RegexMatch
  | ArrowLeft | ArrowRight | SymRange

datatype TokenKind =
    Identifier text_str
  | TString text_str
  | TInteger u64
  | TFloat f64
  | Parameter text_str
  | TSymbol Symbol
  | TEnd

record Token =
  token_kind :: TokenKind
  token_span :: Span

section \<open>The state and its characters\<close>

record Lexer =
  source :: text_str
  offset :: nat
  line :: u32
  column :: u32
  ended :: bool

definition lexer_new :: "text_str \<Rightarrow> Lexer" where
  "lexer_new s = \<lparr>source = s, offset = 0, line = 1, column = 1, ended = False\<rparr>"

fun slice_from :: "text_str \<Rightarrow> nat \<Rightarrow> text_str option" where
  "slice_from [] n = (if n = 0 then Some [] else None)"
| "slice_from (c # s) n =
     (if n = 0 then Some (c # s) else if len_utf8 c \<le> n then slice_from s (n - len_utf8 c) else None)"

definition remaining :: "Lexer \<Rightarrow> text_str" where
  "remaining lx = (case slice_from (source lx) (offset lx) of Some s \<Rightarrow> s | None \<Rightarrow> [])"

definition peek :: "Lexer \<Rightarrow> uchar option" where
  "peek lx = (case remaining lx of [] \<Rightarrow> None | c # _ \<Rightarrow> Some c)"

definition bump :: "Lexer \<Rightarrow> uchar option \<times> Lexer" where
  "bump lx = (case peek lx of
       None \<Rightarrow> (None, lx)
     | Some c \<Rightarrow> (Some c,
         if c = 10 then lx\<lparr>offset := offset lx + len_utf8 c, line := saturating_inc (line lx), column := 1\<rparr>
         else lx\<lparr>offset := offset lx + len_utf8 c, column := saturating_inc (column lx)\<rparr>))"

abbreviation bumped :: "Lexer \<Rightarrow> Lexer" where
  "bumped lx \<equiv> snd (bump lx)"

lemma slice_from_0 [simp]: "slice_from s 0 = Some s"
  by (cases s) simp_all

lemma slice_from_step:
  "slice_from s n = Some (c # r) \<Longrightarrow> slice_from s (n + len_utf8 c) = Some r"
proof (induction s n rule: slice_from.induct)
  case (2 d s n)
  show ?case
  proof (cases "n = 0")
    case False
    with 2 have d: "len_utf8 d \<le> n" "slice_from s (n - len_utf8 d + len_utf8 c) = Some r"
      by (auto split: if_splits)
    then have "n - len_utf8 d + len_utf8 c = n + len_utf8 c - len_utf8 d"
      by simp
    with d False show ?thesis by simp
  qed (use 2 in auto)
qed (simp split: if_splits)

lemma remaining_bumped: "remaining (bumped lx) = tl (remaining lx)"
proof (cases "remaining lx")
  case Nil
  then show ?thesis by (simp add: bump_def peek_def)
next
  case (Cons c r)
  then have "slice_from (source lx) (offset lx) = Some (c # r)"
    by (simp add: remaining_def split: option.splits)
  from slice_from_step [OF this] show ?thesis
    using Cons by (auto simp: bump_def peek_def remaining_def)
qed

lemma peek_Some_iff: "peek lx = Some c \<longleftrightarrow> (\<exists>r. remaining lx = c # r)"
  by (auto simp: peek_def split: list.splits)

lemma peek_None_iff: "peek lx = None \<longleftrightarrow> remaining lx = []"
  by (auto simp: peek_def split: list.splits)

lemma peek_bumped_less: "peek lx = Some c \<Longrightarrow> length (remaining (bumped lx)) < length (remaining lx)"
  by (auto simp: peek_Some_iff remaining_bumped)

text \<open>\<open>while self.peek().is_some_and(p) { self.bump(); }\<close>, and the same collecting the characters.\<close>

function take_while :: "(uchar \<Rightarrow> bool) \<Rightarrow> Lexer \<Rightarrow> text_str \<times> Lexer" where
  "take_while p lx = (case peek lx of
       Some c \<Rightarrow> if p c then (case take_while p (bumped lx) of (s, lx') \<Rightarrow> (c # s, lx')) else ([], lx)
     | None \<Rightarrow> ([], lx))"
  by pat_completeness auto
termination
  by (relation "measure (\<lambda>(p, lx). length (remaining lx))") (auto dest: peek_bumped_less)

declare take_while.simps [simp del]

abbreviation skip_while :: "(uchar \<Rightarrow> bool) \<Rightarrow> Lexer \<Rightarrow> Lexer" where
  "skip_while p lx \<equiv> snd (take_while p lx)"

text \<open>Every operation moves the lexer by some number of characters.\<close>

definition advance :: "nat \<Rightarrow> Lexer \<Rightarrow> Lexer" where
  "advance n lx = (bumped ^^ n) lx"

definition advances :: "Lexer \<Rightarrow> Lexer \<Rightarrow> bool" where
  "advances lx lx' \<longleftrightarrow> (\<exists>n. lx' = advance n lx)"

lemma advance_0 [simp]: "advance 0 lx = lx"
  by (simp add: advance_def)

lemma advance_Suc: "advance (Suc n) lx = advance n (bumped lx)"
  by (simp add: advance_def funpow_Suc_right del: funpow.simps)

lemma advance_add: "advance m (advance n lx) = advance (m + n) lx"
  by (simp add: advance_def funpow_add)

lemma remaining_advance: "remaining (advance n lx) = drop n (remaining lx)"
  by (induction n arbitrary: lx) (simp_all add: advance_Suc remaining_bumped drop_Suc)

lemma advances_refl [simp, intro]: "advances lx lx"
  unfolding advances_def by (rule exI [of _ 0]) simp

lemma advances_trans [trans]: "advances lx lx' \<Longrightarrow> advances lx' lx'' \<Longrightarrow> advances lx lx''"
  by (auto simp: advances_def advance_add)

lemma advances_bumped: "advances (bumped lx) lx' \<Longrightarrow> advances lx lx'"
  by (auto simp: advances_def advance_Suc [symmetric])

lemma bumped_advances [simp, intro]: "advances lx (bumped lx)"
  by (rule advances_bumped) simp

lemma advances_length: "advances lx lx' \<Longrightarrow> length (remaining lx') \<le> length (remaining lx)"
  by (auto simp: advances_def remaining_advance)

lemma take_while_eq:
  "take_while p lx = (takeWhile p (remaining lx), advance (length (takeWhile p (remaining lx))) lx)"
proof (induction p lx rule: take_while.induct)
  case (1 p lx)
  show ?case
  proof (cases "remaining lx")
    case Nil
    then show ?thesis by (simp add: take_while.simps [of p lx] peek_def)
  next
    case (Cons c r)
    then have c: "peek lx = Some c" by (simp add: peek_def)
    show ?thesis
      using 1 [OF c] c Cons
      by (cases "p c") (simp_all add: take_while.simps [of p lx] remaining_bumped advance_Suc)
  qed
qed

lemma skip_while_advances [simp, intro]: "advances lx (skip_while p lx)"
  by (auto simp: take_while_eq advances_def)

lemma skip_while_step:
  "peek lx = Some c \<Longrightarrow> p c \<Longrightarrow> length (remaining (skip_while p lx)) < length (remaining lx)"
  by (auto simp: take_while_eq remaining_advance peek_Some_iff)

section \<open>Errors and tokens\<close>

type_synonym position = "nat \<times> u32 \<times> u32"

definition detail_error :: "string \<Rightarrow> string \<Rightarrow> position \<Rightarrow> Error" where
  "detail_error detail message pos = (case pos of (start, l, c) \<Rightarrow>
     new_error QuerySyntax (detail @ '': '' @ message @ '' at '' @ decimal (unat l) @ '':'' @ decimal (unat c) @
       '' (byte '' @ decimal start @ '')''))"

definition lexer_error :: "string \<Rightarrow> position \<Rightarrow> Error" where
  "lexer_error message pos = (case pos of (start, l, c) \<Rightarrow>
     new_error QuerySyntax (''UnexpectedSyntax: '' @ message @ '' at '' @ decimal (unat l) @ '':'' @ decimal (unat c) @
       '' (byte '' @ decimal start @ '')''))"

definition here :: "Lexer \<Rightarrow> position" where
  "here lx = (offset lx, line lx, column lx)"

definition token :: "TokenKind \<Rightarrow> position \<Rightarrow> Token" where
  "token kind pos = (case pos of (start, l, c) \<Rightarrow>
     \<lparr>token_kind = kind, token_span = \<lparr>span_start = start, span_end = start, span_line = l, span_column = c\<rparr>\<rparr>)"

definition token_at :: "Lexer \<Rightarrow> TokenKind \<Rightarrow> position \<Rightarrow> Token" where
  "token_at lx kind pos = (case pos of (start, l, c) \<Rightarrow>
     \<lparr>token_kind = kind, token_span = \<lparr>span_start = start, span_end = offset lx, span_line = l, span_column = c\<rparr>\<rparr>)"

definition is_identifier_start :: "char_tables \<Rightarrow> uchar \<Rightarrow> bool" where
  "is_identifier_start t c \<longleftrightarrow> c = 95 \<or> is_alphabetic t c"

definition is_identifier_continue :: "char_tables \<Rightarrow> uchar \<Rightarrow> bool" where
  "is_identifier_continue t c \<longleftrightarrow> c = 95 \<or> is_alphanumeric t c"

definition take_identifier :: "char_tables \<Rightarrow> Lexer \<Rightarrow> text_str \<times> Lexer" where
  "take_identifier t lx = take_while (is_identifier_continue t) lx"

section \<open>Layout\<close>

text \<open>\<open>u32::saturating_add\<close> on the nesting depth of block comments.\<close>

function block_comment :: "position \<Rightarrow> u32 \<Rightarrow> Lexer \<Rightarrow> Lexer result" where
  "block_comment pos depth lx =
     (if depth = 0 then Ok lx
      else if starts_with (remaining lx) ''/*'' then block_comment pos (saturating_inc depth) (bumped (bumped lx))
      else if starts_with (remaining lx) ''*/'' then block_comment pos (depth - 1) (bumped (bumped lx))
      else if peek lx \<noteq> None then block_comment pos depth (bumped lx)
      else Err (lexer_error ''unterminated block comment'' pos))"
  by pat_completeness auto

lemma starts_with_two:
  "starts_with s [c, d] \<longleftrightarrow> (\<exists>r. s = of_char c # of_char d # r)"
  by (cases s; cases "tl s") (auto simp: starts_with_def chars_def)

lemma starts_with_one: "starts_with s [c] \<longleftrightarrow> (\<exists>r. s = of_char c # r)"
  by (cases s) (auto simp: starts_with_def chars_def)

termination block_comment
  by (relation "measure (\<lambda>(pos, depth, lx). length (remaining lx))")
    (auto simp: starts_with_two remaining_bumped peek_Some_iff)

declare block_comment.simps [simp del]

lemma block_comment_advances:
  "block_comment pos depth lx = Ok lx' \<Longrightarrow> advances lx lx'"
proof (induction pos depth lx rule: block_comment.induct)
  case (1 pos depth lx)
  from 1(4) show ?case
    unfolding block_comment.simps [of pos depth lx]
    by (auto split: if_splits intro: advances_bumped dest: 1(1-3))
qed

function skip_layout :: "Lexer \<Rightarrow> Lexer result" where
  "skip_layout lx0 =
     (let lx = skip_while is_whitespace lx0 in
      if starts_with (remaining lx) ''//'' then skip_layout (skip_while (\<lambda>c. c \<noteq> 10) lx)
      else if starts_with (remaining lx) ''/*'' then
        and_then (block_comment (here lx) 1 (bumped (bumped lx))) skip_layout
      else Ok lx)"
  by pat_completeness auto
termination
proof (relation "measure (\<lambda>lx. length (remaining lx))")
  fix lx0 lx
  assume lx: "lx = skip_while is_whitespace lx0" and s: "starts_with (remaining lx) ''//''"
  then have "peek lx = Some 47"
    by (auto simp: starts_with_two peek_Some_iff)
  from skip_while_step [OF this, of "\<lambda>c. c \<noteq> 10"] lx advances_length [OF skip_while_advances [of lx0 is_whitespace]]
  show "(skip_while (\<lambda>c. c \<noteq> 10) lx, lx0) \<in> measure (\<lambda>lx. length (remaining lx))"
    by simp
next
  fix lx0 lx lx'
  assume lx: "lx = skip_while is_whitespace lx0" and s: "starts_with (remaining lx) ''/*''"
    and b: "block_comment (here lx) 1 (bumped (bumped lx)) = Ok lx'"
  have "length (remaining (bumped (bumped lx))) < length (remaining lx)"
    using s by (auto simp: starts_with_two remaining_bumped)
  then show "(lx', lx0) \<in> measure (\<lambda>lx. length (remaining lx))"
    using advances_length [OF block_comment_advances [OF b]] lx advances_length [OF skip_while_advances [of lx0 is_whitespace]] by simp
qed simp

declare skip_layout.simps [simp del]

section \<open>Names, strings and numbers\<close>

function quoted_loop :: "position \<Rightarrow> text_str \<Rightarrow> Lexer \<Rightarrow> (text_str \<times> Lexer) result" where
  "quoted_loop pos acc lx = (case peek lx of
       None \<Rightarrow> Err (lexer_error ''unterminated quoted identifier'' pos)
     | Some c \<Rightarrow>
         if c = 96 then
           if peek (bumped lx) = Some 96 then quoted_loop pos (acc @ [96]) (bumped (bumped lx))
           else Ok (acc, bumped lx)
         else quoted_loop pos (acc @ [c]) (bumped lx))"
  by pat_completeness auto
termination
  by (relation "measure (\<lambda>(pos, acc, lx). length (remaining lx))") (auto simp: peek_Some_iff remaining_bumped)

declare quoted_loop.simps [simp del]

definition quoted_identifier :: "position \<Rightarrow> Lexer \<Rightarrow> (Token \<times> Lexer) result" where
  "quoted_identifier pos lx =
     and_then (quoted_loop pos [] (bumped lx)) (\<lambda>(s, lx). Ok (token_at lx (Identifier s) pos, lx))"

text \<open>The digits of an escape, and the scalar value they name.\<close>

fun escape_digits :: "position \<Rightarrow> nat \<Rightarrow> text_str \<Rightarrow> Lexer \<Rightarrow> (text_str \<times> Lexer) result" where
  "escape_digits pos 0 acc lx = Ok (acc, lx)"
| "escape_digits pos (Suc n) acc lx = (case peek lx of
       None \<Rightarrow> Err (detail_error ''InvalidUnicodeLiteral'' ''truncated Unicode escape'' pos)
     | Some c \<Rightarrow>
         if to_digit 16 c = None then Err (detail_error ''InvalidUnicodeLiteral'' ''invalid Unicode escape'' pos)
         else escape_digits pos n (acc @ [c]) (bumped lx))"

definition unicode_escape :: "nat \<Rightarrow> position \<Rightarrow> Lexer \<Rightarrow> (uchar \<times> Lexer) result" where
  "unicode_escape width pos lx =
     and_then (escape_digits pos width [] lx) (\<lambda>(digits, lx).
     and_then (ok_or (from_str_radix (2 ^ 32) 16 digits)
         (detail_error ''InvalidUnicodeLiteral'' ''invalid Unicode escape'' pos)) (\<lambda>scalar.
       if valid_char scalar then Ok (scalar, lx)
       else Err (detail_error ''InvalidUnicodeLiteral'' ''Unicode escape is not a scalar value'' pos)))"

text \<open>The escapes of one character: after a backslash, the character read and the one meant.\<close>

definition simple_escape :: "uchar \<Rightarrow> uchar option" where
  "simple_escape c =
     map_of [(110, 10), (114, 13), (116, 9), (98, 8), (102, 12), (92, 92), (39, 39), (34, 34)] c"

lemma escape_digits_advances: "escape_digits pos n acc lx = Ok (s, lx') \<Longrightarrow> advances lx lx'"
  by (induction pos n acc lx rule: escape_digits.induct)
    (auto split: option.splits if_splits intro: advances_bumped)

lemma unicode_escape_advances: "unicode_escape w pos lx = Ok (c, lx') \<Longrightarrow> advances lx lx'"
  by (auto simp: unicode_escape_def and_then_eq_Inr_iff split: if_splits dest: escape_digits_advances)

definition escape :: "position \<Rightarrow> Lexer \<Rightarrow> (uchar \<times> Lexer) result" where
  "escape pos lx = (case peek lx of
       None \<Rightarrow> Err (lexer_error ''unterminated string escape'' pos)
     | Some e \<Rightarrow>
         (case simple_escape e of
            Some c \<Rightarrow> Ok (c, bumped lx)
          | None \<Rightarrow>
              if e = 117 then unicode_escape 4 pos (bumped lx)
              else if e = 85 then unicode_escape 8 pos (bumped lx)
              else Err (lexer_error ''invalid string escape'' pos)))"

lemma escape_advances: "escape pos lx = Ok (c, lx') \<Longrightarrow> advances lx lx'"
  by (auto simp: escape_def split: option.splits if_splits intro: advances_bumped dest: unicode_escape_advances)

function string_loop :: "uchar \<Rightarrow> position \<Rightarrow> text_str \<Rightarrow> Lexer \<Rightarrow> (text_str \<times> Lexer) result" where
  "string_loop quote pos acc lx = (case peek lx of
       None \<Rightarrow> Err (lexer_error ''unterminated string literal'' pos)
     | Some c \<Rightarrow>
         if c = quote then
           if peek (bumped lx) = Some quote then string_loop quote pos (acc @ [quote]) (bumped (bumped lx))
           else Ok (acc, bumped lx)
         else if c = 92 then
           and_then (escape pos (bumped lx)) (\<lambda>e. string_loop quote pos (acc @ [fst e]) (snd e))
         else string_loop quote pos (acc @ [c]) (bumped lx))"
  by pat_completeness auto
termination
proof (relation "measure (\<lambda>(quote, pos, acc, lx). length (remaining lx))")
  fix quote pos acc lx c e
  assume "peek lx = Some c" "escape pos (bumped lx) = Ok e"
  then have "length (remaining (snd e)) \<le> length (remaining (bumped lx))"
    "length (remaining (bumped lx)) < length (remaining lx)"
    by (cases e; auto dest!: escape_advances advances_length peek_bumped_less)+
  then show "((quote, pos, acc @ [fst e], snd e), (quote, pos, acc, lx)) \<in>
      measure (\<lambda>(quote, pos, acc, lx). length (remaining lx))"
    by simp
qed (auto simp: peek_Some_iff remaining_bumped)

declare string_loop.simps [simp del]

definition lex_string :: "uchar \<Rightarrow> position \<Rightarrow> Lexer \<Rightarrow> (Token \<times> Lexer) result" where
  "lex_string quote pos lx =
     and_then (string_loop quote pos [] (bumped lx)) (\<lambda>(s, lx). Ok (token_at lx (TString s) pos, lx))"

definition radix_integer :: "char_tables \<Rightarrow> nat \<Rightarrow> string \<Rightarrow> position \<Rightarrow> Lexer \<Rightarrow> (Token \<times> Lexer) result" where
  "radix_integer t radix name pos lx =
     (case take_while (is_identifier_continue t) (bumped (bumped lx)) of (digits, lx) \<Rightarrow>
        if \<not> (list_ex (\<lambda>c. c \<noteq> 95) digits \<and>
               list_all (\<lambda>c. c = 95 \<or> c < 128 \<and> to_digit radix c \<noteq> None) digits) then
          Err (detail_error ''InvalidNumberLiteral''
            (if name = ''hexadecimal'' then ''invalid hexadecimal integer literal''
             else if name = ''octal'' then ''invalid octal integer literal''
             else ''invalid radix integer literal'') pos)
        else
          and_then (ok_or (from_str_radix (2 ^ 64) radix (filter (\<lambda>c. c \<noteq> 95) digits))
              (detail_error ''IntegerOverflow'' ''integer literal is out of range'' pos))
            (\<lambda>v. Ok (token_at lx (TInteger (word_of_nat v)) pos, lx)))"

abbreviation digit_or_underscore :: "uchar \<Rightarrow> bool" where
  "digit_or_underscore c \<equiv> is_ascii_digit c \<or> c = 95"

text \<open>
  The text of a decimal literal: the digits, then a fraction unless two points follow, then an exponent.
  The flag tells whether the literal is floating.
\<close>

definition fraction_part :: "Lexer \<Rightarrow> text_str \<times> bool \<times> Lexer" where
  "fraction_part lx =
     (if peek lx = Some 46 \<and> \<not> starts_with (remaining lx) ''..'' then
        case take_while digit_or_underscore (bumped lx) of (s, lx) \<Rightarrow> (46 # s, True, lx)
      else ([], False, lx))"

definition exponent_sign :: "Lexer \<Rightarrow> text_str \<times> Lexer" where
  "exponent_sign lx = (case peek lx of
       Some c \<Rightarrow> if c = 43 \<or> c = 45 then ([c], bumped lx) else ([], lx)
     | None \<Rightarrow> ([], lx))"

definition exponent_part :: "Lexer \<Rightarrow> text_str \<times> bool \<times> Lexer" where
  "exponent_part lx = (case peek lx of
       Some c \<Rightarrow>
         if c = 101 \<or> c = 69 then
           (case exponent_sign (bumped lx) of (sign, lx) \<Rightarrow>
            case take_while digit_or_underscore lx of (s, lx) \<Rightarrow> (c # sign @ s, True, lx))
         else ([], False, lx)
     | None \<Rightarrow> ([], False, lx))"

definition number_text :: "Lexer \<Rightarrow> text_str \<times> bool \<times> Lexer" where
  "number_text lx =
     (case take_while digit_or_underscore lx of (integer, lx) \<Rightarrow>
      case fraction_part lx of (fraction, point, lx) \<Rightarrow>
      case exponent_part lx of (e, scaled, lx) \<Rightarrow> (integer @ fraction @ e, point \<or> scaled, lx))"

definition decimal_integer :: "char_tables \<Rightarrow> text_str \<Rightarrow> position \<Rightarrow> Lexer \<Rightarrow> (Token \<times> Lexer) result" where
  "decimal_integer t cleaned pos lx =
     (if (case peek lx of Some c \<Rightarrow> is_identifier_continue t c | None \<Rightarrow> False) then
        if starts_with (dropWhile is_whitespace (remaining (skip_while (is_identifier_continue t) lx))) '':'' then
          Err (lexer_error ''a symbolic name cannot start with a decimal digit'' pos)
        else Err (detail_error ''InvalidNumberLiteral'' ''invalid decimal integer literal'' pos)
      else
        and_then (ok_or (from_str_radix (2 ^ 64) 10 cleaned)
            (detail_error ''IntegerOverflow'' ''integer literal is out of range'' pos))
          (\<lambda>v. Ok (token_at lx (TInteger (word_of_nat v)) pos, lx)))"

definition number :: "char_tables \<Rightarrow> position \<Rightarrow> Lexer \<Rightarrow> (Token \<times> Lexer) result" where
  "number t pos lx =
     (if starts_with (remaining lx) ''0x'' \<or> starts_with (remaining lx) ''0X'' then
        radix_integer t 16 ''hexadecimal'' pos lx
      else if starts_with (remaining lx) ''0o'' \<or> starts_with (remaining lx) ''0O'' then
        radix_integer t 8 ''octal'' pos lx
      else
        case number_text lx of (s, floating, lx) \<Rightarrow>
          let cleaned = filter (\<lambda>c. c \<noteq> 95) s in
          if floating then
            and_then (ok_or (parse_f64 cleaned) (lexer_error ''invalid floating-point literal'' pos)) (\<lambda>v.
              if \<not> f64_is_finite v then
                Err (lexer_error ''FloatingPointOverflow: floating-point literal is not finite'' pos)
              else Ok (token_at lx (TFloat v) pos, lx))
          else decimal_integer t cleaned pos lx)"

section \<open>Punctuation\<close>

definition double_symbols :: "(string \<times> Symbol) list" where
  "double_symbols =
     [(''<-'', ArrowLeft), (''->'', ArrowRight), (''<='', LessOrEqual), (''>='', GreaterOrEqual), (''<>'', NotEqual),
      (''!='', NotEqual), (''=~'', RegexMatch), (''||'', DoublePipe), (''..'', SymRange)]"

definition single_symbols :: "(char \<times> Symbol) list" where
  "single_symbols =
     [(CHR ''('', LeftParen), (CHR '')'', RightParen), (CHR ''['', LeftBracket), (CHR '']'', RightBracket),
      (CHR ''{'', LeftBrace), (CHR ''}'', RightBrace), (CHR '','', Comma), (CHR ''.'', Dot), (CHR '':'', Colon),
      (CHR '';'', Semicolon), (CHR ''|'', Pipe), (CHR ''&'', Ampersand), (CHR ''!'', Bang), (CHR ''+'', Plus),
      (CHR ''-'', Minus), (CHR ''*'', Star), (CHR ''/'', Slash), (CHR ''%'', Percent), (CHR ''^'', Caret),
      (CHR ''='', SymEqual), (CHR ''<'', SymLess), (CHR ''>'', SymGreater)]"

definition symbol_of :: "text_str \<Rightarrow> (Symbol \<times> nat) option" where
  "symbol_of s = (case find (\<lambda>(p, _). starts_with s p) double_symbols of
       Some (_, y) \<Rightarrow> Some (y, 2)
     | None \<Rightarrow> (case find (\<lambda>(c, _). starts_with s [c]) single_symbols of
           Some (_, y) \<Rightarrow> Some (y, 1)
         | None \<Rightarrow> None))"

definition lex_symbol :: "position \<Rightarrow> Lexer \<Rightarrow> (Token \<times> Lexer) result" where
  "lex_symbol pos lx = (case symbol_of (remaining lx) of
       Some (y, width) \<Rightarrow> let lx = advance width lx in Ok (token_at lx (TSymbol y) pos, lx)
     | None \<Rightarrow>
         (case peek lx of
            Some c \<Rightarrow>
              if 127 < c then
                Err (detail_error ''InvalidUnicodeCharacter'' ''Unicode character is not valid Cypher punctuation'' pos)
              else Err (lexer_error ''unexpected character'' pos)
          | None \<Rightarrow> Err (lexer_error ''unexpected character'' pos)))"

section \<open>Tokens of a source\<close>

definition parameter :: "char_tables \<Rightarrow> position \<Rightarrow> Lexer \<Rightarrow> (Token \<times> Lexer) result" where
  "parameter t pos lx =
     (if starts_with (remaining lx) ''$('' then Ok (token_at (bumped lx) (TSymbol Dollar) pos, bumped lx)
      else case take_identifier t (bumped lx) of (name, lx) \<Rightarrow>
        if name = [] then Err (lexer_error ''parameter name is missing'' pos)
        else Ok (token_at lx (Parameter name) pos, lx))"

definition starts_number :: "uchar \<Rightarrow> Lexer \<Rightarrow> bool" where
  "starts_number c lx \<longleftrightarrow> is_ascii_digit c \<or>
     c = 46 \<and> (case drop 1 (as_bytes (remaining lx)) of b # _ \<Rightarrow> 48 \<le> b \<and> b \<le> 57 | [] \<Rightarrow> False)"

definition lex_character :: "char_tables \<Rightarrow> uchar \<Rightarrow> position \<Rightarrow> Lexer \<Rightarrow> (Token \<times> Lexer) result" where
  "lex_character t c pos lx =
     (if c = 96 then quoted_identifier pos lx
      else if c = 39 \<or> c = 34 then lex_string c pos lx
      else if c = 36 then parameter t pos lx
      else if starts_number c lx then number t pos lx
      else if is_identifier_start t c then
        case take_identifier t lx of (name, lx) \<Rightarrow> Ok (token_at lx (Identifier name) pos, lx)
      else lex_symbol pos lx)"

definition next_token :: "char_tables \<Rightarrow> Lexer \<Rightarrow> (Token \<times> Lexer) result" where
  "next_token t lx =
     (if ended lx then Ok (token TEnd (here lx), lx)
      else
        and_then (skip_layout lx) (\<lambda>lx.
          case peek lx of
            None \<Rightarrow> Ok (token TEnd (here lx), lx\<lparr>ended := True\<rparr>)
          | Some c \<Rightarrow> lex_character t c (here lx) lx))"

text \<open>
  An operation that scans a token moves past at least one character, and spans what it moved past.
\<close>

definition scans :: "position \<Rightarrow> Lexer \<Rightarrow> (Token \<times> Lexer) result \<Rightarrow> bool" where
  "scans pos lx r \<longleftrightarrow> (\<forall>tok lx'. r = Ok (tok, lx') \<longrightarrow>
     advances lx lx' \<and> length (remaining lx') < length (remaining lx) \<and>
     (\<exists>k. k \<noteq> TEnd \<and> tok = token_at lx' k pos))"

lemma advances_past:
  "peek lx = Some c \<Longrightarrow> advances (bumped lx) lx' \<Longrightarrow> advances lx lx' \<and> length (remaining lx') < length (remaining lx)"
  using advances_length [of "bumped lx" lx'] peek_bumped_less [of lx c] advances_bumped by fastforce

lemma quoted_loop_advances: "quoted_loop pos acc lx = Ok (s, lx') \<Longrightarrow> advances lx lx'"
proof (induction pos acc lx rule: quoted_loop.induct)
  case (1 pos acc lx)
  from 1(3) show ?case
    unfolding quoted_loop.simps [of pos acc lx]
    by (auto split: option.splits if_splits intro: advances_bumped dest: 1(1,2))
qed

lemma string_loop_advances: "string_loop quote pos acc lx = Ok (s, lx') \<Longrightarrow> advances lx lx'"
proof (induction quote pos acc lx rule: string_loop.induct)
  case (1 quote pos acc lx)
  have esc: "advances lx lx'" if "peek lx = Some 92" "quote \<noteq> 92" "escape pos (bumped lx) = Ok (a, b)"
      "string_loop quote pos (acc @ [a]) b = Ok (s, lx')" for a b
    using 1(2) [of 92 "(a, b)"] that escape_advances [OF that(3)]
    by (auto intro: advances_bumped advances_trans)
  from 1(4) show ?case
    unfolding string_loop.simps [of quote pos acc lx]
    by (auto simp: and_then_eq_Inr_iff split: option.splits if_splits intro: advances_bumped esc dest: 1(1,3))
qed

lemma scans_quoted: "peek lx = Some c \<Longrightarrow> scans pos lx (quoted_identifier pos lx)"
  by (auto simp: scans_def quoted_identifier_def and_then_eq_Inr_iff dest!: quoted_loop_advances dest: advances_past)

lemma scans_string: "peek lx = Some c \<Longrightarrow> scans pos lx (lex_string q pos lx)"
  by (auto simp: scans_def lex_string_def and_then_eq_Inr_iff dest!: string_loop_advances dest: advances_past)

lemma take_while_advances: "take_while p lx = (s, lx') \<Longrightarrow> advances lx lx'"
  by (metis skip_while_advances snd_conv)

lemma scans_parameter: "peek lx = Some c \<Longrightarrow> scans pos lx (parameter t pos lx)"
  by (auto simp: scans_def parameter_def take_identifier_def split: if_splits prod.splits
      dest: advances_past dest!: take_while_advances)

lemma scans_radix: "peek lx = Some c \<Longrightarrow> scans pos lx (radix_integer t radix name pos lx)"
  by (auto simp: scans_def radix_integer_def and_then_eq_Inr_iff split: if_splits prod.splits
      dest!: take_while_advances dest: advances_past [OF _ advances_bumped])

lemma scans_symbol: "scans pos lx (lex_symbol pos lx)"
proof -
  have "remaining lx \<noteq> [] \<and> 0 < n" if "symbol_of (remaining lx) = Some (y, n)" for y n
    using that
    by (auto simp: symbol_of_def find_Some_iff double_symbols_def single_symbols_def starts_with_def chars_def
        split: option.splits prod.splits)
  then show ?thesis
    by (auto simp: scans_def lex_symbol_def Let_def advances_def remaining_advance split: option.splits if_splits prod.splits)
qed

lemma fraction_part_advances: "fraction_part lx = (s, b, lx') \<Longrightarrow> advances lx lx'"
  by (auto simp: fraction_part_def split: if_splits prod.splits dest!: take_while_advances intro: advances_bumped)

lemma exponent_part_advances: "exponent_part lx = (s, b, lx') \<Longrightarrow> advances lx lx'"
  by (auto simp: exponent_part_def exponent_sign_def split: option.splits if_splits prod.splits
      dest!: take_while_advances intro: advances_bumped)

lemma number_text_advances:
  assumes "number_text lx = (s, floating, lx')"
  obtains lx1 lx2 b e where "lx1 = skip_while digit_or_underscore lx" "fraction_part lx1 = (b, e, lx2)" "advances lx1 lx2" "advances lx2 lx'"
  using assms
  by (auto simp: number_text_def split: prod.splits dest: fraction_part_advances exponent_part_advances)

lemma starts_number_point:
  assumes "peek lx = Some 46" "starts_number 46 lx"
  shows "\<not> starts_with (remaining lx) ''..''"
proof
  assume "starts_with (remaining lx) ''..''"
  then obtain r where "remaining lx = 46 # 46 # r"
    by (auto simp: starts_with_two)
  moreover have "utf8_char 46 = [46]"
    by (simp add: utf8_char_def utf8_units_def)
  ultimately show False
    using assms(2) by (simp add: starts_number_def is_ascii_digit_def)
qed

lemma number_text_consumes:
  assumes c: "peek lx = Some c" and n: "starts_number c lx" and e: "number_text lx = (s, floating, lx')"
  shows "advances lx lx' \<and> length (remaining lx') < length (remaining lx)"
proof -
  obtain lx1 lx2 b f where *: "lx1 = skip_while digit_or_underscore lx" "fraction_part lx1 = (b, f, lx2)"
      "advances lx1 lx2" "advances lx2 lx'"
    using number_text_advances [OF e] .
  have "advances lx lx1"
    unfolding *(1) by (rule skip_while_advances)
  then have adv: "advances lx lx'"
    by (rule advances_trans [OF advances_trans [OF _ *(3)] *(4)])
  have "length (remaining lx2) < length (remaining lx)"
  proof (cases "is_ascii_digit c")
    case True
    then have "length (remaining lx1) < length (remaining lx)"
      using skip_while_step [OF c, of digit_or_underscore] *(1) by simp
    then show ?thesis using advances_length [OF *(3)] by simp
  next
    case False
    then have c46: "c = 46" using n by (simp add: starts_number_def)
    have lx1: "lx1 = lx"
      using c c46 *(1) by (auto simp: take_while_eq peek_Some_iff is_ascii_digit_def)
    have "peek lx = Some 46" "\<not> starts_with (remaining lx) ''..''"
      using c n c46 starts_number_point by auto
    then have "advances (bumped lx) lx2"
      using *(2) unfolding lx1 by (auto simp: fraction_part_def split: prod.splits dest!: take_while_advances)
    from advances_past [OF c this] show ?thesis by simp
  qed
  then show ?thesis using adv advances_length [OF *(4)] by simp
qed

lemma scans_number:
  assumes "peek lx = Some c" "starts_number c lx"
  shows "scans pos lx (number t pos lx)"
proof -
  have "scans pos lx (case number_text lx of (s, floating, lx) \<Rightarrow>
          let cleaned = filter (\<lambda>c. c \<noteq> 95) s in
          if floating then
            and_then (ok_or (parse_f64 cleaned) (lexer_error ''invalid floating-point literal'' pos)) (\<lambda>v.
              if \<not> f64_is_finite v then
                Err (lexer_error ''FloatingPointOverflow: floating-point literal is not finite'' pos)
              else Ok (token_at lx (TFloat v) pos, lx))
          else decimal_integer t cleaned pos lx)"
    using number_text_consumes [OF assms]
    by (auto simp: scans_def decimal_integer_def Let_def and_then_eq_Inr_iff split: prod.splits if_splits)
  then show ?thesis
    unfolding number_def using scans_radix [OF assms(1)] by auto
qed

lemma scans_identifier:
  assumes "peek lx = Some c" "is_identifier_start t c"
  shows "scans pos lx (case take_identifier t lx of (name, lx) \<Rightarrow> Ok (token_at lx (Identifier name) pos, lx))"
proof -
  have "is_identifier_continue t c"
    using assms(2) by (auto simp: is_identifier_start_def is_identifier_continue_def is_alphanumeric_def)
  from skip_while_step [OF assms(1), of "is_identifier_continue t", OF this] show ?thesis
    by (auto simp: scans_def take_identifier_def split: prod.splits dest: take_while_advances)
qed

lemma scans_character: "peek lx = Some c \<Longrightarrow> scans pos lx (lex_character t c pos lx)"
  unfolding lex_character_def
  using scans_quoted scans_string scans_parameter scans_number scans_identifier scans_symbol by auto

lemma skip_layout_advances: "skip_layout lx = Ok lx' \<Longrightarrow> advances lx lx'"
proof (induction lx rule: skip_layout.induct)
  case (1 lx)
  let ?lx = "skip_while is_whitespace lx"
  have comment: "advances lx lx'" if "starts_with (remaining ?lx) ''/*''" "\<not> starts_with (remaining ?lx) ''//''"
      "block_comment (here ?lx) 1 (bumped (bumped ?lx)) = Ok l" "skip_layout l = Ok lx'" for l
    using 1(2) [OF refl that(2,1,3)] that(4) block_comment_advances [OF that(3)]
    by (meson advances_bumped advances_trans skip_while_advances)
  have line: "advances lx lx'" if "starts_with (remaining ?lx) ''//''" "skip_layout (skip_while (\<lambda>c. c \<noteq> 10) ?lx) = Ok lx'"
    using 1(1) [OF refl that] by (meson advances_trans skip_while_advances)
  from 1(3) show ?case
    unfolding skip_layout.simps [of lx] Let_def
    by (auto simp: and_then_eq_Inr_iff split: if_splits intro: comment line)
qed

lemma next_token_scans:
  assumes "next_token t lx = Ok (tok, lx')" "token_kind tok \<noteq> TEnd"
  obtains lx0 c where "skip_layout lx = Ok lx0" "peek lx0 = Some c" "lex_character t c (here lx0) lx0 = Ok (tok, lx')"
  using assms
  by (auto simp: next_token_def and_then_eq_Inr_iff token_def here_def split: if_splits option.splits)

lemma next_token_consumes:
  assumes "next_token t lx = Ok (tok, lx')" "token_kind tok \<noteq> TEnd"
  shows "length (remaining lx') < length (remaining lx)"
proof -
  obtain lx0 c where "skip_layout lx = Ok lx0" "peek lx0 = Some c" "lex_character t c (here lx0) lx0 = Ok (tok, lx')"
    using next_token_scans [OF assms] .
  then show ?thesis
    using scans_character [of lx0 c "here lx0" t] advances_length [OF skip_layout_advances, of lx lx0]
    by (auto simp: scans_def)
qed

function collect_tokens :: "char_tables \<Rightarrow> Token list \<Rightarrow> Lexer \<Rightarrow> Token list result" where
  "collect_tokens t tokens lx =
     and_then (next_token t lx) (\<lambda>r.
       if token_kind (fst r) = TEnd then Ok (tokens @ [fst r])
       else collect_tokens t (tokens @ [fst r]) (snd r))"
  by pat_completeness auto
termination
  by (relation "measure (\<lambda>(t, tokens, lx). length (remaining lx))")
    (auto intro: next_token_consumes)

declare collect_tokens.simps [simp del]

definition lex :: "char_tables \<Rightarrow> text_str \<Rightarrow> Token list result" where
  "lex t s = collect_tokens t [] (lexer_new s)"

end
