(* ===== verification/Lexer_Grammar.thy ===== *)
theory Lexer_Grammar
  imports Lexer
begin

text \<open>
  What the tokens of a source look like, said of the text alone: the layout between tokens, and the
  characters that spell a token of each kind, with what may follow them. The operations of the
  tokenizer take exactly such texts off the front of the source.
\<close>

section \<open>Layout\<close>

definition stops :: "(uchar \<Rightarrow> bool) \<Rightarrow> text_str \<Rightarrow> bool" where
  "stops p r \<longleftrightarrow> (case r of [] \<Rightarrow> True | c # _ \<Rightarrow> \<not> p c)"

text \<open>
  The rest of a block comment inside \<open>depth\<close> openings, up to the mark that closes the outermost one.
  Comments nest, to the greatest \<open>u32\<close>.
\<close>

inductive comment_tail :: "u32 \<Rightarrow> text_str \<Rightarrow> bool" where
  closed: "comment_tail 0 []"
| nested: "depth \<noteq> 0 \<Longrightarrow> comment_tail (saturating_inc depth) w \<Longrightarrow> comment_tail depth (chars ''/*'' @ w)"
| unnested: "depth \<noteq> 0 \<Longrightarrow> comment_tail (depth - 1) w \<Longrightarrow> comment_tail depth (chars ''*/'' @ w)"
| inside: "depth \<noteq> 0 \<Longrightarrow> \<not> starts_with (c # w) ''/*'' \<Longrightarrow> \<not> starts_with (c # w) ''*/'' \<Longrightarrow> comment_tail depth w \<Longrightarrow>
    comment_tail depth (c # w)"

text \<open>
  The whole layout before a text: white space, line comments up to the end of the line, and block
  comments. It is as long as possible: the text begins with none of them.
\<close>

inductive layout :: "text_str \<Rightarrow> text_str \<Rightarrow> bool" where
  none: "stops is_whitespace rest \<Longrightarrow> \<not> starts_with rest ''//'' \<Longrightarrow> \<not> starts_with rest ''/*'' \<Longrightarrow> layout [] rest"
| space: "is_whitespace c \<Longrightarrow> layout w rest \<Longrightarrow> layout (c # w) rest"
| to_line_end: "10 \<notin> set body \<Longrightarrow> stops (\<lambda>c. c \<noteq> 10) (w @ rest) \<Longrightarrow> layout w rest \<Longrightarrow>
    layout (chars ''//'' @ body @ w) rest"
| comment: "comment_tail 1 body \<Longrightarrow> layout w rest \<Longrightarrow> layout (chars ''/*'' @ body @ w) rest"

section \<open>Spelling\<close>

text \<open>A text between quotes, with the quote doubled and, in a string, the backslash too.\<close>

definition quote_string :: "uchar \<Rightarrow> text_str \<Rightarrow> text_str" where
  "quote_string q s = q # concat (map (\<lambda>c. if c = q \<or> c = 92 then [c, c] else [c]) s) @ [q]"

definition quote_name :: "text_str \<Rightarrow> text_str" where
  "quote_name s = 96 # concat (map (\<lambda>c. if c = 96 then [c, c] else [c]) s) @ [96]"

text \<open>The characters after a backslash that name a character.\<close>

definition escape_spells :: "text_str \<Rightarrow> uchar \<Rightarrow> bool" where
  "escape_spells w c \<longleftrightarrow>
     (w, c) \<in> {(chars ''n'', 10), (chars ''r'', 13), (chars ''t'', 9), (chars ''b'', 8), (chars ''f'', 12), ([92], 92),
       ([39], 39), ([34], 34)} \<or>
     (\<exists>digits. (w = chars ''u'' @ digits \<and> length digits = 4 \<or> w = chars ''U'' @ digits \<and> length digits = 8) \<and>
       list_all (\<lambda>d. to_digit 16 d \<noteq> None) digits \<and> from_str_radix (2 ^ 32) 16 digits = Some c \<and> valid_char c)"

inductive string_body :: "uchar \<Rightarrow> text_str \<Rightarrow> text_str \<Rightarrow> bool" for q where
  empty: "string_body q [] []"
| doubled: "string_body q w s \<Longrightarrow> string_body q (q # q # w) (q # s)"
| escaped: "escape_spells e c \<Longrightarrow> string_body q w s \<Longrightarrow> string_body q (92 # e @ w) (c # s)"
| plain: "c \<noteq> q \<Longrightarrow> c \<noteq> 92 \<Longrightarrow> string_body q w s \<Longrightarrow> string_body q (c # w) (c # s)"

definition digit_text :: "text_str \<Rightarrow> bool" where
  "digit_text w \<longleftrightarrow> list_all digit_or_underscore w"

definition radix_spells :: "char_tables \<Rightarrow> text_str \<Rightarrow> text_str \<Rightarrow> nat \<Rightarrow> bool" where
  "radix_spells t w rest v \<longleftrightarrow> (\<exists>prefix digits radix. w = chars prefix @ digits \<and>
     (prefix, radix) \<in> {(''0x'', 16), (''0X'', 16), (''0o'', 8), (''0O'', 8)} \<and>
     list_all (\<lambda>d. d = 95 \<or> to_digit radix d \<noteq> None) digits \<and>
     from_str_radix (2 ^ 64) radix (filter (\<lambda>c. c \<noteq> 95) digits) = Some v) \<and>
   stops (is_identifier_continue t) rest"

definition decimal_spells :: "char_tables \<Rightarrow> text_str \<Rightarrow> text_str \<Rightarrow> nat \<Rightarrow> bool" where
  "decimal_spells t w rest v \<longleftrightarrow> w \<noteq> [] \<and> digit_text w \<and> is_ascii_digit (hd w) \<and>
     from_str_radix (2 ^ 64) 10 (filter (\<lambda>c. c \<noteq> 95) w) = Some v \<and>
     stops (is_identifier_continue t) rest \<and> (starts_with rest ''.'' \<longrightarrow> starts_with rest ''..'')"

definition float_text :: "text_str \<Rightarrow> text_str \<Rightarrow> bool" where
  "float_text w rest \<longleftrightarrow> (\<exists>whole fraction power. w = whole @ fraction @ power \<and> digit_text whole \<and>
     (fraction = [] \<or> (\<exists>d. fraction = 46 # d \<and> digit_text d)) \<and>
     (power = [] \<or> (\<exists>e sign d. power = e # sign @ d \<and> e \<in> {101, 69} \<and> sign \<in> {[], [43], [45]} \<and> digit_text d)) \<and>
     fraction @ power \<noteq> [] \<and> stops digit_or_underscore rest \<and>
     (power = [] \<longrightarrow> stops (\<lambda>c. c \<in> {101, 69}) rest))"

fun symbol_texts :: "Symbol \<Rightarrow> string list" where
  "symbol_texts LeftParen = [''('']" | "symbol_texts RightParen = ['')'']"
| "symbol_texts LeftBracket = [''['']" | "symbol_texts RightBracket = ['']'']"
| "symbol_texts LeftBrace = [''{'']" | "symbol_texts RightBrace = [''}'']"
| "symbol_texts Comma = ['','']" | "symbol_texts Dot = [''.'']" | "symbol_texts Colon = ['':'']"
| "symbol_texts Semicolon = ['';'']" | "symbol_texts Dollar = [''$'']" | "symbol_texts Pipe = [''|'']"
| "symbol_texts DoublePipe = [''||'']" | "symbol_texts Ampersand = [''&'']" | "symbol_texts Bang = [''!'']"
| "symbol_texts Plus = [''+'']" | "symbol_texts Minus = [''-'']" | "symbol_texts Star = [''*'']"
| "symbol_texts Slash = [''/'']" | "symbol_texts Percent = [''%'']" | "symbol_texts Caret = [''^'']"
| "symbol_texts SymEqual = [''='']" | "symbol_texts NotEqual = [''<>'', ''!='']" | "symbol_texts SymLess = [''<'']"
| "symbol_texts LessOrEqual = [''<='']" | "symbol_texts SymGreater = [''>'']" | "symbol_texts GreaterOrEqual = [''>='']"
| "symbol_texts RegexMatch = [''=~'']" | "symbol_texts ArrowLeft = [''<-'']" | "symbol_texts ArrowRight = [''->'']"
| "symbol_texts SymRange = [''..'']"

text \<open>
  The text \<open>w\<close>, followed by \<open>rest\<close>, spells a token. A name or number ends before the first character that
  cannot continue it, a quoted text at its closing quote, and a symbol is the longest that fits.
\<close>

fun spells :: "char_tables \<Rightarrow> text_str \<Rightarrow> text_str \<Rightarrow> TokenKind \<Rightarrow> bool" where
  "spells t w rest (Identifier s) \<longleftrightarrow>
     w = s \<and> s \<noteq> [] \<and> is_identifier_start t (hd s) \<and> list_all (is_identifier_continue t) s \<and>
       stops (is_identifier_continue t) rest \<or>
     w = quote_name s \<and> stops (\<lambda>c. c = 96) rest"
| "spells t w rest (TString s) \<longleftrightarrow>
     (\<exists>q body. q \<in> {39, 34} \<and> w = q # body @ [q] \<and> string_body q body s \<and> stops (\<lambda>c. c = q) rest)"
| "spells t w rest (TInteger v) \<longleftrightarrow>
     (\<exists>n. v = word_of_nat n \<and> (radix_spells t w rest n \<or> decimal_spells t w rest n))"
| "spells t w rest (TFloat v) \<longleftrightarrow>
     float_text w rest \<and> parse_f64 (filter (\<lambda>c. c \<noteq> 95) w) = Some v \<and> f64_is_finite v"
| "spells t w rest (Parameter s) \<longleftrightarrow>
     w = 36 # s \<and> s \<noteq> [] \<and> list_all (is_identifier_continue t) s \<and> stops (is_identifier_continue t) rest"
| "spells t w rest (TSymbol y) \<longleftrightarrow>
     w \<in> chars ` set (symbol_texts y) \<and> (y = Dollar \<longrightarrow> starts_with rest ''('') \<and>
     (\<forall>z p. p \<in> set (symbol_texts z) \<and> starts_with (w @ rest) p \<longrightarrow> length p \<le> length w)"
| "spells t w rest TEnd \<longleftrightarrow> False"

section \<open>The operations take such texts\<close>

text \<open>An operation takes a text off the front of what remains.\<close>

definition takes :: "Lexer \<Rightarrow> text_str \<Rightarrow> Lexer \<Rightarrow> bool" where
  "takes lx w lx' \<longleftrightarrow> remaining lx = w @ remaining lx'"

lemma takes_none [simp]: "takes lx [] lx"
  by (simp add: takes_def)

lemma takes_append: "takes lx v lx' \<Longrightarrow> takes lx' w lx'' \<Longrightarrow> takes lx (v @ w) lx''"
  by (simp add: takes_def)

lemma takes_bumped: "peek lx = Some c \<Longrightarrow> takes (bumped lx) w lx' \<Longrightarrow> takes lx (c # w) lx'"
  by (auto simp: takes_def peek_Some_iff remaining_bumped)

lemma takes_while:
  "take_while p lx = (s, lx') \<Longrightarrow> takes lx s lx' \<and> list_all p s \<and> stops p (remaining lx')"
proof -
  assume a: "take_while p lx = (s, lx')"
  then have s: "s = takeWhile p (remaining lx)" "remaining lx' = dropWhile p (remaining lx)"
    by (auto simp: take_while_eq remaining_advance dropWhile_eq_drop)
  then have "stops p (remaining lx')"
    by (auto simp: stops_def split: list.split dest: hd_dropWhile [of p "remaining lx", simplified])
      (metis hd_dropWhile list.sel(1) list.distinct(1))
  then show ?thesis
    using s by (auto simp: takes_def list_all_iff dest: set_takeWhileD)
qed

lemma starts_with_append: "starts_with w p \<Longrightarrow> starts_with (w @ r) p"
  by (auto simp: starts_with_def chars_def) (metis length_map length_take min.absorb2 nat_le_linear take_all append_take_drop_id take_append
      diff_is_0_eq' take0 append_Nil2)

lemma takes_two:
  "starts_with (remaining lx) [c, d] \<Longrightarrow> takes (bumped (bumped lx)) w lx' \<Longrightarrow> takes lx (chars [c, d] @ w) lx'"
  by (auto simp: starts_with_two takes_def remaining_bumped chars_def)

lemma block_comment_takes:
  "block_comment pos depth lx = Ok lx' \<Longrightarrow> \<exists>w. takes lx w lx' \<and> comment_tail depth w"
proof (induction pos depth lx rule: block_comment.induct)
  case (1 pos depth lx)
  note def = block_comment.simps [of pos depth lx]
  consider "depth = 0" | "depth \<noteq> 0" "starts_with (remaining lx) ''/*''"
    | "depth \<noteq> 0" "\<not> starts_with (remaining lx) ''/*''" "starts_with (remaining lx) ''*/''"
    | c where "depth \<noteq> 0" "\<not> starts_with (remaining lx) ''/*''" "\<not> starts_with (remaining lx) ''*/''" "peek lx = Some c"
    using "1.prems" def by (cases "peek lx") (auto split: if_splits)
  then show ?case
  proof cases
    case 1
    then show ?thesis using "1.prems" def by (auto intro!: exI [of _ "[]"] closed)
  next
    case 2
    with "1.IH"(1) "1.prems" def obtain w where "takes (bumped (bumped lx)) w lx'" "comment_tail (saturating_inc depth) w" by auto
    with 2 show ?thesis by (blast intro: takes_two nested)
  next
    case 3
    with "1.IH"(2) "1.prems" def obtain w where "takes (bumped (bumped lx)) w lx'" "comment_tail (depth - 1) w" by auto
    with 3 show ?thesis by (blast intro: takes_two unnested)
  next
    case 4
    with "1.IH"(3) "1.prems" def obtain w where w: "takes (bumped lx) w lx'" "comment_tail depth w" by auto
    have t: "takes lx (c # w) lx'" by (rule takes_bumped [OF 4(4) w(1)])
    then have "\<not> starts_with (c # w) ''/*''" "\<not> starts_with (c # w) ''*/''"
      using 4(2,3) starts_with_append unfolding takes_def by metis+
    with t w(2) 4(1) show ?thesis by (blast intro: inside)
  qed
qed

lemma layout_spaces: "list_all is_whitespace v \<Longrightarrow> layout w rest \<Longrightarrow> layout (v @ w) rest"
  by (induction v) (auto intro: space)

lemma skip_layout_takes: "skip_layout lx = Ok lx' \<Longrightarrow> \<exists>w. takes lx w lx' \<and> layout w (remaining lx')"
proof (induction lx rule: skip_layout.induct)
  case (1 lx0)
  obtain v lx where v: "take_while is_whitespace lx0 = (v, lx)" by (cases "take_while is_whitespace lx0")
  then have lx: "lx = skip_while is_whitespace lx0" by simp
  have sp: "takes lx0 v lx" "list_all is_whitespace v" "stops is_whitespace (remaining lx)"
    using takes_while [OF v] by auto
  have "\<exists>w. takes lx w lx' \<and> layout w (remaining lx')"
  proof -
    note def = skip_layout.simps [of lx0, unfolded Let_def, folded lx]
    consider "starts_with (remaining lx) ''//''" | "\<not> starts_with (remaining lx) ''//''" "starts_with (remaining lx) ''/*''"
      | "\<not> starts_with (remaining lx) ''//''" "\<not> starts_with (remaining lx) ''/*''" by blast
    then show ?thesis
    proof cases
      case 1
      obtain body l where b: "take_while (\<lambda>c. c \<noteq> 10) lx = (body, l)" by (cases "take_while (\<lambda>c. c \<noteq> 10) lx")
      with 1 "1.IH"(1) [OF lx 1] "1.prems" def obtain w where w: "takes l w lx'" "layout w (remaining lx')" by auto
      have body: "takes lx body l" "10 \<notin> set body" "stops (\<lambda>c. c \<noteq> 10) (remaining l)"
        using takes_while [OF b] by (auto simp: list_all_iff)
      obtain r where r: "remaining lx = 47 # 47 # r" using 1 by (auto simp: starts_with_two)
      then obtain body' where body': "body = chars ''//'' @ body'"
        using b by (auto simp: take_while_eq chars_def)
      have "layout (chars ''//'' @ body' @ w) (remaining lx')"
        by (rule to_line_end) (use body body' w in \<open>auto simp: takes_def\<close>)
      moreover have "takes lx (body @ w) lx'" by (rule takes_append [OF body(1) w(1)])
      ultimately show ?thesis unfolding body' by auto
    next
      case 2
      then obtain l where l: "block_comment (here lx) 1 (bumped (bumped lx)) = Ok l" "skip_layout l = Ok lx'"
        using "1.prems" def by (auto simp: and_then_eq_Inr_iff)
      obtain body where body: "takes (bumped (bumped lx)) body l" "comment_tail 1 body"
        using block_comment_takes [OF l(1)] by blast
      obtain w where w: "takes l w lx'" "layout w (remaining lx')"
        using "1.IH"(2) [OF lx 2 l(1,2)] by blast
      have "takes lx (chars ''/*'' @ body @ w) lx'"
        by (rule takes_two [OF 2(2) takes_append [OF body(1) w(1)]])
      then show ?thesis using layout.comment [OF body(2) w(2)] by blast
    next
      case 3
      then have "lx' = lx" using "1.prems" def by simp
      with 3 sp(3) show ?thesis by (blast intro: takes_none none)
    qed
  qed
  then show ?case using takes_append [OF sp(1)] layout_spaces [OF sp(2)] by blast
qed

lemma quoted_loop_takes:
  "quoted_loop pos acc lx = Ok (s, lx') \<Longrightarrow> \<exists>name. s = acc @ name \<and>
     takes lx (concat (map (\<lambda>c. if c = 96 then [c, c] else [c]) name) @ [96]) lx' \<and> stops (\<lambda>c. c = 96) (remaining lx')"
proof (induction pos acc lx rule: quoted_loop.induct)
  case (1 pos acc lx)
  note def = quoted_loop.simps [of pos acc lx]
  obtain c where c: "peek lx = Some c" using "1.prems" def by (cases "peek lx") auto
  consider "c = 96" "peek (bumped lx) = Some 96" | "c = 96" "peek (bumped lx) \<noteq> Some 96" | "c \<noteq> 96" by blast
  then show ?case
  proof cases
    case 1
    with "1.IH"(1) [OF c 1] "1.prems" def c obtain name where n: "s = (acc @ [96]) @ name"
      "takes (bumped (bumped lx)) (concat (map (\<lambda>c. if c = 96 then [c, c] else [c]) name) @ [96]) lx'"
      "stops (\<lambda>c. c = 96) (remaining lx')" by auto
    have "takes lx (96 # 96 # concat (map (\<lambda>c. if c = 96 then [c, c] else [c]) name) @ [96]) lx'"
      using takes_bumped [OF c takes_bumped [OF 1(2) n(2)]] 1(1) by simp
    with n show ?thesis by (intro exI [of _ "96 # name"]) simp
  next
    case 2
    then have "lx' = bumped lx" "s = acc" using "1.prems" def c by auto
    moreover have "stops (\<lambda>c. c = 96) (remaining (bumped lx))"
      using 2(2) by (auto simp: stops_def peek_def split: list.split)
    moreover have "takes lx [96] (bumped lx)" using takes_bumped [OF c takes_none] 2(1) by simp
    ultimately show ?thesis by (intro exI [of _ "[]"]) simp
  next
    case 3
    with "1.IH"(2) [OF c 3] "1.prems" def c obtain name where n: "s = (acc @ [c]) @ name"
      "takes (bumped lx) (concat (map (\<lambda>c. if c = 96 then [c, c] else [c]) name) @ [96]) lx'"
      "stops (\<lambda>c. c = 96) (remaining lx')" by auto
    from n 3 takes_bumped [OF c n(2)] show ?thesis by (intro exI [of _ "c # name"]) simp
  qed
qed

lemma escape_digits_takes:
  "escape_digits pos n acc lx = Ok (s, lx') \<Longrightarrow> \<exists>digits. s = acc @ digits \<and> takes lx digits lx' \<and> length digits = n \<and>
     list_all (\<lambda>d. to_digit 16 d \<noteq> None) digits"
proof (induction pos n acc lx rule: escape_digits.induct)
  case (1 pos acc lx)
  then show ?case by simp
next
  case (2 pos n acc lx)
  from "2.prems" obtain c where c: "peek lx = Some c" "to_digit 16 c \<noteq> None" "escape_digits pos n (acc @ [c]) (bumped lx) = Ok (s, lx')"
    by (auto split: option.splits if_splits)
  from "2.IH" [OF c] obtain digits where "s = (acc @ [c]) @ digits" "takes (bumped lx) digits lx'" "length digits = n"
    "list_all (\<lambda>d. to_digit 16 d \<noteq> None) digits" by blast
  with c takes_bumped [OF c(1)] show ?case by (intro exI [of _ "c # digits"]) simp
qed

lemma unicode_escape_takes:
  assumes "unicode_escape n pos lx = Ok (c, lx')"
  obtains digits where "takes lx digits lx'" "length digits = n" "list_all (\<lambda>d. to_digit 16 d \<noteq> None) digits"
    "from_str_radix (2 ^ 32) 16 digits = Some c" "valid_char c"
  using assms escape_digits_takes [of pos n "[]" lx]
  by (fastforce simp: unicode_escape_def and_then_eq_Inr_iff ok_or_def split: if_splits option.splits)

lemma escape_takes:
  assumes "escape pos lx = Ok (c, lx')"
  shows "\<exists>e. takes lx e lx' \<and> escape_spells e c"
proof -
  obtain e where e: "peek lx = Some e" using assms by (auto simp: escape_def split: option.splits)
  consider d where "simple_escape e = Some d" | "simple_escape e = None" "e = 117" | "simple_escape e = None" "e = 85"
    using assms e by (fastforce simp: escape_def split: option.splits if_splits)
  then show ?thesis
  proof cases
    case 1
    then have "takes lx [e] lx'" "d = c" using assms e takes_bumped [OF e takes_none] by (auto simp: escape_def)
    moreover have "escape_spells [e] d"
      using 1 by (auto simp: escape_spells_def simple_escape_def chars_def split: if_splits)
    ultimately show ?thesis by blast
  next
    case 2
    then have "unicode_escape 4 pos (bumped lx) = Ok (c, lx')" using assms e by (simp add: escape_def)
    from unicode_escape_takes [OF this] obtain digits where "takes (bumped lx) digits lx'" "escape_spells (117 # digits) c"
      by (auto simp: escape_spells_def chars_def)
    with takes_bumped [OF e] 2 show ?thesis by blast
  next
    case 3
    then have "unicode_escape 8 pos (bumped lx) = Ok (c, lx')" using assms e by (simp add: escape_def)
    from unicode_escape_takes [OF this] obtain digits where "takes (bumped lx) digits lx'" "escape_spells (85 # digits) c"
      by (auto simp: escape_spells_def chars_def)
    with takes_bumped [OF e] 3 show ?thesis by blast
  qed
qed

lemma string_loop_takes:
  "string_loop q pos acc lx = Ok (s, lx') \<Longrightarrow> \<exists>body s'. s = acc @ s' \<and> string_body q body s' \<and>
     takes lx (body @ [q]) lx' \<and> stops (\<lambda>c. c = q) (remaining lx')"
proof (induction q pos acc lx rule: string_loop.induct)
  case (1 q pos acc lx)
  note def = string_loop.simps [of q pos acc lx]
  obtain c where c: "peek lx = Some c" using "1.prems" def by (cases "peek lx") auto
  consider "c = q" "peek (bumped lx) = Some q" | "c = q" "peek (bumped lx) \<noteq> Some q" | "c \<noteq> q" "c = 92" | "c \<noteq> q" "c \<noteq> 92"
    by blast
  then show ?case
  proof cases
    case 1
    with "1.IH"(1) [OF c 1] "1.prems" def c obtain body s' where n: "s = (acc @ [q]) @ s'" "string_body q body s'"
      "takes (bumped (bumped lx)) (body @ [q]) lx'" "stops (\<lambda>c. c = q) (remaining lx')" by auto
    with takes_bumped [OF c takes_bumped [OF 1(2) n(3)]] 1(1) doubled [OF n(2)] show ?thesis
      by (intro exI [of _ "q # q # body"] exI [of _ "q # s'"]) simp
  next
    case 2
    then have "lx' = bumped lx" "s = acc" using "1.prems" def c by auto
    moreover have "stops (\<lambda>c. c = q) (remaining (bumped lx))"
      using 2(2) by (auto simp: stops_def peek_def split: list.split)
    moreover have "takes lx [q] (bumped lx)" using takes_bumped [OF c takes_none] 2(1) by simp
    ultimately show ?thesis using string_body.empty [of q] by (intro exI [of _ "[]"]) simp
  next
    case 3
    then obtain d l where d: "escape pos (bumped lx) = Ok (d, l)" "string_loop q pos (acc @ [d]) l = Ok (s, lx')"
      using "1.prems" def c by (auto simp: and_then_eq_Inr_iff)
    from "1.IH"(2) [OF c 3 d(1)] d(2) obtain body s' where n: "s = (acc @ [d]) @ s'" "string_body q body s'"
      "takes l (body @ [q]) lx'" "stops (\<lambda>c. c = q) (remaining lx')" by auto
    obtain e where e: "takes (bumped lx) e l" "escape_spells e d" using escape_takes [OF d(1)] by blast
    from takes_bumped [OF c takes_append [OF e(1) n(3)]] 3(2) escaped [OF e(2) n(2)] n show ?thesis
      by (intro exI [of _ "92 # e @ body"] exI [of _ "d # s'"]) simp
  next
    case 4
    with "1.IH"(3) [OF c 4] "1.prems" def c obtain body s' where n: "s = (acc @ [c]) @ s'" "string_body q body s'"
      "takes (bumped lx) (body @ [q]) lx'" "stops (\<lambda>c. c = q) (remaining lx')" by auto
    with takes_bumped [OF c n(3)] plain [OF 4 n(2)] show ?thesis
      by (intro exI [of _ "c # body"] exI [of _ "c # s'"]) simp
  qed
qed

lemma fraction_takes:
  assumes "fraction_part lx = (w, point, lx')" "stops digit_or_underscore (remaining lx)"
  shows "takes lx w lx' \<and> stops digit_or_underscore (remaining lx') \<and> (point \<longleftrightarrow> w \<noteq> []) \<and>
    (w = [] \<and> (starts_with (remaining lx) ''.'' \<longrightarrow> starts_with (remaining lx) ''..'') \<or> (\<exists>d. w = 46 # d \<and> digit_text d))"
proof (cases "peek lx = Some 46 \<and> \<not> starts_with (remaining lx) ''..''")
  case True
  with assms(1) obtain d where d: "take_while digit_or_underscore (bumped lx) = (d, lx')" "w = 46 # d" "point"
    by (auto simp: fraction_part_def split: prod.splits)
  with takes_while [OF d(1)] takes_bumped [of lx 46 d lx'] True show ?thesis by (auto simp: digit_text_def)
next
  case False
  with assms have "w = []" "lx' = lx" "\<not> point" by (auto simp: fraction_part_def split: if_splits)
  with False assms(2) show ?thesis by (auto simp: starts_with_one peek_Some_iff)
qed

lemma exponent_takes:
  assumes "exponent_part lx = (w, scaled, lx')" "stops digit_or_underscore (remaining lx)"
  shows "takes lx w lx' \<and> stops digit_or_underscore (remaining lx') \<and> (scaled \<longleftrightarrow> w \<noteq> []) \<and>
    (w = [] \<and> lx' = lx \<and> stops (\<lambda>c. c \<in> {101, 69}) (remaining lx) \<or>
     (\<exists>e sign d. w = e # sign @ d \<and> e \<in> {101, 69} \<and> sign \<in> {[], [43], [45]} \<and> digit_text d))"
proof (cases "\<exists>c. peek lx = Some c \<and> c \<in> {101, 69}")
  case True
  then obtain c where c: "peek lx = Some c" "c \<in> {101, 69}" by blast
  obtain sign l where sg: "exponent_sign (bumped lx) = (sign, l)" by (cases "exponent_sign (bumped lx)")
  obtain d m where d: "take_while digit_or_underscore l = (d, m)" by (cases "take_while digit_or_underscore l")
  have w: "w = c # sign @ d" "scaled" "lx' = m" using assms(1) c sg d by (auto simp: exponent_part_def)
  have "takes (bumped lx) sign l" "sign \<in> {[], [43], [45]}"
    using sg takes_bumped [OF _ takes_none, of "bumped lx"]
    by (auto simp: exponent_sign_def split: option.splits if_splits)
  with takes_while [OF d] takes_bumped [OF c(1) takes_append] c(2) w show ?thesis by (auto simp: digit_text_def)
next
  case False
  with assms have "w = []" "lx' = lx" "\<not> scaled"
    by (auto simp: exponent_part_def split: option.splits if_splits)
  with False assms(2) show ?thesis by (auto simp: stops_def peek_def split: list.split)
qed

lemma number_text_takes:
  assumes "number_text lx = (w, floating, lx')"
  shows "takes lx w lx'" "floating \<Longrightarrow> float_text w (remaining lx')"
    "\<not> floating \<Longrightarrow> digit_text w \<and> (starts_with (remaining lx') ''.'' \<longrightarrow> starts_with (remaining lx') ''..'')"
proof -
  obtain whole l1 where i: "take_while digit_or_underscore lx = (whole, l1)" by (cases "take_while digit_or_underscore lx")
  obtain fraction point l2 where f: "fraction_part l1 = (fraction, point, l2)" by (cases "fraction_part l1")
  obtain power scaled l3 where e: "exponent_part l2 = (power, scaled, l3)" by (cases "exponent_part l2")
  have w: "w = whole @ fraction @ power" "floating \<longleftrightarrow> point \<or> scaled" "lx' = l3"
    using assms i f e by (auto simp: number_text_def)
  have ii: "takes lx whole l1" "digit_text whole" "stops digit_or_underscore (remaining l1)"
    using takes_while [OF i] by (simp_all add: digit_text_def)
  note ff = fraction_takes [OF f ii(3)]
  then have fr: "takes l1 fraction l2" "stops digit_or_underscore (remaining l2)" "point \<longleftrightarrow> fraction \<noteq> []"
    "fraction = [] \<or> (\<exists>d. fraction = 46 # d \<and> digit_text d)"
    "fraction = [] \<Longrightarrow> starts_with (remaining l1) ''.'' \<longrightarrow> starts_with (remaining l1) ''..''"
    by blast+
  note ee = exponent_takes [OF e fr(2)]
  then have ex: "takes l2 power l3" "stops digit_or_underscore (remaining l3)" "scaled \<longleftrightarrow> power \<noteq> []"
    "power = [] \<or> (\<exists>e sign d. power = e # sign @ d \<and> e \<in> {101, 69} \<and> sign \<in> {[], [43], [45]} \<and> digit_text d)"
    "power = [] \<Longrightarrow> l3 = l2 \<and> stops (\<lambda>c. c \<in> {101, 69}) (remaining l2)"
    by blast+
  show "takes lx w lx'"
    unfolding w(1,3) by (rule takes_append [OF ii(1) takes_append [OF fr(1) ex(1)]])
  show "float_text w (remaining lx')" if "floating"
  proof -
    have "fraction @ power \<noteq> []" using w(2) that fr(3) ex(3) by simp
    moreover have "power = [] \<longrightarrow> stops (\<lambda>c. c \<in> {101, 69}) (remaining l3)" using ex(5) by simp
    ultimately show ?thesis
      unfolding float_text_def w(1,3) using ii(2) fr(4) ex(2,4) by blast
  qed
  show "digit_text w \<and> (starts_with (remaining lx') ''.'' \<longrightarrow> starts_with (remaining lx') ''..'')" if "\<not> floating"
  proof -
    have no: "fraction = []" "power = []" using w(2) that fr(3) ex(3) by simp_all
    then have "remaining lx' = remaining l1" using fr(1) ex(1) w(3) by (simp add: takes_def)
    then show ?thesis using no ii(2) fr(5) w(1) by simp
  qed
qed

lemma token_kinds [simp]: "token_kind (token_at lx k pos) = k" "token_kind (token k pos) = k"
  by (simp_all add: token_at_def token_def split: prod.split)

lemma radix_takes:
  assumes "radix_integer t radix name pos lx = Ok (tok, lx')" "starts_with (remaining lx) prefix"
    "(prefix, radix) \<in> {(''0x'', 16), (''0X'', 16), (''0o'', 8), (''0O'', 8)}"
  shows "\<exists>w. takes lx w lx' \<and> spells t w (remaining lx') (token_kind tok)"
proof -
  obtain digits l where d: "take_while (is_identifier_continue t) (bumped (bumped lx)) = (digits, l)"
    by (cases "take_while (is_identifier_continue t) (bumped (bumped lx))")
  obtain a b where ab: "prefix = [a, b]" using assms(3) by auto
  obtain v where ok: "list_all (\<lambda>d. d = 95 \<or> to_digit radix d \<noteq> None) digits" "l = lx'"
    "from_str_radix (2 ^ 64) radix (filter (\<lambda>c. c \<noteq> 95) digits) = Some v" "token_kind tok = TInteger (word_of_nat v)"
    using assms(1) d
    by (auto simp: radix_integer_def and_then_eq_Inr_iff ok_or_def list_all_iff split: if_splits option.splits) blast
  have "takes lx (chars prefix @ digits) lx'"
    using takes_two [of lx a b digits lx'] takes_while [OF d] assms(2) ab ok(2) by simp
  moreover have "stops (is_identifier_continue t) (remaining lx')" using takes_while [OF d] ok(2) by simp
  then have "radix_spells t (chars prefix @ digits) (remaining lx') v"
    unfolding radix_spells_def using ok(1,3) assms(3) by blast
  ultimately show ?thesis using ok(4) by auto
qed

lemma number_takes:
  assumes "number t pos lx = Ok (tok, lx')" "peek lx = Some c" "starts_number c lx"
  shows "\<exists>w. takes lx w lx' \<and> spells t w (remaining lx') (token_kind tok)"
proof (cases "starts_with (remaining lx) ''0x'' \<or> starts_with (remaining lx) ''0X'' \<or>
    starts_with (remaining lx) ''0o'' \<or> starts_with (remaining lx) ''0O''")
  case True
  then show ?thesis
    using assms(1) radix_takes [of t 16 _ pos lx tok lx' "''0x''"] radix_takes [of t 16 _ pos lx tok lx' "''0X''"]
      radix_takes [of t 8 _ pos lx tok lx' "''0o''"] radix_takes [of t 8 _ pos lx tok lx' "''0O''"]
    by (auto simp: number_def split: if_splits)
next
  case False
  obtain w floating l where n: "number_text lx = (w, floating, l)" by (cases "number_text lx")
  note nt = number_text_takes [OF n]
  show ?thesis
  proof (cases floating)
    case True
    with assms(1) False n nt show ?thesis
      by (auto simp: number_def Let_def and_then_eq_Inr_iff ok_or_def split: if_splits option.splits)
  next
    case fl: False
    with assms(1) False n have d: "decimal_integer t (filter (\<lambda>c. c \<noteq> 95) w) pos l = Ok (tok, lx')"
      by (simp add: number_def)
    then obtain v where v: "from_str_radix (2 ^ 64) 10 (filter (\<lambda>c. c \<noteq> 95) w) = Some v" "token_kind tok = TInteger (word_of_nat v)"
      "l = lx'" "stops (is_identifier_continue t) (remaining lx')"
      by (auto simp: decimal_integer_def and_then_eq_Inr_iff ok_or_def stops_def peek_def split: if_splits option.splits list.splits)
    have "length (remaining lx') < length (remaining lx)" using number_text_consumes [OF assms(2,3) n] v(3) by simp
    then obtain r where r: "w = c # r"
      using nt(1) v(3) assms(2) by (cases w) (auto simp: takes_def peek_Some_iff)
    then have "is_ascii_digit c"
      using nt(3) [OF fl] assms(3) by (auto simp: digit_text_def starts_number_def is_ascii_digit_def)
    with r v nt(1) nt(3) [OF fl] have "decimal_spells t w (remaining lx') v" by (simp add: decimal_spells_def)
    with v nt(1) show ?thesis by auto
  qed
qed

text \<open>The symbols, longest first.\<close>

lemma double_symbol_texts: "(p, y) \<in> set double_symbols \<longleftrightarrow> p \<in> set (symbol_texts y) \<and> length p = 2"
  by (cases y) (auto simp: double_symbols_def)

lemma single_symbol_texts: "(c, y) \<in> set single_symbols \<longleftrightarrow> [c] \<in> set (symbol_texts y) \<and> y \<noteq> Dollar"
  by (cases y) (auto simp: single_symbols_def)

lemma symbol_texts_short: "p \<in> set (symbol_texts y) \<Longrightarrow> length p = 1 \<or> length p = 2"
  by (cases y) auto

lemma find_member: "find P xs = Some x \<Longrightarrow> x \<in> set xs \<and> P x"
  by (induction xs) (auto split: if_splits)

lemma symbol_takes:
  assumes "lex_symbol pos lx = Ok (tok, lx')"
  shows "\<exists>w. takes lx w lx' \<and> spells t w (remaining lx') (token_kind tok)"
proof -
  obtain y n where y: "symbol_of (remaining lx) = Some (y, n)" "token_kind tok = TSymbol y" "lx' = advance n lx"
    using assms by (auto simp: lex_symbol_def Let_def split: option.splits prod.splits if_splits)
  have rest: "takes lx (take n (remaining lx)) lx'" by (simp add: takes_def y(3) remaining_advance)
  have "\<exists>p. p \<in> set (symbol_texts y) \<and> length p = n \<and> starts_with (remaining lx) p \<and> y \<noteq> Dollar \<and>
      (\<forall>z q. q \<in> set (symbol_texts z) \<and> starts_with (remaining lx) q \<longrightarrow> length q \<le> n)"
  proof (cases "find (\<lambda>(p, _). starts_with (remaining lx) p) double_symbols")
    case (Some py)
    obtain p z where py: "py = (p, z)" by (cases py)
    have "(p, y) \<in> set double_symbols" "starts_with (remaining lx) p" "n = 2"
      using find_member [OF Some] y(1) Some py by (auto simp: symbol_of_def)
    moreover from this have "p \<in> set (symbol_texts y)" "length p = 2"
      using double_symbol_texts [of p y] by auto
    moreover from this have "y \<noteq> Dollar" by auto
    moreover have "length q \<le> 2" if "q \<in> set (symbol_texts z)" for q z using symbol_texts_short [OF that] by auto
    ultimately show ?thesis by blast
  next
    case None
    then have no: "\<not> starts_with (remaining lx) p" if "(p, z) \<in> set double_symbols" for p z
      using that by (auto simp: find_None_iff)
    obtain c where "find (\<lambda>(c, _). starts_with (remaining lx) [c]) single_symbols = Some (c, y)" "n = 1"
      using y(1) None by (auto simp: symbol_of_def split: option.splits)
    then have "(c, y) \<in> set single_symbols" "starts_with (remaining lx) [c]" "n = 1"
      using find_member by fastforce+
    moreover from this have "[c] \<in> set (symbol_texts y)" "length [c] = n" "y \<noteq> Dollar"
      using single_symbol_texts [of c y] by auto
    moreover have "length q \<le> 1" if "q \<in> set (symbol_texts z)" "starts_with (remaining lx) q" for q z
      using symbol_texts_short [OF that(1)] no [of q z] double_symbol_texts [of q z] that by auto
    ultimately show ?thesis by blast
  qed
  then obtain p where p: "p \<in> set (symbol_texts y)" "length p = n" "starts_with (remaining lx) p" "y \<noteq> Dollar"
    "\<forall>z q. q \<in> set (symbol_texts z) \<and> starts_with (remaining lx) q \<longrightarrow> length q \<le> n" by blast
  then have w: "take n (remaining lx) = chars p" "length (chars p) = n" by (simp_all add: starts_with_def chars_def)
  have "spells t (chars p) (remaining lx') (TSymbol y)"
    using p w rest by (simp add: takes_def)
  with rest w y(2) show ?thesis by auto
qed

lemma dollar_text: "p \<in> set (symbol_texts z) \<Longrightarrow> starts_with (36 # r) p \<Longrightarrow> length p \<le> 1"
  by (cases z) (auto simp: starts_with_def chars_def)

lemma parameter_takes:
  assumes "parameter t pos lx = Ok (tok, lx')" "peek lx = Some 36"
  shows "\<exists>w. takes lx w lx' \<and> spells t w (remaining lx') (token_kind tok)"
proof (cases "starts_with (remaining lx) ''$(''")
  case True
  then obtain r where r: "remaining lx = 36 # 40 # r" by (auto simp: starts_with_two)
  have l: "lx' = bumped lx" "token_kind tok = TSymbol Dollar" using True assms(1) by (auto simp: parameter_def)
  then have "spells t [36] (remaining lx') (TSymbol Dollar)"
    using r dollar_text by (auto simp: remaining_bumped starts_with_one chars_def)
  moreover have "takes lx [36] lx'" using takes_bumped [OF assms(2) takes_none] l by simp
  ultimately show ?thesis unfolding l(2) by blast
next
  case False
  obtain name l where n: "take_while (is_identifier_continue t) (bumped lx) = (name, l)"
    by (cases "take_while (is_identifier_continue t) (bumped lx)")
  with False assms(1) have "name \<noteq> []" "lx' = l" "token_kind tok = Parameter name"
    by (auto simp: parameter_def take_identifier_def split: if_splits)
  with takes_while [OF n] takes_bumped [OF assms(2)] show ?thesis by (intro exI [of _ "36 # name"]) simp
qed

lemma character_takes:
  assumes "lex_character t c pos lx = Ok (tok, lx')" "peek lx = Some c"
  shows "\<exists>w. takes lx w lx' \<and> spells t w (remaining lx') (token_kind tok)"
proof -
  consider "c = 96" "quoted_identifier pos lx = Ok (tok, lx')" | "c \<in> {39, 34}" "lex_string c pos lx = Ok (tok, lx')"
    | "c = 36" "parameter t pos lx = Ok (tok, lx')" | "starts_number c lx" "number t pos lx = Ok (tok, lx')"
    | "lex_symbol pos lx = Ok (tok, lx')"
    | name where "is_identifier_start t c" "take_while (is_identifier_continue t) lx = (name, lx')" "token_kind tok = Identifier name"
    using assms(1) by (auto simp: lex_character_def take_identifier_def split: if_splits prod.splits)
  then show ?thesis
  proof cases
    case 1
    then obtain s where s: "quoted_loop pos [] (bumped lx) = Ok (s, lx')" "token_kind tok = Identifier s"
      by (auto simp: quoted_identifier_def and_then_eq_Inr_iff)
    with quoted_loop_takes [OF s(1)] takes_bumped [OF assms(2)] 1(1) show ?thesis
      by (intro exI [of _ "quote_name s"]) (auto simp: quote_name_def)
  next
    case 2
    then obtain s where s: "string_loop c pos [] (bumped lx) = Ok (s, lx')" "token_kind tok = TString s"
      by (auto simp: lex_string_def and_then_eq_Inr_iff)
    from string_loop_takes [OF s(1)] obtain body where "string_body c body s" "takes (bumped lx) (body @ [c]) lx'"
      "stops (\<lambda>d. d = c) (remaining lx')" by auto
    with takes_bumped [OF assms(2)] 2(1) s(2) show ?thesis
      by (intro exI [of _ "c # body @ [c]"]) auto
  next
    case 6
    have w: "takes lx name lx'" "list_all (is_identifier_continue t) name" "stops (is_identifier_continue t) (remaining lx')"
      using takes_while [OF 6(2)] by auto
    have "is_identifier_continue t c"
      using 6(1) by (auto simp: is_identifier_start_def is_identifier_continue_def is_alphanumeric_def)
    then obtain r where "name = c # r"
      using 6(2) assms(2) by (auto simp: take_while_eq peek_Some_iff)
    with w 6 show ?thesis by (intro exI [of _ name]) simp
  qed (use assms parameter_takes number_takes symbol_takes in auto)
qed

end
