(* ===== verification/Lexer_Laws.thy ===== *)
theory Lexer_Laws
  imports Lexer_Grammar
begin

text \<open>
  Laws of the tokenizer: the byte offset never leaves the character boundaries of the source, the
  source is layout and the spellings of the tokens in turn, each span stands at its spelling with the
  line and column where it starts, and a quoted name or string is read back as one token with the
  original text.
\<close>

section \<open>Positions\<close>

text \<open>Line and column after a text, counted from one and kept at the greatest \<open>u32\<close>.\<close>

definition clamp_u32 :: "nat \<Rightarrow> u32" where
  "clamp_u32 n = word_of_nat (min n 0xFFFFFFFF)"

definition text_position :: "text_str \<Rightarrow> u32 \<times> u32" where
  "text_position s =
     (clamp_u32 (1 + count_list s 10), clamp_u32 (1 + length (takeWhile (\<lambda>c. c \<noteq> 10) (rev s))))"

lemma saturating_inc_clamp: "saturating_inc (clamp_u32 n) = clamp_u32 (Suc n)"
proof -
  have "(word_of_nat n :: u32) = 0xFFFFFFFF \<longleftrightarrow> n = 0xFFFFFFFF" if "n \<le> 0xFFFFFFFF"
  proof -
    have "unat (word_of_nat n :: u32) = n"
      using that by (simp add: unat_of_nat)
    then show ?thesis by (auto dest: arg_cong [of _ _ unat])
  qed
  then show ?thesis
    by (cases "n < 0xFFFFFFFF") (auto simp: saturating_inc_def clamp_u32_def min_def)
qed

lemma text_position_snoc:
  "text_position (s @ [c]) =
     (if c = 10 then (saturating_inc (fst (text_position s)), 1)
      else (fst (text_position s), saturating_inc (snd (text_position s))))"
  by (simp add: text_position_def saturating_inc_clamp) (simp add: clamp_u32_def)

text \<open>The lexer stands before the \<open>i\<close>-th character of its source.\<close>

definition stands_at :: "Lexer \<Rightarrow> nat \<Rightarrow> bool" where
  "stands_at lx i \<longleftrightarrow> i \<le> length (source lx) \<and> offset lx = utf8_len (take i (source lx)) \<and>
     (line lx, column lx) = text_position (take i (source lx))"

lemma slice_from_take: "slice_from s (utf8_len (take i s)) = Some (drop i s)"
proof (induction s arbitrary: i)
  case (Cons c s)
  then show ?case by (cases i) simp_all
qed simp

lemma stands_at_slice: "stands_at lx i \<Longrightarrow> slice_from (source lx) (offset lx) = Some (drop i (source lx))"
  by (simp add: stands_at_def slice_from_take)

lemma stands_at_remaining: "stands_at lx i \<Longrightarrow> remaining lx = drop i (source lx)"
  by (simp add: remaining_def stands_at_slice)

lemma stands_at_new: "stands_at (lexer_new s) 0"
  by (simp add: stands_at_def lexer_new_def text_position_def clamp_u32_def)

lemma source_bumped [simp]: "source (bumped lx) = source lx"
  by (simp add: bump_def split: option.split)

lemma source_advance [simp]: "source (advance n lx) = source lx"
  by (induction n arbitrary: lx) (simp_all add: advance_Suc)

lemma ended_bumped [simp]: "ended (bumped lx) = ended lx"
  by (simp add: bump_def split: option.split)

lemma ended_advance [simp]: "ended (advance n lx) = ended lx"
  by (induction n arbitrary: lx) (simp_all add: advance_Suc)

lemma stands_at_bumped:
  assumes "stands_at lx i"
  shows "stands_at (bumped lx) (min (Suc i) (length (source lx)))"
proof (cases "i < length (source lx)")
  case True
  then have "remaining lx = (source lx ! i) # drop (Suc i) (source lx)"
    using stands_at_remaining [OF assms] by (simp add: Cons_nth_drop_Suc)
  then have p: "peek lx = Some (source lx ! i)"
    by (simp add: peek_def)
  have pos: "line lx = fst (text_position (take i (source lx)))" "column lx = snd (text_position (take i (source lx)))"
    using assms by (simp_all add: stands_at_def flip: prod.collapse) (metis fst_conv snd_conv)+
  show ?thesis
    using True assms p pos
    by (simp add: stands_at_def bump_def take_Suc_conv_app_nth text_position_snoc min_def)
next
  case False
  then have i: "i = length (source lx)" using assms by (simp add: stands_at_def)
  then have "peek lx = None"
    using stands_at_remaining [OF assms] by (simp add: peek_def)
  then show ?thesis using assms i by (simp add: bump_def)
qed

lemma stands_at_advance:
  "stands_at lx i \<Longrightarrow> stands_at (advance n lx) (min (i + n) (length (source lx)))"
proof (induction n arbitrary: lx i)
  case 0
  then show ?case by (simp add: stands_at_def)
next
  case (Suc n)
  from Suc.IH [OF stands_at_bumped [OF Suc.prems]] Suc.prems show ?case
    by (simp add: advance_Suc min_def split: if_splits)
qed

lemma advances_stands_at:
  assumes "stands_at lx i" "advances lx lx'"
  obtains j where "i \<le> j" "stands_at lx' j" "source lx' = source lx" "ended lx' = ended lx"
proof -
  obtain n where n: "lx' = advance n lx" using assms(2) by (auto simp: advances_def)
  have "i \<le> min (i + n) (length (source lx))" using assms(1) by (simp add: stands_at_def)
  then show ?thesis
    using stands_at_advance [OF assms(1), of n] n
    by (intro that [of "min (i + n) (length (source lx))"]) simp_all
qed

lemma stands_at_length: "stands_at lx i \<Longrightarrow> length (remaining lx) = length (source lx) - i"
  by (simp add: stands_at_remaining)

section \<open>Spans\<close>

definition span_covers :: "text_str \<Rightarrow> Span \<Rightarrow> nat \<Rightarrow> nat \<Rightarrow> bool" where
  "span_covers s sp i j \<longleftrightarrow> i \<le> j \<and> j \<le> length s \<and>
     span_start sp = utf8_len (take i s) \<and> span_end sp = utf8_len (take j s) \<and>
     (span_line sp, span_column sp) = text_position (take i s)"

definition between :: "text_str \<Rightarrow> nat \<Rightarrow> nat \<Rightarrow> text_str" where
  "between s i j = take (j - i) (drop i s)"

text \<open>
  From character \<open>k\<close> on the source is read as these tokens: layout up to the first character of a
  token, the characters that spell it, which its span covers, and so on from the character after
  them; after the last one layout up to the end, where the single end token stands.
\<close>

fun tokens_cover :: "char_tables \<Rightarrow> text_str \<Rightarrow> nat \<Rightarrow> Token list \<Rightarrow> bool" where
  "tokens_cover t s k [] \<longleftrightarrow> False"
| "tokens_cover t s k (tok # ts) \<longleftrightarrow>
     (if token_kind tok = TEnd
      then ts = [] \<and> layout (drop k s) [] \<and> span_covers s (token_span tok) (length s) (length s)
      else \<exists>i j. k \<le> i \<and> i < j \<and> layout (between s k i) (drop i s) \<and>
        spells t (between s i j) (drop j s) (token_kind tok) \<and> span_covers s (token_span tok) i j \<and>
        tokens_cover t s j ts)"

lemma takes_between:
  assumes "stands_at lx i" "stands_at lx' j" "source lx' = source lx" "i \<le> j" "takes lx w lx'"
  shows "w = between (source lx) i j"
proof -
  have d: "drop i (source lx) = w @ drop j (source lx)" "j \<le> length (source lx)"
    using assms stands_at_remaining [OF assms(1)] stands_at_remaining [OF assms(2)] by (simp_all add: takes_def stands_at_def)
  have "length (source lx) - i = length w + (length (source lx) - j)" using arg_cong [OF d(1), of length] by simp
  then have "length w = j - i" using d(2) assms(4) by linarith
  then show ?thesis by (simp add: between_def d(1))
qed

lemma token_at_covers:
  assumes "stands_at lx i" "stands_at lx' j" "source lx' = source lx" "i \<le> j"
  shows "span_covers (source lx) (token_span (token_at lx' k (here lx))) i j"
proof -
  have "text_position (take i (source lx)) = (line lx, column lx)" "offset lx = utf8_len (take i (source lx))"
    "offset lx' = utf8_len (take j (source lx))" "j \<le> length (source lx)"
    using assms by (simp_all add: stands_at_def)
  then show ?thesis
    using assms(4) by (simp add: span_covers_def token_at_def here_def)
qed

lemma token_covers:
  assumes "stands_at lx i"
  shows "span_covers (source lx) (token_span (token k (here lx))) i i"
  using token_at_covers [OF assms assms refl order_refl] by (simp add: token_at_def token_def here_def)

lemma next_token_covers:
  assumes "stands_at lx k" "\<not> ended lx" "next_token t lx = Ok (tok, lx')" "token_kind tok \<noteq> TEnd"
  obtains i j where "k \<le> i" "i < j" "layout (between (source lx) k i) (drop i (source lx))"
    "spells t (between (source lx) i j) (drop j (source lx)) (token_kind tok)"
    "span_covers (source lx) (token_span tok) i j" "stands_at lx' j" "source lx' = source lx" "\<not> ended lx'"
proof -
  obtain lx0 c where n: "skip_layout lx = Ok lx0" "peek lx0 = Some c" "lex_character t c (here lx0) lx0 = Ok (tok, lx')"
    using next_token_scans [OF assms(3,4)] .
  obtain i where i: "k \<le> i" "stands_at lx0 i" "source lx0 = source lx" "ended lx0 = ended lx"
    using advances_stands_at [OF assms(1) skip_layout_advances [OF n(1)]] .
  have sc: "advances lx0 lx'" "length (remaining lx') < length (remaining lx0)"
      "\<exists>k. tok = token_at lx' k (here lx0)"
    using scans_character [OF n(2), of "here lx0" t] n(3) by (auto simp: scans_def)
  obtain j where j: "i \<le> j" "stands_at lx' j" "source lx' = source lx0" "ended lx' = ended lx0"
    using advances_stands_at [OF i(2) sc(1)] .
  have "i < j"
    using sc(2) j(1,3) by (simp add: stands_at_length [OF i(2)] stands_at_length [OF j(2)])
  moreover have "span_covers (source lx) (token_span tok) i j"
    using sc(3) token_at_covers [OF i(2) j(2,3,1)] i(3) by auto
  moreover have "layout (between (source lx) k i) (drop i (source lx))"
    using skip_layout_takes [OF n(1)] takes_between [OF assms(1) i(2,3,1)] stands_at_remaining [OF i(2)] i(3) by auto
  moreover have "spells t (between (source lx) i j) (drop j (source lx)) (token_kind tok)"
    using character_takes [OF n(3,2)] takes_between [OF i(2) j(2,3,1)] stands_at_remaining [OF j(2)] i(3) j(3) by auto
  ultimately show ?thesis
    using that i j assms(2) by simp
qed

lemma next_token_end:
  assumes "stands_at lx k" "\<not> ended lx" "next_token t lx = Ok (tok, lx')" "token_kind tok = TEnd"
  shows "layout (drop k (source lx)) [] \<and> span_covers (source lx) (token_span tok) (length (source lx)) (length (source lx))"
proof -
  obtain lx0 where n: "skip_layout lx = Ok lx0"
    and r: "(case peek lx0 of None \<Rightarrow> Ok (token TEnd (here lx0), lx0\<lparr>ended := True\<rparr>)
          | Some c \<Rightarrow> lex_character t c (here lx0) lx0) = Ok (tok, lx')"
    using assms(2,3) by (auto simp: next_token_def and_then_eq_Inr_iff)
  obtain i where i: "stands_at lx0 i" "source lx0 = source lx"
    using advances_stands_at [OF assms(1) skip_layout_advances [OF n]] by metis
  have e: "peek lx0 = None"
  proof (rule ccontr)
    assume "peek lx0 \<noteq> None"
    then obtain c where c: "peek lx0 = Some c" by auto
    then have "lex_character t c (here lx0) lx0 = Ok (tok, lx')"
      using r by simp
    then show False
      using scans_character [OF c, of "here lx0" t] assms(4) by (auto simp: scans_def token_at_def here_def)
  qed
  then have "i = length (source lx)"
    using i stands_at_remaining [OF i(1)] by (simp add: peek_None_iff stands_at_def)
  moreover have "layout (drop k (source lx)) []"
    using skip_layout_takes [OF n] e stands_at_remaining [OF assms(1)] by (auto simp: takes_def peek_None_iff)
  ultimately show ?thesis
    using i r e token_covers [OF i(1)] by auto
qed

lemma collect_covers:
  assumes "stands_at lx k" "\<not> ended lx" "collect_tokens t acc lx = Ok ts"
  shows "\<exists>new. ts = acc @ new \<and> tokens_cover t (source lx) k new"
  using assms
proof (induction t acc lx arbitrary: k rule: collect_tokens.induct)
  case (1 t acc lx)
  obtain p where p: "next_token t lx = Ok p"
    "(if token_kind (fst p) = TEnd then Ok (acc @ [fst p]) else collect_tokens t (acc @ [fst p]) (snd p)) = Ok ts"
    using "1.prems"(3) unfolding collect_tokens.simps [of t acc lx] and_then_eq_Inr_iff by blast
  obtain tok lx' where t: "p = (tok, lx')" by (cases p)
  note n = p(1) [unfolded t] and r = p(2) [unfolded t fst_conv snd_conv]
  show ?case
  proof (cases "token_kind tok = TEnd")
    case True
    then show ?thesis
      using r next_token_end [OF "1.prems"(1,2) n True] by auto
  next
    case False
    obtain i j where c: "k \<le> i" "i < j" "layout (between (source lx) k i) (drop i (source lx))"
        "spells t (between (source lx) i j) (drop j (source lx)) (token_kind tok)"
        "span_covers (source lx) (token_span tok) i j" "stands_at lx' j" "source lx' = source lx" "\<not> ended lx'"
      using next_token_covers [OF "1.prems"(1,2) n False] .
    have "collect_tokens t (acc @ [tok]) lx' = Ok ts" using r False by simp
    then obtain new where "ts = (acc @ [tok]) @ new" "tokens_cover t (source lx) j new"
      using "1.IH" [OF n, of j] False c by auto
    then show ?thesis
      using False c by (intro exI [of _ "tok # new"]) auto
  qed
qed

text \<open>
  C34. The tokens of a source stand in it. The source is white space and comments, the characters of the
  first token, again white space and comments, and so on to the end token after the last character:
  each token's characters are its spelling and nothing else, and what separates tokens is all the
  layout there is. Each span has the byte offsets of its token's characters and the line and column of
  the first of them. The slices at the lexer's offsets never cut a character, so none of them panics.
\<close>

theorem lex_spans:
  shows "(lex t s = Ok ts \<longrightarrow> tokens_cover t s 0 ts) \<and>
    (advances (lexer_new s) lx \<longrightarrow> slice_from s (offset lx) = Some (remaining lx))"
proof (intro conjI impI)
  have src: "source (lexer_new s) = s" "\<not> ended (lexer_new s)"
    by (simp_all add: lexer_new_def)
  show "tokens_cover t s 0 ts" if "lex t s = Ok ts"
    using collect_covers [OF stands_at_new [of s] src(2) that [unfolded lex_def]] src(1) by auto
  show "slice_from s (offset lx) = Some (remaining lx)" if a: "advances (lexer_new s) lx"
  proof -
    obtain j where "stands_at lx j" "source lx = s"
      using advances_stands_at [OF stands_at_new a] src(1) by metis
    then show ?thesis using stands_at_slice stands_at_remaining by metis
  qed
qed

definition ascii_tables :: char_tables where
  "ascii_tables = \<lparr>alphabetic_table = (\<lambda>_. False), numeric_table = (\<lambda>_. False)\<rparr>"

theorem lex_spans_witness:
  "(\<exists>ts. lex ascii_tables [10, 97, 46] = Ok ts \<and> tokens_cover ascii_tables [10, 97, 46] 0 ts) \<and>
   slice_from [10, 97, 46] (offset (bumped (lexer_new [10, 97, 46]))) = Some [97, 46]"
proof -
  obtain ts where ts: "lex ascii_tables [10, 97, 46] = Ok ts"
    "map token_kind ts = [Identifier [97], TSymbol Dot, TEnd]"
  proof
    show "lex ascii_tables [10, 97, 46] = Ok
      [\<lparr>token_kind = Identifier [97], token_span = \<lparr>span_start = 1, span_end = 2, span_line = 2, span_column = 1\<rparr>\<rparr>,
       \<lparr>token_kind = TSymbol Dot, token_span = \<lparr>span_start = 2, span_end = 3, span_line = 2, span_column = 2\<rparr>\<rparr>,
       \<lparr>token_kind = TEnd, token_span = \<lparr>span_start = 3, span_end = 3, span_line = 2, span_column = 3\<rparr>\<rparr>]"
      by code_simp
  qed simp
  have "remaining (bumped (lexer_new [10, 97, 46])) = [97, 46]"
    by code_simp
  then show ?thesis
    using lex_spans [of ascii_tables "[10, 97, 46]" ts "bumped (lexer_new [10, 97, 46])"] ts(1) by auto
qed

section \<open>Quoting\<close>

lemma peek_Cons: "remaining lx = c # r \<Longrightarrow> peek lx = Some c"
  by (simp add: peek_def)

lemma quoted_loop_reads:
  assumes "remaining lx = concat (map (\<lambda>c. if c = 96 then [c, c] else [c]) s) @ 96 # rest" "take 1 rest \<noteq> [96]"
  shows "\<exists>lx'. quoted_loop pos acc lx = Ok (acc @ s, lx') \<and> remaining lx' = rest"
  using assms(1)
proof (induction s arbitrary: acc lx)
  case Nil
  then have "peek lx = Some 96" "peek (bumped lx) \<noteq> Some 96" "remaining (bumped lx) = rest"
    using assms(2) by (auto simp: peek_def remaining_bumped split: list.splits)
  then show ?case by (subst quoted_loop.simps) simp
next
  case (Cons c s)
  show ?case
  proof (cases "c = 96")
    case True
    then have "peek lx = Some 96" "peek (bumped lx) = Some 96"
      using Cons.prems by (simp_all add: peek_def remaining_bumped)
    then show ?thesis
      using Cons.IH [of "bumped (bumped lx)" "acc @ [96]"] Cons.prems True
      by (subst quoted_loop.simps) (simp add: remaining_bumped)
  next
    case False
    then have "peek lx = Some c"
      using Cons.prems by (simp add: peek_def)
    then show ?thesis
      using Cons.IH [of "bumped lx" "acc @ [c]"] Cons.prems False
      by (subst quoted_loop.simps) (simp add: remaining_bumped)
  qed
qed

lemma string_loop_reads:
  assumes "remaining lx = concat (map (\<lambda>c. if c = q \<or> c = 92 then [c, c] else [c]) s) @ q # rest"
    and q: "q \<noteq> 92" "take 1 rest \<noteq> [q]"
  shows "\<exists>lx'. string_loop q pos acc lx = Ok (acc @ s, lx') \<and> remaining lx' = rest"
  using assms(1)
proof (induction s arbitrary: acc lx)
  case Nil
  then have "peek lx = Some q" "peek (bumped lx) \<noteq> Some q" "remaining (bumped lx) = rest"
    using q by (auto simp: peek_def remaining_bumped split: list.splits)
  then show ?case by (subst string_loop.simps) simp
next
  case (Cons c s)
  consider "c = q" | "c = 92" "c \<noteq> q" | "c \<noteq> q" "c \<noteq> 92" by blast
  then show ?case
  proof cases
    case 1
    then have "peek lx = Some q" "peek (bumped lx) = Some q"
      using Cons.prems by (simp_all add: peek_def remaining_bumped)
    then show ?thesis
      using Cons.IH [of "bumped (bumped lx)" "acc @ [q]"] Cons.prems 1
      by (subst string_loop.simps) (simp add: remaining_bumped)
  next
    case 2
    then have p: "peek lx = Some 92" "peek (bumped lx) = Some 92"
      using Cons.prems by (simp_all add: peek_def remaining_bumped)
    then have "escape pos (bumped lx) = Ok (92, bumped (bumped lx))"
      by (simp add: escape_def simple_escape_def)
    then show ?thesis
      using Cons.IH [of "bumped (bumped lx)" "acc @ [92]"] Cons.prems 2 p q
      by (subst string_loop.simps) (simp add: remaining_bumped)
  next
    case 3
    then have "peek lx = Some c"
      using Cons.prems by (simp add: peek_def)
    then show ?thesis
      using Cons.IH [of "bumped lx" "acc @ [c]"] Cons.prems 3
      by (subst string_loop.simps) (simp add: remaining_bumped)
  qed
qed

lemma skip_layout_none:
  assumes "peek lx = Some c" "\<not> is_whitespace c" "c \<noteq> 47"
  shows "skip_layout lx = Ok lx"
proof -
  obtain r where r: "remaining lx = c # r" using assms(1) by (auto simp: peek_Some_iff)
  have "skip_while is_whitespace lx = lx"
    using r assms(2) by (simp add: take_while_eq)
  then show ?thesis
    using r assms(3) by (subst skip_layout.simps) (simp add: starts_with_two)
qed

lemma next_token_direct:
  assumes "remaining lx = c # r" "\<not> ended lx" "\<not> is_whitespace c" "c \<noteq> 47"
  shows "next_token t lx = lex_character t c (here lx) lx"
  using assms skip_layout_none [OF peek_Cons [OF assms(1)]] by (simp add: next_token_def peek_Cons)

lemma remaining_new [simp]: "remaining (lexer_new s) = s" "\<not> ended (lexer_new s)"
  by (simp_all add: remaining_def lexer_new_def)

text \<open>
  C35. Quoting is safe: whatever characters a text has, quotes, backslashes and comment marks included,
  its quoted form at the start of a source is read as one token that holds exactly the text, and the
  lexer continues right after the closing quote.
\<close>

theorem quoting_is_safe:
  assumes "q = 39 \<or> q = 34" "take 1 rest \<noteq> [q]" "take 1 rest' \<noteq> [96]"
  shows "(\<exists>tok lx. next_token t (lexer_new (quote_string q s @ rest)) = Ok (tok, lx) \<and>
      token_kind tok = TString s \<and> remaining lx = rest) \<and>
    (\<exists>tok lx. next_token t (lexer_new (quote_name s @ rest')) = Ok (tok, lx) \<and>
      token_kind tok = Identifier s \<and> remaining lx = rest')"
proof
  let ?lx = "lexer_new (quote_string q s @ rest)"
  have "next_token t ?lx = lex_string q (here ?lx) ?lx"
    using assms(1)
    by (subst next_token_direct) (auto simp: quote_string_def is_whitespace_def lex_character_def)
  moreover have "remaining (bumped ?lx) = concat (map (\<lambda>c. if c = q \<or> c = 92 then [c, c] else [c]) s) @ q # rest"
    by (simp add: remaining_bumped quote_string_def)
  from string_loop_reads [OF this _ assms(2), of "here ?lx" "[]"] assms(1)
  obtain lx' where "string_loop q (here ?lx) [] (bumped ?lx) = Ok (s, lx')" "remaining lx' = rest" by auto
  ultimately show "\<exists>tok lx. next_token t ?lx = Ok (tok, lx) \<and> token_kind tok = TString s \<and> remaining lx = rest"
    by (auto simp: lex_string_def token_at_def here_def)
next
  let ?lx = "lexer_new (quote_name s @ rest')"
  have "next_token t ?lx = quoted_identifier (here ?lx) ?lx"
    by (subst next_token_direct) (auto simp: quote_name_def is_whitespace_def lex_character_def)
  moreover have "remaining (bumped ?lx) = concat (map (\<lambda>c. if c = 96 then [c, c] else [c]) s) @ 96 # rest'"
    by (simp add: remaining_bumped quote_name_def)
  from quoted_loop_reads [OF this assms(3), of "here ?lx" "[]"]
  obtain lx' where "quoted_loop (here ?lx) [] (bumped ?lx) = Ok (s, lx')" "remaining lx' = rest'" by auto
  ultimately show "\<exists>tok lx. next_token t ?lx = Ok (tok, lx) \<and> token_kind tok = Identifier s \<and> remaining lx = rest'"
    by (auto simp: quoted_identifier_def token_at_def here_def)
qed

theorem quoting_is_safe_witness:
  "\<exists>tok lx. next_token ascii_tables (lexer_new ([39, 39, 39, 92, 92, 39] @ [41])) = Ok (tok, lx) \<and>
     token_kind tok = TString [39, 92] \<and> remaining lx = [41]"
proof -
  have "quote_string 39 [39, 92] = [39, 39, 39, 92, 92, 39]"
    by (simp add: quote_string_def)
  then show ?thesis
    using quoting_is_safe [of 39 "[41]" "[]" ascii_tables "[39, 92]"] by simp
qed

end
