(* ===== verification/Lexer_Text.thy ===== *)
theory Lexer_Text
  imports Lexer_Laws
begin

text \<open>
  The texts that tokens carry. A \<open>String\<close> of a token holds scalar values and is no longer than the source it was read from, since
  every escape is longer than the character it names.
\<close>

fun token_text :: "TokenKind \<Rightarrow> text_str" where
  "token_text (Identifier s) = s"
| "token_text (TString s) = s"
| "token_text (Parameter s) = s"
| "token_text _ = []"

definition text_within :: "text_str \<Rightarrow> Lexer \<Rightarrow> text_str \<times> Lexer \<Rightarrow> bool" where
  "text_within acc lx r \<longleftrightarrow>
     list_all valid_char (fst r) \<and>
     utf8_len (fst r) + utf8_len (remaining (snd r)) \<le> utf8_len acc + utf8_len (remaining lx)"

lemma utf8_len_bumped:
  "peek lx = Some c \<Longrightarrow> utf8_len (remaining lx) = len_utf8 c + utf8_len (remaining (bumped lx))"
  by (auto simp: peek_Some_iff remaining_bumped)

lemma valid_bumped:
  "list_all valid_char (remaining lx) \<Longrightarrow> list_all valid_char (remaining (bumped lx))"
  by (cases "remaining lx") (simp_all add: remaining_bumped)

lemma valid_peek: "list_all valid_char (remaining lx) \<Longrightarrow> peek lx = Some c \<Longrightarrow> valid_char c"
  by (auto simp: peek_Some_iff)

lemma valid_advances:
  "advances lx lx' \<Longrightarrow> list_all valid_char (remaining lx) \<Longrightarrow> list_all valid_char (remaining lx')"
  by (fastforce simp: advances_def remaining_advance list_all_iff dest: in_set_dropD)

lemma utf8_len_advances: "advances lx lx' \<Longrightarrow> utf8_len (remaining lx') \<le> utf8_len (remaining lx)"
  by (auto simp: advances_def remaining_advance) (metis append_take_drop_id le_add2 utf8_len_simps(3))

lemma quoted_loop_text:
  assumes "quoted_loop pos acc lx = Ok r" "list_all valid_char (remaining lx)" "list_all valid_char acc"
  shows "text_within acc lx r"
  using assms
proof (induction pos acc lx rule: quoted_loop.induct)
  case (1 pos acc lx)
  obtain c where c: "peek lx = Some c"
    using "1.prems"(1) by (subst (asm) quoted_loop.simps) (auto split: option.splits)
  have v: "valid_char c" "list_all valid_char (remaining (bumped lx))" "list_all valid_char (remaining (bumped (bumped lx)))"
    using valid_peek [OF "1.prems"(2) c] valid_bumped "1.prems"(2) by blast+
  note len = utf8_len_bumped [OF c]
  consider "c = 96" "peek (bumped lx) = Some 96" | "c = 96" "peek (bumped lx) \<noteq> Some 96" | "c \<noteq> 96" by blast
  then show ?case
  proof cases
    case 1
    have "text_within (acc @ [96]) (bumped (bumped lx)) r"
      using "1.IH"(1) [OF c 1] "1.prems"(1,3) c v 1
      by (simp add: quoted_loop.simps [of pos acc lx])
    then show ?thesis
      using len utf8_len_bumped [OF 1(2)] 1 by (simp add: text_within_def)
  next
    case 2
    then show ?thesis
      using "1.prems" c len by (auto simp: quoted_loop.simps [of pos acc lx] text_within_def)
  next
    case 3
    have "text_within (acc @ [c]) (bumped lx) r"
      using "1.IH"(2) [OF c 3] "1.prems"(1,3) c v 3
      by (simp add: quoted_loop.simps [of pos acc lx])
    then show ?thesis
      using len by (simp add: text_within_def)
  qed
qed

lemma len_utf8_le: "len_utf8 c \<le> 4"
  by (simp add: len_utf8_def)

lemma escape_digits_bytes:
  "escape_digits pos n acc lx = Ok (s, lx') \<Longrightarrow> n + utf8_len (remaining lx') \<le> utf8_len (remaining lx)"
proof (induction pos n acc lx rule: escape_digits.induct)
  case (2 pos n acc lx)
  from "2.prems" obtain c where c: "peek lx = Some c" "to_digit 16 c \<noteq> None" "escape_digits pos n (acc @ [c]) (bumped lx) = Ok (s, lx')"
    by (auto split: option.splits if_splits)
  from "2.IH" [OF c] utf8_len_bumped [OF c(1)] len_utf8_pos(1) [of c] show ?case by linarith
qed simp

lemma escape_text:
  assumes "escape pos lx = Ok (c, lx')"
  shows "valid_char c \<and> len_utf8 c + utf8_len (remaining lx') \<le> utf8_len (remaining lx)"
proof -
  obtain e where e: "peek lx = Some e" using assms by (auto simp: escape_def split: option.splits)
  note len = utf8_len_bumped [OF e] len_utf8_pos(1) [of e]
  show ?thesis
  proof (cases "simple_escape e")
    case (Some d)
    then have "valid_char d" "len_utf8 d = 1"
      by (auto simp: simple_escape_def valid_char_def len_utf8_def split: if_splits)
    then show ?thesis using assms e Some len by (auto simp: escape_def Suc_le_eq)
  next
    case None
    then have "unicode_escape 4 pos (bumped lx) = Ok (c, lx') \<or> unicode_escape 8 pos (bumped lx) = Ok (c, lx')"
      using assms e by (auto simp: escape_def split: if_splits)
    then obtain w where w: "4 \<le> w" "unicode_escape w pos (bumped lx) = Ok (c, lx')"
      by (metis order_refl numeral_le_iff semiring_norm(68,69,71))
    then obtain s where "escape_digits pos w [] (bumped lx) = Ok (s, lx')" "valid_char c"
      by (auto simp: unicode_escape_def and_then_eq_Inr_iff split: if_splits)
    with escape_digits_bytes [OF this(1)] len_utf8_le [of c] w(1) len show ?thesis by simp
  qed
qed

lemma string_loop_text:
  assumes "string_loop q pos acc lx = Ok r" "list_all valid_char (remaining lx)" "list_all valid_char acc"
  shows "text_within acc lx r"
  using assms
proof (induction q pos acc lx rule: string_loop.induct)
  case (1 q pos acc lx)
  obtain c where c: "peek lx = Some c"
    using "1.prems"(1) by (subst (asm) string_loop.simps) (auto split: option.splits)
  have v: "valid_char c" "list_all valid_char (remaining (bumped lx))" "list_all valid_char (remaining (bumped (bumped lx)))"
    using valid_peek [OF "1.prems"(2) c] valid_bumped "1.prems"(2) by blast+
  note len = utf8_len_bumped [OF c]
  consider "c = q" "peek (bumped lx) = Some q" | "c = q" "peek (bumped lx) \<noteq> Some q" | "c \<noteq> q" "c = 92" | "c \<noteq> q" "c \<noteq> 92"
    by blast
  then show ?case
  proof cases
    case 1
    have "text_within (acc @ [q]) (bumped (bumped lx)) r"
      using "1.IH"(1) [OF c 1] "1.prems"(1,3) c v 1
      by (simp add: string_loop.simps [of q pos acc lx])
    then show ?thesis
      using len utf8_len_bumped [OF 1(2)] 1 by (simp add: text_within_def)
  next
    case 2
    then show ?thesis
      using "1.prems" c len by (auto simp: string_loop.simps [of q pos acc lx] text_within_def)
  next
    case 3
    then obtain d lx' where e: "escape pos (bumped lx) = Ok (d, lx')" "string_loop q pos (acc @ [d]) lx' = Ok r"
      using "1.prems"(1) c by (auto simp: string_loop.simps [of q pos acc lx] and_then_eq_Inr_iff)
    note esc = escape_text [OF e(1)]
    have "text_within (acc @ [d]) lx' r"
      using "1.IH"(2) [OF c 3 e(1)] e(2) esc "1.prems"(3) valid_advances [OF escape_advances [OF e(1)] v(2)] by simp
    then show ?thesis
      using len esc by (simp add: text_within_def)
  next
    case 4
    have "text_within (acc @ [c]) (bumped lx) r"
      using "1.IH"(3) [OF c 4] "1.prems"(1,3) c v 4
      by (simp add: string_loop.simps [of q pos acc lx])
    then show ?thesis
      using len by (simp add: text_within_def)
  qed
qed

lemma take_while_text:
  assumes "take_while p lx = (s, lx')" "list_all valid_char (remaining lx)"
  shows "text_within [] lx (s, lx')"
proof -
  have s: "s = takeWhile p (remaining lx)" "remaining lx' = drop (length s) (remaining lx)"
    using assms(1) by (auto simp: take_while_eq remaining_advance)
  then have "remaining lx = s @ remaining lx'"
    by (simp add: dropWhile_eq_drop [symmetric])
  then show ?thesis
    using assms(2) by (simp add: text_within_def)
qed

definition text_ok :: "nat \<Rightarrow> TokenKind \<Rightarrow> bool" where
  "text_ok n k \<longleftrightarrow> list_all valid_char (token_text k) \<and> utf8_len (token_text k) \<le> n"

lemma text_ok_none: "token_text k = [] \<Longrightarrow> text_ok n k"
  by (simp add: text_ok_def)

lemma text_within_ok:
  "text_within [] lx r \<Longrightarrow> utf8_len (remaining lx) \<le> n \<Longrightarrow> token_text k = fst r \<Longrightarrow> text_ok n k"
  by (simp add: text_within_def text_ok_def)

lemma number_text_ok: "number t pos lx = Ok (tok, lx') \<Longrightarrow> text_ok n (token_kind tok)"
  by (auto simp: number_def radix_integer_def decimal_integer_def Let_def and_then_eq_Inr_iff
      split: if_splits prod.splits intro!: text_ok_none)

lemma symbol_text_ok: "lex_symbol pos lx = Ok (tok, lx') \<Longrightarrow> text_ok n (token_kind tok)"
  by (auto simp: lex_symbol_def Let_def split: option.splits prod.splits if_splits intro!: text_ok_none)

lemma character_text_ok:
  assumes "lex_character t c pos lx = Ok (tok, lx')" "list_all valid_char (remaining lx)" "utf8_len (remaining lx) \<le> n"
  shows "text_ok n (token_kind tok)"
proof -
  have v: "list_all valid_char (remaining (bumped lx))" "utf8_len (remaining (bumped lx)) \<le> n"
    using valid_bumped [OF assms(2)] utf8_len_advances [OF bumped_advances, of lx] assms(3) by auto
  consider "quoted_identifier pos lx = Ok (tok, lx')" | "lex_string c pos lx = Ok (tok, lx')"
    | "parameter t pos lx = Ok (tok, lx')" | "number t pos lx = Ok (tok, lx')" | "lex_symbol pos lx = Ok (tok, lx')"
    | name where "take_while (is_identifier_continue t) lx = (name, lx')" "token_kind tok = Identifier name"
    using assms(1) by (auto simp: lex_character_def take_identifier_def split: if_splits prod.splits)
  then show ?thesis
  proof cases
    case 1
    then show ?thesis
      using quoted_loop_text [of pos "[]" "bumped lx"] v text_within_ok
      by (fastforce simp: quoted_identifier_def and_then_eq_Inr_iff)
  next
    case 2
    then show ?thesis
      using string_loop_text [of c pos "[]" "bumped lx"] v text_within_ok
      by (fastforce simp: lex_string_def and_then_eq_Inr_iff)
  next
    case 3
    then show ?thesis
      using take_while_text [of "is_identifier_continue t" "bumped lx"] v text_within_ok
      by (fastforce simp: parameter_def take_identifier_def split: if_splits prod.splits intro: text_ok_none)
  next
    case 6
    then show ?thesis
      using take_while_text [of "is_identifier_continue t" lx] assms(2,3) text_within_ok by fastforce
  qed (auto intro: number_text_ok symbol_text_ok)
qed

lemma next_token_text_ok:
  assumes "next_token t lx = Ok (tok, lx')" "list_all valid_char (remaining lx)" "utf8_len (remaining lx) \<le> n"
  shows "text_ok n (token_kind tok)"
proof (cases "token_kind tok = TEnd")
  case False
  obtain lx0 c where "skip_layout lx = Ok lx0" "lex_character t c (here lx0) lx0 = Ok (tok, lx')"
    using next_token_scans [OF assms(1) False] .
  with character_text_ok [OF this(2)] valid_advances [OF skip_layout_advances] utf8_len_advances [OF skip_layout_advances]
    assms(2,3) show ?thesis by (meson order_trans)
qed (simp add: text_ok_none)

lemma collect_text_ok:
  assumes "collect_tokens t acc lx = Ok ts" "list_all valid_char (remaining lx)" "utf8_len (remaining lx) \<le> n"
    and "list_all (\<lambda>tok. text_ok n (token_kind tok)) acc"
  shows "list_all (\<lambda>tok. text_ok n (token_kind tok)) ts"
  using assms
proof (induction t acc lx rule: collect_tokens.induct)
  case (1 t acc lx)
  obtain p where p: "next_token t lx = Ok p"
    "(if token_kind (fst p) = TEnd then Ok (acc @ [fst p]) else collect_tokens t (acc @ [fst p]) (snd p)) = Ok ts"
    using "1.prems"(1) unfolding collect_tokens.simps [of t acc lx] and_then_eq_Inr_iff by blast
  have ok: "text_ok n (token_kind (fst p))"
    using next_token_text_ok [of t lx "fst p" "snd p" n] p(1) "1.prems" by simp
  show ?case
  proof (cases "token_kind (fst p) = TEnd")
    case True
    then show ?thesis using p(2) ok "1.prems"(4) by auto
  next
    case False
    obtain lx0 c where n: "skip_layout lx = Ok lx0" "peek lx0 = Some c" "lex_character t c (here lx0) lx0 = Ok (fst p, snd p)"
      using next_token_scans [of t lx "fst p" "snd p"] p(1) False by auto
    have a: "advances lx (snd p)"
      using skip_layout_advances [OF n(1)] scans_character [OF n(2), of "here lx0" t] n(3)
      unfolding scans_def by (blast intro: advances_trans)
    have "utf8_len (remaining (snd p)) \<le> n"
      using utf8_len_advances [OF a] "1.prems"(3) by simp
    then show ?thesis
      using "1.IH" [OF p(1) False] p(2) False ok "1.prems"(2,4) valid_advances [OF a] by simp
  qed
qed

lemma lex_text_ok:
  "lex t s = Ok ts \<Longrightarrow> list_all valid_char s \<Longrightarrow> list_all (\<lambda>tok. text_ok (utf8_len s) (token_kind tok)) ts"
  using collect_text_ok [of t "[]" "lexer_new s" ts "utf8_len s"] by (simp add: lex_def)

end
