(* ===== verification/Plan_Key.thy ===== *)
theory Plan_Key
  imports Lexer_Text Result_Value
begin

text \<open>
  Keys of the plan cache, \<^verbatim>\<open>crates/cypher/src/plan_cache.rs\<close>: the normalised source, which is the tokens
  of the query without layout, and the shape of the parameters. Two queries share a normalised source
  exactly when they have the same tokens.
\<close>

section \<open>Normalised source\<close>

fun symbol_byte :: "Symbol \<Rightarrow> u8" where
  "symbol_byte LeftParen = 0"
| "symbol_byte RightParen = 1"
| "symbol_byte LeftBracket = 2"
| "symbol_byte RightBracket = 3"
| "symbol_byte LeftBrace = 4"
| "symbol_byte RightBrace = 5"
| "symbol_byte Comma = 6"
| "symbol_byte Dot = 7"
| "symbol_byte Colon = 8"
| "symbol_byte Semicolon = 9"
| "symbol_byte Dollar = 10"
| "symbol_byte Pipe = 11"
| "symbol_byte DoublePipe = 12"
| "symbol_byte Ampersand = 13"
| "symbol_byte Bang = 14"
| "symbol_byte Plus = 15"
| "symbol_byte Minus = 16"
| "symbol_byte Star = 17"
| "symbol_byte Slash = 18"
| "symbol_byte Percent = 19"
| "symbol_byte Caret = 20"
| "symbol_byte SymEqual = 21"
| "symbol_byte NotEqual = 22"
| "symbol_byte SymLess = 23"
| "symbol_byte LessOrEqual = 24"
| "symbol_byte SymGreater = 25"
| "symbol_byte GreaterOrEqual = 26"
| "symbol_byte RegexMatch = 27"
| "symbol_byte ArrowLeft = 28"
| "symbol_byte ArrowRight = 29"
| "symbol_byte SymRange = 30"

definition plan_push_bytes :: "bytes \<Rightarrow> bytes \<Rightarrow> bytes" where
  "plan_push_bytes out bs = out @ to_be_bytes (word_of_nat (length bs) :: u64) @ bs"

fun append_token :: "bytes \<Rightarrow> TokenKind \<Rightarrow> bytes" where
  "append_token out (Identifier s) = plan_push_bytes (out @ [0]) (as_bytes s)"
| "append_token out (TString s) = plan_push_bytes (out @ [1]) (as_bytes s)"
| "append_token out (TInteger v) = out @ [2] @ to_be_bytes v"
| "append_token out (TFloat v) = out @ [3] @ to_be_bytes v"
| "append_token out (Parameter s) = plan_push_bytes (out @ [4]) (as_bytes s)"
| "append_token out (TSymbol y) = out @ [5, symbol_byte y]"
| "append_token out TEnd = out @ [6]"

definition normalized_source :: "char_tables \<Rightarrow> text_str \<Rightarrow> bytes result" where
  "normalized_source t s =
     and_then (lex t s) (\<lambda>tokens. Ok (foldl (\<lambda>out tok. append_token out (token_kind tok)) [] tokens))"

section \<open>Shape of the parameters\<close>

definition length_bucket :: "nat \<Rightarrow> u8" where
  "length_bucket n = (if n = 0 then 0 else word_of_nat (min (bit_width n) 255))"

definition integer_selectivity_bucket :: "i64 \<Rightarrow> u8" where
  "integer_selectivity_bucket v =
     (let magnitude = unsigned_abs v
      in if magnitude = 0 then 0 else word_of_nat ((64 - leading_zeros magnitude - 1) div 4))"

definition float_selectivity_class :: "f64 \<Rightarrow> bytes" where
  "float_selectivity_class v =
     (if f64_is_nan v then [0, 0, 0]
      else if v = f64_negative_infinity then [1, 0, 0]
      else if v = f64_positive_infinity then [2, 0, 0]
      else if f64_is_zero v then [3, of_bool (f64_negative v), 0]
      else [4, of_bool (f64_negative v), word_of_nat (unat (f64_exponent_bits v) div 16)])"

fun column_byte :: "ColumnType \<Rightarrow> u8" where
  "column_byte CAny = 0"
| "column_byte CNull = 1"
| "column_byte CBoolean = 2"
| "column_byte CInteger = 3"
| "column_byte CFloat = 4"
| "column_byte CString = 5"
| "column_byte CBytes = 6"
| "column_byte CTemporal = 7"
| "column_byte CDuration = 8"
| "column_byte CNode = 9"
| "column_byte CRelationship = 10"
| "column_byte CPath = 11"
| "column_byte CVector = 12"
| "column_byte CList = 13"
| "column_byte CMap = 14"

definition append_scalar_shape :: "bytes \<Rightarrow> ScalarValue \<Rightarrow> bytes" where
  "append_scalar_shape out v = (case v of
       SNull \<Rightarrow> out @ [0]
     | SBoolean b \<Rightarrow> out @ [1 + of_bool b]
     | SInteger i \<Rightarrow> out @ [3, if sint i < 0 then 0 else if i = 0 then 1 else 2, integer_selectivity_bucket i]
     | SFloat f \<Rightarrow> out @ [4] @ float_selectivity_class f
     | SString s \<Rightarrow> out @ [length_bucket (length s)]
     | SBytes s \<Rightarrow> out @ [length_bucket (length s)]
     | SList s \<Rightarrow> out @ [length_bucket (length s)]
     | SMap s \<Rightarrow> out @ [length_bucket (length s)]
     | _ \<Rightarrow> out)"

function append_value_shape :: "bytes \<Rightarrow> ResultValue \<Rightarrow> nat \<Rightarrow> bytes" where
  "append_value_shape out v depth =
     (if 16 \<le> depth then out @ [255]
      else
        let out = out @ [column_byte (column_type v)] in
        case v of
          RScalar s \<Rightarrow> append_scalar_shape out s
        | RVector xs \<Rightarrow> out @ [length_bucket (length xs)]
        | RList xs \<Rightarrow>
            foldl (\<lambda>out x. append_value_shape out x (depth + 1)) (out @ [length_bucket (length xs)]) (take 16 xs)
        | RMap kvs \<Rightarrow>
            foldl (\<lambda>out (name, x). append_value_shape (plan_push_bytes out name) x (depth + 1))
              (out @ [length_bucket (length kvs)]) (take 16 kvs)
        | _ \<Rightarrow> out)"
  by pat_completeness auto
termination
  by (relation "measure (\<lambda>(out, v, depth). 16 - depth)") auto

declare append_value_shape.simps [simp del]

definition parameter_shape :: "(str \<times> ResultValue) list \<Rightarrow> bytes" where
  "parameter_shape parameters =
     foldl (\<lambda>out (name, v). append_value_shape (plan_push_bytes out name) v 0) [] parameters"

section \<open>Tokens and normalised sources\<close>

definition token_bytes :: "TokenKind \<Rightarrow> bytes" where
  "token_bytes k = append_token [] k"

lemma append_token_eq: "append_token out k = out @ token_bytes k"
  by (cases k) (simp_all add: token_bytes_def plan_push_bytes_def)

lemma fold_tokens_eq:
  "foldl (\<lambda>out tok. append_token out (token_kind tok)) out ts = out @ concat (map (token_bytes \<circ> token_kind) ts)"
  by (induction ts arbitrary: out) (simp_all add: append_token_eq)

lemma symbol_byte_inject: "symbol_byte x = symbol_byte y \<longleftrightarrow> x = y"
proof -
  have "inj symbol_byte"
  proof (rule inj_on_inverseI)
    fix y
    show "[LeftParen, RightParen, LeftBracket, RightBracket, LeftBrace, RightBrace, Comma, Dot, Colon, Semicolon, Dollar,
        Pipe, DoublePipe, Ampersand, Bang, Plus, Minus, Star, Slash, Percent, Caret, SymEqual, NotEqual, SymLess,
        LessOrEqual, SymGreater, GreaterOrEqual, RegexMatch, ArrowLeft, ArrowRight, SymRange] ! unat (symbol_byte y) = y"
      by (cases y) simp_all
  qed
  then show ?thesis by (simp add: inj_eq)
qed

lemma text_bytes_inject:
  assumes "list_all valid_char a" "list_all valid_char b" "utf8_len a < 2 ^ 64" "utf8_len b < 2 ^ 64"
    and "plan_push_bytes [] (as_bytes a) @ x = plan_push_bytes [] (as_bytes b) @ y"
  shows "a = b \<and> x = y"
proof -
  have "utf8_len a = utf8_len b \<and> as_bytes a @ x = as_bytes b @ y"
    using assms(5) be_length_inject [OF assms(3,4), of "as_bytes a @ x" "as_bytes b @ y"]
    by (simp add: plan_push_bytes_def)
  then show ?thesis
    using as_bytes_inject [OF assms(1,2)] by (metis append_eq_append_conv length_as_bytes)
qed

lemma push_after: "plan_push_bytes [c] bs = c # plan_push_bytes [] bs"
  by (simp add: plan_push_bytes_def)

lemmas token_bytes_simps = token_bytes_def append_token.simps push_after append.simps list.inject

lemma token_bytes_inject:
  assumes ok: "text_ok n k" "text_ok n l" "n < 2 ^ 64" and e: "token_bytes k @ x = token_bytes l @ y"
  shows "k = l \<and> x = y"
proof -
  have tag: "hd (token_bytes k) = hd (token_bytes l)"
    using e by (cases k; cases l) (simp_all add: token_bytes_simps)
  have fits: "list_all valid_char (token_text k)" "list_all valid_char (token_text l)"
      "utf8_len (token_text k) < 2 ^ 64" "utf8_len (token_text l) < 2 ^ 64"
    using ok by (simp_all add: text_ok_def)
  note same = text_bytes_inject [OF fits]
  show ?thesis
  proof (cases k)
    case (Identifier a)
    with tag obtain b where "l = Identifier b" by (cases l) (simp_all add: token_bytes_simps)
    with Identifier e same [of x y] show ?thesis by (simp add: token_bytes_simps)
  next
    case (TString a)
    with tag obtain b where "l = TString b" by (cases l) (simp_all add: token_bytes_simps)
    with TString e same [of x y] show ?thesis by (simp add: token_bytes_simps)
  next
    case (Parameter a)
    with tag obtain b where "l = Parameter b" by (cases l) (simp_all add: token_bytes_simps)
    with Parameter e same [of x y] show ?thesis by (simp add: token_bytes_simps)
  qed (use tag e in \<open>cases l; simp add: token_bytes_simps symbol_byte_inject\<close>)+
qed

lemma token_bytes_nonempty: "token_bytes k \<noteq> []"
  by (cases k) (simp_all add: token_bytes_def plan_push_bytes_def)

lemma concat_token_bytes_inject:
  assumes "list_all (text_ok n) ks" "list_all (text_ok n) ls" "n < 2 ^ 64"
    and "concat (map token_bytes ks) = concat (map token_bytes ls)"
  shows "ks = ls"
  using assms
proof (induction ks arbitrary: ls)
  case Nil
  then show ?case by (cases ls) (simp_all add: token_bytes_nonempty)
next
  case (Cons k ks)
  obtain l ls' where l: "ls = l # ls'"
    using Cons.prems(4) token_bytes_nonempty [of k] by (cases ls) auto
  have "text_ok n k" "text_ok n l"
    using Cons.prems(1,2) l by simp_all
  moreover have "token_bytes k @ concat (map token_bytes ks) = token_bytes l @ concat (map token_bytes ls')"
    using Cons.prems(4) l by simp
  ultimately have "k = l" "concat (map token_bytes ks) = concat (map token_bytes ls')"
    using token_bytes_inject [OF _ _ Cons.prems(3)] by blast+
  moreover have "ks = ls'"
    by (rule Cons.IH [OF _ _ Cons.prems(3)]) (use Cons.prems(1,2) l calculation(2) in simp_all)
  ultimately show ?case using l by simp
qed

lemma normalized_source_eq:
  "normalized_source t s = and_then (lex t s) (\<lambda>ts. Ok (concat (map token_bytes (map token_kind ts))))"
  by (simp add: normalized_source_def fold_tokens_eq comp_def)

lemma lex_kinds_ok:
  assumes "lex t s = Ok ts" "list_all valid_char s" "utf8_len s \<le> n"
  shows "list_all (text_ok n) (map token_kind ts)"
  using lex_text_ok [OF assms(1,2)] assms(3) by (auto simp: list_all_iff text_ok_def)

lemma normalized_source_inject:
  assumes "list_all valid_char a" "list_all valid_char b" "utf8_len a < 2 ^ 64" "utf8_len b < 2 ^ 64"
    and "lex t a = Ok as" "lex t b = Ok bs"
  shows "normalized_source t a = normalized_source t b \<longleftrightarrow> map token_kind as = map token_kind bs"
proof -
  let ?n = "max (utf8_len a) (utf8_len b)"
  have "list_all (text_ok ?n) (map token_kind as)" "list_all (text_ok ?n) (map token_kind bs)"
    using lex_kinds_ok [OF assms(5,1)] lex_kinds_ok [OF assms(6,2)] by simp_all
  then have inject: "map token_kind as = map token_kind bs"
    if "concat (map token_bytes (map token_kind as)) = concat (map token_bytes (map token_kind bs))"
    using concat_token_bytes_inject that assms(3,4) by (metis max_def)
  have "normalized_source t a = Ok (concat (map token_bytes (map token_kind as)))"
    "normalized_source t b = Ok (concat (map token_bytes (map token_kind bs)))"
    unfolding normalized_source_eq assms(5,6) by simp_all
  then show ?thesis
    using inject by (metis sum.inject(2))
qed

text \<open>
  C36. The plan cache normalises layout and nothing else: two queries have the same normalised source
  exactly when they have the same tokens, and a query that does not lex has the lexer's error.
\<close>

theorem normalized_source_decides_tokens:
  assumes "list_all valid_char a" "list_all valid_char b" "utf8_len a < 2 ^ 64" "utf8_len b < 2 ^ 64"
    and "lex t a = Ok as" "lex t b = Ok bs"
  shows "(normalized_source t a = normalized_source t b \<longleftrightarrow> map token_kind as = map token_kind bs) \<and>
    (lex t c = Err e \<longrightarrow> normalized_source t c = Err e)"
  using normalized_source_inject [OF assms] by (simp add: normalized_source_def)

theorem normalized_source_decides_tokens_witness:
  "normalized_source ascii_tables [32, 97] = normalized_source ascii_tables [97]"
proof -
  have a: "lex ascii_tables [32, 97] = Ok
      [\<lparr>token_kind = Identifier [97], token_span = \<lparr>span_start = 1, span_end = 2, span_line = 1, span_column = 2\<rparr>\<rparr>,
       \<lparr>token_kind = TEnd, token_span = \<lparr>span_start = 2, span_end = 2, span_line = 1, span_column = 3\<rparr>\<rparr>]"
    by code_simp
  have b: "lex ascii_tables [97] = Ok
      [\<lparr>token_kind = Identifier [97], token_span = \<lparr>span_start = 0, span_end = 1, span_line = 1, span_column = 1\<rparr>\<rparr>,
       \<lparr>token_kind = TEnd, token_span = \<lparr>span_start = 1, span_end = 1, span_line = 1, span_column = 2\<rparr>\<rparr>]"
    by code_simp
  show ?thesis
    using normalized_source_decides_tokens [OF _ _ _ _ a b] by (simp add: valid_char_def len_utf8_def)
qed

end
