(* ===== verification/Plan_Cache.thy ===== *)
theory Plan_Cache
  imports Plan_Key "HOL-Library.AList" "HOL-Library.Product_Lexorder" "HOL-Library.List_Lexorder"
begin

text \<open>
  The plan cache, \<^verbatim>\<open>crates/cypher/src/plan_cache.rs\<close>: plans under their full key, an index from raw
  sources to full keys, a byte account and a clock for the eviction of the least recently used plan.

  A \<open>BTreeMap\<close> is an association list with distinct keys; its iteration order is only observed by the
  search for the oldest entry, whose key is unique. The outcome of \<open>try_lock\<close> is an argument of the
  public functions: an operation on a busy cache does nothing. Plans are kept and never looked into, apart from their operator counts; the
  sizes of the types are fixed by the compiler and are arguments, as are the hash of the \<open>blake3\<close> crate
  and the equality of parameter values.
\<close>

section \<open>Keys\<close>

datatype PlanCacheKey = PlanCacheKey
  (pk_project: u128) (pk_normalized_source: bytes) (pk_schema_generation: bytes) (pk_index_generation: bytes)
  (pk_parameter_shape_hash: bytes) (pk_statistics_revision: u64) (pk_backend: u8) (pk_backend_capability_bits: u64)
  (pk_bind_capability_bits: u8) (pk_layer_bits: u8) (pk_temporal_mode: u8) (pk_runtime_checkpoint_eligible: bool)
  (pk_scratch_budget_bytes: nat) (pk_max_result_rows: nat)

datatype EarlyPlanCacheKey = EarlyPlanCacheKey
  (ek_project: u128) (ek_raw_source: bytes) (ek_schema_generation: bytes) (ek_index_generation: bytes)
  (ek_parameter_shape_hash: bytes) (ek_statistics_revision: u64) (ek_backend: u8) (ek_backend_capability_bits: u64)
  (ek_bind_capability_bits: u8) (ek_runtime_checkpoint_eligible: bool) (ek_scratch_budget_bytes: nat)
  (ek_max_result_rows: nat)

text \<open>The derived order compares the fields in turn.\<close>

definition key_fields where
  "key_fields k =
     (pk_project k, pk_normalized_source k, pk_schema_generation k, pk_index_generation k, pk_parameter_shape_hash k,
      pk_statistics_revision k, pk_backend k, pk_backend_capability_bits k, pk_bind_capability_bits k, pk_layer_bits k,
      pk_temporal_mode k, pk_runtime_checkpoint_eligible k, pk_scratch_budget_bytes k, pk_max_result_rows k)"

lemma key_fields_inject: "key_fields k = key_fields l \<longleftrightarrow> k = l"
  by (cases k; cases l) (simp add: key_fields_def)

instantiation PlanCacheKey :: linorder
begin

definition less_eq_PlanCacheKey :: "PlanCacheKey \<Rightarrow> PlanCacheKey \<Rightarrow> bool" where
  "less_eq_PlanCacheKey k l \<longleftrightarrow> key_fields k \<le> key_fields l"

definition less_PlanCacheKey :: "PlanCacheKey \<Rightarrow> PlanCacheKey \<Rightarrow> bool" where
  "less_PlanCacheKey k l \<longleftrightarrow> key_fields k < key_fields l"

instance
proof
  fix k l m :: PlanCacheKey
  show "k < l \<longleftrightarrow> k \<le> l \<and> \<not> l \<le> k"
    unfolding less_eq_PlanCacheKey_def less_PlanCacheKey_def by (rule less_le_not_le)
  show "k \<le> k"
    unfolding less_eq_PlanCacheKey_def by (rule order_refl)
  show "k \<le> m" if "k \<le> l" "l \<le> m"
    using that unfolding less_eq_PlanCacheKey_def by (rule order_trans)
  show "k = l" if "k \<le> l" "l \<le> k"
    using that unfolding less_eq_PlanCacheKey_def key_fields_inject [symmetric] by (rule order_antisym)
  show "k \<le> l \<or> l \<le> k"
    unfolding less_eq_PlanCacheKey_def by (rule linear)
qed

end

datatype BackendKind = Cpu | Metal | Cuda

fun backend_byte :: "BackendKind \<Rightarrow> u8" where
  "backend_byte Cpu = 0"
| "backend_byte Metal = 1"
| "backend_byte Cuda = 2"

record BindCapabilities =
  cap_write :: bool
  cap_schema :: bool
  cap_knowledge_write :: bool
  cap_workspace_write :: bool
  cap_require_native_execution :: bool

definition bind_capability_bits :: "BindCapabilities \<Rightarrow> u8" where
  "bind_capability_bits c =
     of_bool (cap_write c) OR push_bit 1 (of_bool (cap_schema c)) OR push_bit 2 (of_bool (cap_knowledge_write c)) OR
     push_bit 3 (of_bool (cap_workspace_write c)) OR push_bit 4 (of_bool (cap_require_native_execution c))"

definition plan_cache_key_new ::
  "(bytes \<Rightarrow> bytes) \<Rightarrow> char_tables \<Rightarrow> u128 \<Rightarrow> text_str \<Rightarrow> bytes \<Rightarrow> bytes \<Rightarrow> (str \<times> ResultValue) list \<Rightarrow> u64 \<Rightarrow>
   BackendKind \<Rightarrow> u64 \<Rightarrow> BindCapabilities \<Rightarrow> u8 \<Rightarrow> u8 \<Rightarrow> bool \<Rightarrow> nat \<Rightarrow> nat \<Rightarrow> PlanCacheKey result" where
  "plan_cache_key_new hash t project src schema_generation index_generation parameters statistics_revision backend
     backend_bits capabilities layer_bits temporal_mode checkpoint_eligible scratch_budget max_rows =
     and_then (normalized_source t src) (\<lambda>normalized.
       Ok (PlanCacheKey project normalized schema_generation index_generation (hash (parameter_shape parameters))
             statistics_revision (backend_byte backend) backend_bits (bind_capability_bits capabilities) layer_bits
             temporal_mode checkpoint_eligible scratch_budget max_rows))"

definition early_plan_cache_key_new ::
  "(bytes \<Rightarrow> bytes) \<Rightarrow> u128 \<Rightarrow> text_str \<Rightarrow> bytes \<Rightarrow> bytes \<Rightarrow> (str \<times> ResultValue) list \<Rightarrow> u64 \<Rightarrow> BackendKind \<Rightarrow> u64 \<Rightarrow>
   BindCapabilities \<Rightarrow> bool \<Rightarrow> nat \<Rightarrow> nat \<Rightarrow> EarlyPlanCacheKey result" where
  "early_plan_cache_key_new hash project src schema_generation index_generation parameters statistics_revision backend
     backend_bits capabilities checkpoint_eligible scratch_budget max_rows =
     Ok (EarlyPlanCacheKey project (as_bytes src) schema_generation index_generation
           (hash (parameter_shape parameters)) statistics_revision (backend_byte backend) backend_bits
           (bind_capability_bits capabilities) checkpoint_eligible scratch_budget max_rows)"

section \<open>The cache\<close>

definition MAX_CACHE_BYTES :: nat where "MAX_CACHE_BYTES = 16 * 1024 * 1024"
definition MAX_CACHE_ENTRIES :: nat where "MAX_CACHE_ENTRIES = 512"

record ('op, 'rest) PhysicalPlan =
  operators :: "'op list"
  unions :: "(bool \<times> 'op list) list"
  plan_rest :: 'rest

record ('p, 'v) CachedPlan =
  cp_plan :: 'p
  cp_force_host_adaptive :: bool
  cp_estimated_bytes :: nat
  cp_last_used :: u64
  cp_specialized_parameters :: "(str \<times> 'v) list"

record ('p, 'v) PlanCache =
  pc_entries :: "(PlanCacheKey \<times> ('p, 'v) CachedPlan) list"
  pc_early :: "(EarlyPlanCacheKey \<times> PlanCacheKey) list"
  pc_bytes :: nat
  pc_clock :: u64

record type_sizes =
  key_size :: nat
  plan_size :: nat
  operator_size :: nat

definition plan_cache_default :: "('p, 'v) PlanCache" where
  "plan_cache_default = \<lparr>pc_entries = [], pc_early = [], pc_bytes = 0, pc_clock = 0\<rparr>"

definition saturating_mul_usize :: "nat \<Rightarrow> nat \<Rightarrow> nat" where
  "saturating_mul_usize a b = min (a * b) (usize_limit - 1)"

definition estimated_plan_bytes :: "type_sizes \<Rightarrow> PlanCacheKey \<Rightarrow> ('op, 'rest) PhysicalPlan \<Rightarrow> nat" where
  "estimated_plan_bytes sz key p =
     (let operator_count = saturating_add_usize (length (operators p)) (\<Sum>(_, ops)\<leftarrow>unions p. length ops) in
      saturating_add_usize
        (saturating_add_usize
          (saturating_add_usize
            (saturating_add_usize (key_size sz) (saturating_mul_usize (length (pk_normalized_source key)) 4))
            (plan_size sz))
          (saturating_mul_usize operator_count (operator_size sz)))
        1024)"

text \<open>A plan answers for the parameters whose values were folded into it.\<close>

definition specialized_for :: "('v \<Rightarrow> 'v \<Rightarrow> bool) \<Rightarrow> (str \<times> 'v) list \<Rightarrow> (str \<times> 'v) list \<Rightarrow> bool" where
  "specialized_for eq specialized parameters \<longleftrightarrow>
     \<not> list_ex (\<lambda>(name, folded). \<not> (case map_of parameters name of Some v \<Rightarrow> eq v folded | None \<Rightarrow> False)) specialized"

definition cache_get ::
  "('v \<Rightarrow> 'v \<Rightarrow> bool) \<Rightarrow> ('p, 'v) PlanCache \<Rightarrow> PlanCacheKey \<Rightarrow> (str \<times> 'v) list \<Rightarrow> ('p \<times> bool) option \<times> ('p, 'v) PlanCache" where
  "cache_get eq c0 key parameters =
     (let c = c0\<lparr>pc_clock := pc_clock c0 + 1\<rparr> in
      case map_of (pc_entries c) key of
        None \<Rightarrow> (None, c)
      | Some entry \<Rightarrow>
          if \<not> specialized_for eq (cp_specialized_parameters entry) parameters then (None, c)
          else (Some (cp_plan entry, cp_force_host_adaptive entry),
                c\<lparr>pc_entries := AList.update key (entry\<lparr>cp_last_used := pc_clock c\<rparr>) (pc_entries c)\<rparr>))"

definition cache_get_early ::
  "('v \<Rightarrow> 'v \<Rightarrow> bool) \<Rightarrow> ('p, 'v) PlanCache \<Rightarrow> EarlyPlanCacheKey \<Rightarrow> (str \<times> 'v) list \<Rightarrow> ('p \<times> bool) option \<times> ('p, 'v) PlanCache" where
  "cache_get_early eq c key parameters = (case map_of (pc_early c) key of
       None \<Rightarrow> (None, c)
     | Some full \<Rightarrow> cache_get eq c full parameters)"

text \<open>\<open>min_by_key\<close> on the last use and the key.\<close>

definition older :: "PlanCacheKey \<times> ('p, 'v) CachedPlan \<Rightarrow> PlanCacheKey \<times> ('p, 'v) CachedPlan \<Rightarrow> bool" where
  "older a b \<longleftrightarrow> (cp_last_used (snd a), fst a) < (cp_last_used (snd b), fst b)"

fun oldest :: "(PlanCacheKey \<times> ('p, 'v) CachedPlan) list \<Rightarrow> (PlanCacheKey \<times> ('p, 'v) CachedPlan) option" where
  "oldest [] = None"
| "oldest (x # xs) = (case oldest xs of None \<Rightarrow> Some x | Some y \<Rightarrow> Some (if older y x then y else x))"

lemma oldest_member: "oldest xs = Some x \<Longrightarrow> x \<in> set xs"
  by (induction xs arbitrary: x) (auto split: option.splits if_splits)

lemma oldest_None_iff [simp]: "oldest xs = None \<longleftrightarrow> xs = []"
  by (cases xs) (auto split: option.splits)

lemma length_delete_member: "(k, v) \<in> set xs \<Longrightarrow> length (AList.delete k xs) < length xs"
  by (induction xs) (auto simp: le_imp_less_Suc AList.length_delete_le)

function evict :: "('p, 'v) PlanCache \<Rightarrow> ('p, 'v) PlanCache" where
  "evict c =
     (if MAX_CACHE_BYTES < pc_bytes c \<or> MAX_CACHE_ENTRIES < length (pc_entries c) then
        case oldest (pc_entries c) of
          None \<Rightarrow> c
        | Some (key, removed) \<Rightarrow>
            evict (c\<lparr>pc_entries := AList.delete key (pc_entries c),
                     pc_early := filter (\<lambda>(_, full). full \<noteq> key) (pc_early c),
                     pc_bytes := pc_bytes c - cp_estimated_bytes removed\<rparr>)
      else c)"
  by pat_completeness auto
termination
  by (relation "measure (\<lambda>c. length (pc_entries c))") (auto intro: length_delete_member dest!: oldest_member)

declare evict.simps [simp del]

definition cache_insert ::
  "type_sizes \<Rightarrow> (('op, 'rest) PhysicalPlan, 'v) PlanCache \<Rightarrow> EarlyPlanCacheKey \<Rightarrow> PlanCacheKey \<Rightarrow>
   ('op, 'rest) PhysicalPlan \<Rightarrow> bool \<Rightarrow> (str \<times> 'v) list \<Rightarrow> (('op, 'rest) PhysicalPlan, 'v) PlanCache" where
  "cache_insert sz c early_key key p force specialized =
     (let estimated = saturating_add_usize (estimated_plan_bytes sz key p) (length (ek_raw_source early_key)) in
      if MAX_CACHE_BYTES < estimated then c
      else
        let clock = pc_clock c + 1;
            rest = (case map_of (pc_entries c) key of
                Some previous \<Rightarrow> pc_bytes c - cp_estimated_bytes previous | None \<Rightarrow> pc_bytes c)
        in evict \<lparr>
             pc_entries = AList.update key
               \<lparr>cp_plan = p, cp_force_host_adaptive = force, cp_estimated_bytes = estimated, cp_last_used = clock,
                cp_specialized_parameters = specialized\<rparr> (AList.delete key (pc_entries c)),
             pc_early = AList.update early_key key (filter (\<lambda>(_, full). full \<noteq> key) (pc_early c)),
             pc_bytes = saturating_add_usize rest estimated,
             pc_clock = clock\<rparr>)"

section \<open>The process-wide cache\<close>

datatype try_lock = Acquired | Poisoned | WouldBlock

fun cache :: "try_lock \<Rightarrow> ('p, 'v) PlanCache \<Rightarrow> ('p, 'v) PlanCache option" where
  "cache Acquired c = Some c"
| "cache Poisoned c = Some c"
| "cache WouldBlock c = None"

definition plan_cache_get ::
  "('v \<Rightarrow> 'v \<Rightarrow> bool) \<Rightarrow> try_lock \<Rightarrow> ('p, 'v) PlanCache \<Rightarrow> PlanCacheKey \<Rightarrow> (str \<times> 'v) list \<Rightarrow>
   ('p \<times> bool) option \<times> ('p, 'v) PlanCache" where
  "plan_cache_get eq l c key parameters =
     (case cache l c of None \<Rightarrow> (None, c) | Some guard \<Rightarrow> cache_get eq guard key parameters)"

definition plan_cache_get_early ::
  "('v \<Rightarrow> 'v \<Rightarrow> bool) \<Rightarrow> try_lock \<Rightarrow> ('p, 'v) PlanCache \<Rightarrow> EarlyPlanCacheKey \<Rightarrow> (str \<times> 'v) list \<Rightarrow>
   ('p \<times> bool) option \<times> ('p, 'v) PlanCache" where
  "plan_cache_get_early eq l c key parameters =
     (case cache l c of None \<Rightarrow> (None, c) | Some guard \<Rightarrow> cache_get_early eq guard key parameters)"

definition plan_cache_insert ::
  "type_sizes \<Rightarrow> try_lock \<Rightarrow> (('op, 'rest) PhysicalPlan, 'v) PlanCache \<Rightarrow> EarlyPlanCacheKey \<Rightarrow> PlanCacheKey \<Rightarrow>
   ('op, 'rest) PhysicalPlan \<Rightarrow> bool \<Rightarrow> (str \<times> 'v) list \<Rightarrow> (('op, 'rest) PhysicalPlan, 'v) PlanCache" where
  "plan_cache_insert sz l c early_key key p force specialized =
     (case cache l c of None \<Rightarrow> c | Some guard \<Rightarrow> cache_insert sz guard early_key key p force specialized)"

lemma cache_eq: "cache l c = (if l = WouldBlock then None else Some c)"
  by (cases l) simp_all

end
