(* ===== verification/Plan_Cache_Laws.thy ===== *)
theory Plan_Cache_Laws
  imports Plan_Cache
begin

text \<open>
  Laws of the plan cache: its bounds and its two maps stay consistent under every sequence of
  operations, a hit is what was last stored under the key, and a plan that was just stored is found.
\<close>

section \<open>Sequences of operations\<close>

datatype ('op, 'rest, 'v) cache_op =
    Get PlanCacheKey "(str \<times> 'v) list"
  | GetEarly EarlyPlanCacheKey "(str \<times> 'v) list"
  | Insert EarlyPlanCacheKey PlanCacheKey "('op, 'rest) PhysicalPlan" bool "(str \<times> 'v) list"

fun cache_step ::
  "type_sizes \<Rightarrow> ('v \<Rightarrow> 'v \<Rightarrow> bool) \<Rightarrow> (('op, 'rest) PhysicalPlan, 'v) PlanCache \<Rightarrow> try_lock \<times> ('op, 'rest, 'v) cache_op \<Rightarrow>
   (('op, 'rest) PhysicalPlan, 'v) PlanCache" where
  "cache_step sz eq c (l, Get k ps) = snd (plan_cache_get eq l c k ps)"
| "cache_step sz eq c (l, GetEarly ek ps) = snd (plan_cache_get_early eq l c ek ps)"
| "cache_step sz eq c (l, Insert ek k p force sp) = plan_cache_insert sz l c ek k p force sp"

text \<open>What an operation does that gets the lock.\<close>

fun cache_apply ::
  "type_sizes \<Rightarrow> ('v \<Rightarrow> 'v \<Rightarrow> bool) \<Rightarrow> (('op, 'rest) PhysicalPlan, 'v) PlanCache \<Rightarrow> ('op, 'rest, 'v) cache_op \<Rightarrow>
   (('op, 'rest) PhysicalPlan, 'v) PlanCache" where
  "cache_apply sz eq c (Get k ps) = snd (cache_get eq c k ps)"
| "cache_apply sz eq c (GetEarly ek ps) = snd (cache_get_early eq c ek ps)"
| "cache_apply sz eq c (Insert ek k p force sp) = cache_insert sz c ek k p force sp"

lemma cache_step_eq: "cache_step sz eq c (l, a) = (if l = WouldBlock then c else cache_apply sz eq c a)"
  by (cases a) (simp_all add: plan_cache_get_def plan_cache_get_early_def plan_cache_insert_def cache_eq)

definition cache_run ::
  "type_sizes \<Rightarrow> ('v \<Rightarrow> 'v \<Rightarrow> bool) \<Rightarrow> (try_lock \<times> ('op, 'rest, 'v) cache_op) list \<Rightarrow> (('op, 'rest) PhysicalPlan, 'v) PlanCache" where
  "cache_run sz eq ops = foldl (cache_step sz eq) plan_cache_default ops"

lemma cache_run_simps [simp]:
  "cache_run sz eq [] = plan_cache_default"
  "cache_run sz eq (ops @ [a]) = cache_step sz eq (cache_run sz eq ops) a"
  by (simp_all add: cache_run_def)

section \<open>The invariant\<close>

abbreviation account :: "(PlanCacheKey \<times> ('p, 'v) CachedPlan) list \<Rightarrow> nat" where
  "account es \<equiv> sum_list (map (\<lambda>(_, e). cp_estimated_bytes e) es)"

text \<open>What every intermediate state keeps, and the bounds that hold between operations.\<close>

definition cache_consistent :: "('p, 'v) PlanCache \<Rightarrow> bool" where
  "cache_consistent c \<longleftrightarrow>
     distinct (map fst (pc_entries c)) \<and> distinct (map fst (pc_early c)) \<and> distinct (map snd (pc_early c)) \<and>
     snd ` set (pc_early c) \<subseteq> fst ` set (pc_entries c) \<and> pc_bytes c = account (pc_entries c)"

definition cache_ok :: "('p, 'v) PlanCache \<Rightarrow> bool" where
  "cache_ok c \<longleftrightarrow> cache_consistent c \<and> pc_bytes c \<le> MAX_CACHE_BYTES \<and> length (pc_entries c) \<le> MAX_CACHE_ENTRIES"

lemma account_delete:
  "distinct (map fst es) \<Longrightarrow> map_of es k = Some e \<Longrightarrow>
   account (AList.delete k es) = account es - cp_estimated_bytes e \<and> cp_estimated_bytes e \<le> account es"
proof (induction es)
  case (Cons x es)
  obtain l f where x: "x = (l, f)" by (cases x)
  show ?case
  proof (cases "l = k")
    case True
    with Cons.prems x have "AList.delete k es = es" "e = f"
      by (auto intro: AList.delete_idem)
    with x True show ?thesis by simp
  next
    case False
    with Cons x show ?thesis by auto
  qed
qed simp

lemma update_fresh: "map_of es k = None \<Longrightarrow> AList.update k e es = es @ [(k, e)]"
  by (induction es) (auto split: if_splits)

lemma map_of_delete_same: "map_of (AList.delete k es) k = None"
  by (simp add: AList.delete_conv)

lemma account_update_used:
  "map_of es k = Some e \<Longrightarrow> cp_estimated_bytes f = cp_estimated_bytes e \<Longrightarrow> account (AList.update k f es) = account es"
  by (induction es) (auto split: if_splits)

lemma length_update_used: "map_of es k = Some e \<Longrightarrow> length (AList.update k f es) = length es"
  by (induction es) (auto split: if_splits)

lemma keys_update_used: "map_of es k = Some e \<Longrightarrow> map fst (AList.update k f es) = map fst es"
  by (induction es) (auto split: if_splits)

lemma cache_get_ok:
  assumes "cache_ok c"
  shows "cache_ok (snd (cache_get eq c k ps))"
proof (cases "map_of (pc_entries c) k")
  case (Some e)
  note u = account_update_used [OF Some] length_update_used [OF Some] keys_update_used [OF Some]
  have "fst ` set (AList.update k f (pc_entries c)) = fst ` set (pc_entries c)" for f
    using arg_cong [OF u(3), of set] by simp
  then show ?thesis
    using assms Some u by (simp add: cache_get_def Let_def cache_ok_def cache_consistent_def)
qed (use assms in \<open>simp add: cache_get_def cache_ok_def cache_consistent_def\<close>)

lemma cache_get_early_ok: "cache_ok c \<Longrightarrow> cache_ok (snd (cache_get_early eq c ek ps))"
  by (simp add: cache_get_early_def cache_get_ok split: option.split)

text \<open>One turn of the eviction loop.\<close>

definition evict_step :: "PlanCacheKey \<Rightarrow> ('p, 'v) CachedPlan \<Rightarrow> ('p, 'v) PlanCache \<Rightarrow> ('p, 'v) PlanCache" where
  "evict_step k e c = c\<lparr>pc_entries := AList.delete k (pc_entries c),
     pc_early := filter (\<lambda>(_, full). full \<noteq> k) (pc_early c), pc_bytes := pc_bytes c - cp_estimated_bytes e\<rparr>"

definition over_limits :: "('p, 'v) PlanCache \<Rightarrow> bool" where
  "over_limits c \<longleftrightarrow> MAX_CACHE_BYTES < pc_bytes c \<or> MAX_CACHE_ENTRIES < length (pc_entries c)"

lemma evict_unfold:
  "over_limits c \<Longrightarrow> oldest (pc_entries c) = Some (k, e) \<Longrightarrow> evict c = evict (evict_step k e c)"
  "\<not> over_limits c \<Longrightarrow> evict c = c"
  "oldest (pc_entries c) = None \<Longrightarrow> evict c = c"
  by (subst evict.simps; simp add: over_limits_def evict_step_def)+

lemma evict_induct [case_names Stop Step]:
  assumes "\<And>c. evict c = c \<Longrightarrow> \<not> over_limits c \<or> pc_entries c = [] \<Longrightarrow> P c"
    and "\<And>c k e. over_limits c \<Longrightarrow> oldest (pc_entries c) = Some (k, e) \<Longrightarrow> evict c = evict (evict_step k e c) \<Longrightarrow>
      P (evict_step k e c) \<Longrightarrow> P c"
  shows "P c"
proof (induction c rule: evict.induct)
  case (1 c)
  show ?case
  proof (cases "over_limits c \<and> pc_entries c \<noteq> []")
    case True
    then obtain k e where o: "oldest (pc_entries c) = Some (k, e)"
      by (metis oldest_None_iff not_Some_eq surj_pair)
    from True have "over_limits c" ..
    then have l: "MAX_CACHE_BYTES < pc_bytes c \<or> MAX_CACHE_ENTRIES < length (pc_entries c)"
      by (simp add: over_limits_def)
    have "P (evict_step k e c)"
      unfolding evict_step_def by (rule 1 [OF l o refl])
    with \<open>over_limits c\<close> o show ?thesis
      using assms(2) evict_unfold(1) by blast
  next
    case False
    then show ?thesis
      using assms(1) [of c] evict_unfold(2,3) [of c] by auto
  qed
qed

lemma evict_step_consistent:
  assumes "cache_consistent c" "oldest (pc_entries c) = Some (k, e)"
  shows "cache_consistent (evict_step k e c)"
proof -
  have d: "distinct (map fst (pc_entries c))"
    using assms(1) by (simp add: cache_consistent_def)
  have "map_of (pc_entries c) k = Some e"
    using oldest_member [OF assms(2)] d by simp
  from account_delete [OF d this] have "account (AList.delete k (pc_entries c)) = pc_bytes c - cp_estimated_bytes e"
    using assms(1) by (simp add: cache_consistent_def)
  moreover have "snd ` set (filter (\<lambda>(_, full). full \<noteq> k) (pc_early c)) \<subseteq> fst ` set (AList.delete k (pc_entries c))"
  proof -
    have "snd ` set (filter (\<lambda>(_, full). full \<noteq> k) (pc_early c)) \<subseteq> snd ` set (pc_early c) - {k}"
      by auto
    also have "\<dots> \<subseteq> fst ` set (pc_entries c) - {k}"
      using assms(1) by (auto simp: cache_consistent_def)
    also have "\<dots> = fst ` set (AList.delete k (pc_entries c))"
      by (force simp: AList.delete_eq)
    finally show ?thesis .
  qed
  ultimately show ?thesis
    using assms(1) by (simp add: cache_consistent_def evict_step_def AList.distinct_delete distinct_map_filter)
qed

lemma evict_ok: "cache_consistent c \<Longrightarrow> cache_ok (evict c)"
proof (induction c rule: evict_induct)
  case (Stop c)
  then show ?case
    by (auto simp: cache_ok_def cache_consistent_def over_limits_def)
next
  case (Step c k e)
  then show ?case by (simp add: evict_step_consistent)
qed

text \<open>The state that an accepted insertion hands to the eviction loop.\<close>

definition insert_estimate :: "type_sizes \<Rightarrow> EarlyPlanCacheKey \<Rightarrow> PlanCacheKey \<Rightarrow> ('op, 'rest) PhysicalPlan \<Rightarrow> nat" where
  "insert_estimate sz ek k p = saturating_add_usize (estimated_plan_bytes sz k p) (length (ek_raw_source ek))"

definition inserted ::
  "type_sizes \<Rightarrow> (('op, 'rest) PhysicalPlan, 'v) PlanCache \<Rightarrow> EarlyPlanCacheKey \<Rightarrow> PlanCacheKey \<Rightarrow>
   ('op, 'rest) PhysicalPlan \<Rightarrow> bool \<Rightarrow> (str \<times> 'v) list \<Rightarrow> (('op, 'rest) PhysicalPlan, 'v) PlanCache" where
  "inserted sz c ek k p force sp = \<lparr>
     pc_entries = AList.delete k (pc_entries c) @
       [(k, \<lparr>cp_plan = p, cp_force_host_adaptive = force, cp_estimated_bytes = insert_estimate sz ek k p,
             cp_last_used = pc_clock c + 1, cp_specialized_parameters = sp\<rparr>)],
     pc_early = AList.update ek k (filter (\<lambda>(_, full). full \<noteq> k) (pc_early c)),
     pc_bytes = account (AList.delete k (pc_entries c)) + insert_estimate sz ek k p,
     pc_clock = pc_clock c + 1\<rparr>"

lemma cache_insert_eq:
  assumes "cache_ok c"
  shows "cache_insert sz c ek k p force sp =
    (if MAX_CACHE_BYTES < insert_estimate sz ek k p then c else evict (inserted sz c ek k p force sp))"
proof (cases "MAX_CACHE_BYTES < insert_estimate sz ek k p")
  case False
  have d: "distinct (map fst (pc_entries c))" "pc_bytes c = account (pc_entries c)" "pc_bytes c \<le> MAX_CACHE_BYTES"
    using assms by (simp_all add: cache_ok_def cache_consistent_def)
  have rest: "(case map_of (pc_entries c) k of Some previous \<Rightarrow> pc_bytes c - cp_estimated_bytes previous | None \<Rightarrow> pc_bytes c)
      = account (AList.delete k (pc_entries c))"
  proof (cases "map_of (pc_entries c) k")
    case None
    then have "AList.delete k (pc_entries c) = pc_entries c"
      by (simp add: AList.delete_idem map_of_eq_None_iff)
    with None d show ?thesis by simp
  next
    case (Some e)
    with account_delete [OF d(1) Some] d(2) show ?thesis by simp
  qed
  have "account (AList.delete k (pc_entries c)) \<le> MAX_CACHE_BYTES"
    unfolding rest [symmetric] using d(3) by (auto split: option.split)
  then have "saturating_add_usize (account (AList.delete k (pc_entries c))) (insert_estimate sz ek k p) =
      account (AList.delete k (pc_entries c)) + insert_estimate sz ek k p"
    using False by (simp add: saturating_add_usize_def MAX_CACHE_BYTES_def)
  with False show ?thesis
    unfolding cache_insert_def insert_estimate_def [symmetric] Let_def rest
    by (simp add: inserted_def update_fresh map_of_delete_same)
qed (simp add: cache_insert_def insert_estimate_def Let_def)

lemma delete_keys_set: "fst ` set (AList.delete k xs) = fst ` set xs - {k}"
  by (force simp: AList.delete_eq)

lemma snd_update_fresh:
  "distinct (map snd xs) \<Longrightarrow> v \<notin> snd ` set xs \<Longrightarrow> distinct (map snd (AList.update k v xs))"
proof (induction xs)
  case (Cons x xs)
  have "snd ` set (AList.update k v xs) \<subseteq> insert v (snd ` set xs)"
    by (induction xs) auto
  with Cons show ?case by (cases x) auto
qed simp

lemma snd_set_update: "snd ` set (AList.update k v xs) \<subseteq> insert v (snd ` set xs)"
  by (induction xs) auto

lemma inserted_consistent:
  assumes "cache_ok c"
  shows "cache_consistent (inserted sz c ek k p force sp)"
proof -
  have c: "distinct (map fst (pc_entries c))" "distinct (map fst (pc_early c))" "distinct (map snd (pc_early c))"
      "snd ` set (pc_early c) \<subseteq> fst ` set (pc_entries c)"
    using assms by (simp_all add: cache_ok_def cache_consistent_def)
  let ?early = "filter (\<lambda>(_, full). full \<noteq> k) (pc_early c)"
  have e: "distinct (map fst ?early)" "distinct (map snd ?early)" "k \<notin> snd ` set ?early"
      "snd ` set ?early \<subseteq> fst ` set (pc_entries c) - {k}"
    using c(2-4) by (auto simp: distinct_map_filter)
  have "snd ` set (AList.update ek k ?early) \<subseteq> insert k (fst ` set (AList.delete k (pc_entries c)))"
    using snd_set_update [of ek k ?early] e(4) delete_keys_set [of k "pc_entries c"] by blast
  then show ?thesis
    using c(1) e delete_keys_set [of k "pc_entries c"]
    by (simp add: cache_consistent_def inserted_def AList.distinct_delete AList.distinct_update snd_update_fresh)
qed

lemma cache_insert_ok: "cache_ok c \<Longrightarrow> cache_ok (cache_insert sz c ek k p force sp)"
  by (simp add: cache_insert_eq evict_ok inserted_consistent)

lemma cache_apply_ok: "cache_ok c \<Longrightarrow> cache_ok (cache_apply sz eq c a)"
  by (cases a) (simp_all add: cache_get_ok cache_get_early_ok cache_insert_ok)

lemma cache_step_ok: "cache_ok c \<Longrightarrow> cache_ok (cache_step sz eq c a)"
  by (cases a) (simp add: cache_step_eq cache_apply_ok)

lemma cache_run_ok: "cache_ok (cache_run sz eq ops)"
proof (induction ops rule: rev_induct)
  case Nil
  show ?case by (simp add: plan_cache_default_def cache_ok_def cache_consistent_def)
qed (simp add: cache_step_ok)

text \<open>
  C37. Whatever operations run, and whichever of them find the cache busy, the cache stays within 16 MiB of accounted bytes and 512 plans, the
  account is the sum of the sizes of the plans it holds, and the index of raw sources has one entry
  per plan at most and never points to a plan that is gone.
\<close>

theorem plan_cache_invariant:
  "let c = cache_run sz eq ops in
     length (pc_entries c) \<le> 512 \<and> pc_bytes c \<le> 16777216 \<and> pc_bytes c = account (pc_entries c) \<and>
     distinct (map fst (pc_entries c)) \<and> distinct (map fst (pc_early c)) \<and> distinct (map snd (pc_early c)) \<and>
     snd ` set (pc_early c) \<subseteq> fst ` set (pc_entries c)"
  using cache_run_ok [of sz eq ops]
  by (simp add: Let_def cache_ok_def cache_consistent_def MAX_CACHE_BYTES_def MAX_CACHE_ENTRIES_def)

section \<open>Hits\<close>

text \<open>
  The specification: the last accepted insertion under each full key, with the raw source it came from.
\<close>

type_synonym ('op, 'rest, 'v) stored_plans =
  "PlanCacheKey \<rightharpoonup> EarlyPlanCacheKey \<times> ('op, 'rest) PhysicalPlan \<times> bool \<times> (str \<times> 'v) list"

fun store ::
  "type_sizes \<Rightarrow> ('op, 'rest, 'v) stored_plans \<Rightarrow> try_lock \<times> ('op, 'rest, 'v) cache_op \<Rightarrow> ('op, 'rest, 'v) stored_plans" where
  "store sz m (l, Insert ek k p force sp) =
     (if l = WouldBlock \<or> MAX_CACHE_BYTES < insert_estimate sz ek k p then m else m(k \<mapsto> (ek, p, force, sp)))"
| "store sz m _ = m"

definition stored :: "type_sizes \<Rightarrow> (try_lock \<times> ('op, 'rest, 'v) cache_op) list \<Rightarrow> ('op, 'rest, 'v) stored_plans" where
  "stored sz ops = foldl (store sz) Map.empty ops"

lemma stored_simps [simp]: "stored sz [] = Map.empty" "stored sz (ops @ [a]) = store sz (stored sz ops) a"
  by (simp_all add: stored_def)

definition cache_holds :: "(('op, 'rest) PhysicalPlan, 'v) PlanCache \<Rightarrow> ('op, 'rest, 'v) stored_plans \<Rightarrow> bool" where
  "cache_holds c m \<longleftrightarrow>
     (\<forall>(k, e) \<in> set (pc_entries c).
        \<exists>ek. m k = Some (ek, cp_plan e, cp_force_host_adaptive e, cp_specialized_parameters e)) \<and>
     (\<forall>(ek, k) \<in> set (pc_early c). \<exists>r. m k = Some (ek, r))"

lemma cache_holds_subset:
  "cache_holds c m \<Longrightarrow> set (pc_entries d) \<subseteq> set (pc_entries c) \<Longrightarrow> set (pc_early d) \<subseteq> set (pc_early c) \<Longrightarrow> cache_holds d m"
  unfolding cache_holds_def by blast

lemma evict_subset:
  "set (pc_entries (evict c)) \<subseteq> set (pc_entries c) \<and> set (pc_early (evict c)) \<subseteq> set (pc_early c)"
proof (induction c rule: evict_induct)
  case (Step c k e)
  have "set (pc_entries (evict_step k e c)) \<subseteq> set (pc_entries c)" "set (pc_early (evict_step k e c)) \<subseteq> set (pc_early c)"
    by (auto simp: evict_step_def AList.delete_eq)
  with Step(3,4) show ?case by auto
qed simp

lemma set_alist_update: "set (AList.update k v xs) \<subseteq> insert (k, v) (set xs)"
  by (induction xs) auto

lemma cache_get_holds:
  assumes "cache_holds c m"
  shows "cache_holds (snd (cache_get eq c k ps)) m"
proof (cases "map_of (pc_entries c) k")
  case (Some e)
  let ?e = "e\<lparr>cp_last_used := pc_clock c + 1\<rparr>"
  have "(k, e) \<in> set (pc_entries c)" using map_of_SomeD [OF Some] .
  then have "\<exists>ek. m k = Some (ek, cp_plan ?e, cp_force_host_adaptive ?e, cp_specialized_parameters ?e)"
    using assms by (auto simp: cache_holds_def)
  then have "cache_holds (c\<lparr>pc_clock := pc_clock c + 1, pc_entries := AList.update k ?e (pc_entries c)\<rparr>) m"
    using assms set_alist_update [of k ?e "pc_entries c"] by (auto simp: cache_holds_def)
  then show ?thesis
    using assms Some by (simp add: cache_get_def Let_def) (simp add: cache_holds_def)
qed (use assms in \<open>simp add: cache_get_def cache_holds_def\<close>)

lemma inserted_holds:
  assumes "cache_holds c m"
  shows "cache_holds (inserted sz c ek k p force sp) (m(k \<mapsto> (ek, p, force, sp)))"
proof -
  let ?m = "m(k \<mapsto> (ek, p, force, sp))" and ?d = "inserted sz c ek k p force sp"
  have "\<exists>ek'. ?m k' = Some (ek', cp_plan e, cp_force_host_adaptive e, cp_specialized_parameters e)"
    if "(k', e) \<in> set (pc_entries ?d)" for k' e
  proof (cases "k' = k")
    case True
    have "(k, e) \<notin> set (AList.delete k (pc_entries c))"
      by (simp add: AList.delete_eq)
    with that True show ?thesis by (auto simp: inserted_def)
  next
    case False
    with that have "(k', e) \<in> set (pc_entries c)"
      by (auto simp: inserted_def AList.delete_eq)
    with assms False show ?thesis by (auto simp: cache_holds_def)
  qed
  moreover have "\<exists>r. ?m k' = Some (ek', r)" if "(ek', k') \<in> set (pc_early ?d)" for ek' k'
  proof (cases "(ek', k') = (ek, k)")
    case False
    then have "(ek', k') \<in> set (pc_early c)" "k' \<noteq> k"
      using that set_alist_update [of ek k "filter (\<lambda>(_, full). full \<noteq> k) (pc_early c)"]
      by (auto simp: inserted_def)
    with assms show ?thesis by (auto simp: cache_holds_def)
  qed simp
  ultimately show ?thesis
    unfolding cache_holds_def by blast
qed

lemma cache_step_holds:
  assumes "cache_ok c" "cache_holds c m"
  shows "cache_holds (cache_step sz eq c (l, a)) (store sz m (l, a))"
proof (cases a)
  case (GetEarly ek ps)
  then show ?thesis
    using assms(2) by (simp add: cache_step_eq cache_get_early_def cache_get_holds split: option.split)
next
  case (Insert ek k p force sp)
  have "cache_holds (evict (inserted sz c ek k p force sp)) (m(k \<mapsto> (ek, p, force, sp)))"
    using cache_holds_subset [OF inserted_holds [OF assms(2)]] evict_subset by blast
  then show ?thesis
    using assms(2) Insert by (simp add: cache_step_eq cache_insert_eq [OF assms(1)])
qed (use assms(2) in \<open>simp add: cache_step_eq cache_get_holds\<close>)

lemma cache_run_holds: "cache_holds (cache_run sz eq ops) (stored sz ops)"
proof (induction ops rule: rev_induct)
  case Nil
  show ?case by (simp add: plan_cache_default_def cache_holds_def)
next
  case (snoc a ops)
  then show ?case by (cases a) (simp only: cache_run_simps stored_simps cache_step_holds cache_run_ok)
qed

lemma cache_get_hit:
  assumes "cache_holds c m" "fst (cache_get eq c k ps) = Some (p, force)"
  shows "\<exists>ek sp. m k = Some (ek, p, force, sp) \<and> specialized_for eq sp ps"
proof -
  obtain e where e: "map_of (pc_entries c) k = Some e" "specialized_for eq (cp_specialized_parameters e) ps"
      "p = cp_plan e" "force = cp_force_host_adaptive e"
    using assms(2) by (auto simp: cache_get_def Let_def split: option.splits if_splits)
  then show ?thesis
    using assms(1) map_of_SomeD [OF e(1)] by (fastforce simp: cache_holds_def)
qed

lemma cache_get_early_hit:
  assumes "cache_holds c m" "fst (cache_get_early eq c ek ps) = Some (p, force)"
  shows "\<exists>full sp. m full = Some (ek, p, force, sp) \<and> specialized_for eq sp ps"
proof -
  obtain full where f: "map_of (pc_early c) ek = Some full" "fst (cache_get eq c full ps) = Some (p, force)"
    using assms(2) by (auto simp: cache_get_early_def split: option.splits)
  obtain ek' sp where s: "m full = Some (ek', p, force, sp)" "specialized_for eq sp ps"
    using cache_get_hit [OF assms(1) f(2)] by blast
  have "ek' = ek"
    using assms(1) map_of_SomeD [OF f(1)] s(1) by (fastforce simp: cache_holds_def)
  with s show ?thesis by blast
qed

text \<open>
  C38. The cache never answers a different question. A hit under a full key is the plan of the last
  accepted insertion under this key, and the parameters folded into it have the values now given. A hit
  under a raw source is moreover a plan that was stored for this very source.
\<close>

theorem plan_cache_hits_are_stored:
  assumes "c = cache_run sz eq ops"
  shows "(fst (cache_get eq c k ps) = Some (p, force) \<longrightarrow>
      (\<exists>ek sp. stored sz ops k = Some (ek, p, force, sp) \<and> specialized_for eq sp ps)) \<and>
    (fst (cache_get_early eq c ek ps) = Some (p, force) \<longrightarrow>
      (\<exists>full sp. stored sz ops full = Some (ek, p, force, sp) \<and> specialized_for eq sp ps))"
  unfolding assms using cache_get_hit [OF cache_run_holds] cache_get_early_hit [OF cache_run_holds] by blast

theorem plan_cache_hits_are_stored_witness:
  "let p = \<lparr>operators = [7::nat], unions = [], plan_rest = ()\<rparr>;
       k = PlanCacheKey 1 [0, 65] [] [] [] 0 0 0 0 0 0 True 0 10;
       ek = EarlyPlanCacheKey 1 [65] [] [] [] 0 0 0 0 True 0 10;
       sz = \<lparr>key_size = 200, plan_size = 300, operator_size = 100\<rparr>;
       ops = [(WouldBlock, Insert ek k p False []), (Acquired, Insert ek k p True [([112], 3::nat)])];
       c = cache_run sz (=) ops
   in fst (cache_get (=) c k [([112], 3)]) = Some (p, True) \<and> fst (cache_get (=) c k [([112], 4)]) = None \<and>
      (\<exists>full sp. stored sz ops full = Some (ek, p, True, sp) \<and> specialized_for (=) sp [([112], 3)])"
proof -
  define p where "p = \<lparr>operators = [7::nat], unions = [], plan_rest = ()\<rparr>"
  define k where "k = PlanCacheKey 1 [0, 65] [] [] [] 0 0 0 0 0 0 True 0 10"
  define ek where "ek = EarlyPlanCacheKey 1 [65] [] [] [] 0 0 0 0 True 0 10"
  define sz where "sz = \<lparr>key_size = 200, plan_size = 300, operator_size = 100\<rparr>"
  define ops where "ops = [(WouldBlock, Insert ek k p False []), (Acquired, Insert ek k p True [([112], 3::nat)])]"
  have "fst (cache_get (=) (cache_run sz (=) ops) k [([112], 3)]) = Some (p, True)"
    "fst (cache_get (=) (cache_run sz (=) ops) k [([112], 4)]) = None"
    "fst (cache_get_early (=) (cache_run sz (=) ops) ek [([112], 3)]) = Some (p, True)"
    unfolding p_def k_def ek_def sz_def ops_def by code_simp+
  with plan_cache_hits_are_stored [OF refl, where sz = sz and eq = "(=)" and ops = ops and k = k and ek = ek and p = p
      and force = True and ps = "[([112], 3)]"]
  show ?thesis
    unfolding Let_def p_def [symmetric] k_def [symmetric] ek_def [symmetric] sz_def [symmetric] ops_def [symmetric]
    by blast
qed

section \<open>The newest plan survives\<close>

lemma oldest_least: "oldest xs = Some x \<Longrightarrow> y \<in> set xs \<Longrightarrow> \<not> older y x"
proof (induction xs arbitrary: x)
  case (Cons z zs)
  show ?case
  proof (cases "oldest zs")
    case None
    with Cons.prems show ?thesis by (simp add: older_def)
  next
    case (Some w)
    have "\<not> older y w" if "y \<in> set zs"
      using Cons.IH [OF Some that] .
    with Cons.prems Some show ?thesis
      by (auto simp: older_def split: if_splits)
  qed
qed simp

definition newest :: "('p, 'v) PlanCache \<Rightarrow> PlanCacheKey \<Rightarrow> ('p, 'v) CachedPlan \<Rightarrow> bool" where
  "newest c k e \<longleftrightarrow> (k, e) \<in> set (pc_entries c) \<and>
     (\<forall>(k', e') \<in> set (pc_entries c). k' \<noteq> k \<longrightarrow> cp_last_used e' < cp_last_used e)"

lemma distinct_all_same:
  assumes "distinct xs" "a \<in> set xs" "\<And>x. x \<in> set xs \<Longrightarrow> x = a"
  shows "xs = [a]"
proof (cases xs)
  case (Cons y ys)
  have "y = a" by (rule assms(3)) (simp add: Cons)
  have "ys = []"
  proof (rule ccontr)
    assume "ys \<noteq> []"
    then have "hd ys \<in> set ys" by simp
    then have "hd ys = a" by (intro assms(3)) (simp add: Cons)
    with \<open>hd ys \<in> set ys\<close> \<open>y = a\<close> assms(1) show False by (simp add: Cons)
  qed
  with Cons \<open>y = a\<close> show ?thesis by simp
qed (use assms(2) in simp)

lemma newest_not_oldest:
  assumes "cache_consistent c" "over_limits c" "newest c k e" "cp_estimated_bytes e \<le> MAX_CACHE_BYTES"
    "oldest (pc_entries c) = Some (k', e')"
  shows "k' \<noteq> k"
proof
  assume "k' = k"
  have d: "distinct (map fst (pc_entries c))" "(k, e) \<in> set (pc_entries c)"
    using assms(1,3) by (simp_all add: cache_consistent_def newest_def)
  have u: "f = e" if "(k, f) \<in> set (pc_entries c)" for f
    using map_of_is_SomeI [OF d(1) that] map_of_is_SomeI [OF d] by simp
  have "e' = e"
    by (rule u) (use oldest_member [OF assms(5)] \<open>k' = k\<close> in simp)
  have all: "x = (k, e)" if m: "x \<in> set (pc_entries c)" for x
  proof -
    obtain l f where x: "x = (l, f)" by (cases x)
    have "\<not> cp_last_used f < cp_last_used e"
      using oldest_least [OF assms(5) m] by (simp add: older_def x \<open>k' = k\<close> \<open>e' = e\<close>)
    then have "l = k"
      using assms(3) m unfolding newest_def x by blast
    with u m show ?thesis unfolding x by blast
  qed
  have "distinct (pc_entries c)"
    using d(1) by (simp add: distinct_map)
  from distinct_all_same [OF this d(2) all] have "pc_entries c = [(k, e)]" .
  with assms(1,2,4) show False
    unfolding over_limits_def cache_consistent_def MAX_CACHE_ENTRIES_def by simp
qed

lemma newest_step:
  assumes "newest c k e" "k' \<noteq> k"
  shows "newest (evict_step k' e' c) k e"
  using assms by (auto simp: newest_def evict_step_def AList.delete_eq)

lemma evict_newest:
  assumes "cache_consistent c" "newest c k e" "cp_estimated_bytes e \<le> MAX_CACHE_BYTES" "(ek, k) \<in> set (pc_early c)"
  shows "newest (evict c) k e \<and> (ek, k) \<in> set (pc_early (evict c))"
  using assms
proof (induction c rule: evict_induct)
  case (Step c k' e')
  have "k' \<noteq> k"
    using newest_not_oldest [OF Step.prems(1) Step.hyps(1) Step.prems(2,3) Step.hyps(2)] .
  have "(ek, k) \<in> set (pc_early (evict_step k' e' c))"
    using Step.prems(4) \<open>k' \<noteq> k\<close> by (simp add: evict_step_def)
  with Step.IH [OF evict_step_consistent [OF Step.prems(1) Step.hyps(2)] newest_step [OF Step.prems(2) \<open>k' \<noteq> k\<close>] Step.prems(3)]
  show ?case by (simp add: Step.hyps(3))
qed simp

text \<open>As long as the clock has not wrapped, no plan is younger than the clock.\<close>

definition clock_ahead :: "('p, 'v) PlanCache \<Rightarrow> nat \<Rightarrow> bool" where
  "clock_ahead c n \<longleftrightarrow> unat (pc_clock c) \<le> n \<and> (\<forall>(_, e) \<in> set (pc_entries c). cp_last_used e \<le> pc_clock c)"

lemma clock_tick:
  fixes clock :: u64
  assumes "unat clock \<le> n" "n < 2 ^ 64 - 1"
  shows "unat (clock + 1) \<le> Suc n \<and> clock < clock + 1"
proof -
  have "unat (- 1 :: u64) = 2 ^ 64 - 1"
    by (simp add: unsigned_minus_1_eq_mask mask_eq_exp_minus_1)
  then have "clock \<noteq> - 1"
    using assms by auto
  then have "1 + clock \<noteq> 0"
    by (simp add: add_eq_0_iff)
  from unatSuc [OF this] have "unat (clock + 1) = unat clock + 1"
    by (simp add: add.commute)
  with assms(1) show ?thesis by (simp add: word_less_nat_alt)
qed

lemma clock_ahead_mono:
  "clock_ahead c n \<Longrightarrow> set (pc_entries d) \<subseteq> set (pc_entries c) \<Longrightarrow> pc_clock d = pc_clock c \<Longrightarrow> n \<le> m \<Longrightarrow> clock_ahead d m"
  by (auto simp: clock_ahead_def)

lemma evict_clock [simp]: "pc_clock (evict c) = pc_clock c"
  by (induction c rule: evict_induct) (simp_all add: evict_step_def)

lemma cache_get_clock_ahead:
  assumes "clock_ahead c n" "n < 2 ^ 64 - 1"
  shows "clock_ahead (snd (cache_get eq c k ps)) (Suc n)"
proof -
  have tick: "unat (pc_clock c + 1) \<le> Suc n" "pc_clock c < pc_clock c + 1"
    using clock_tick [OF _ assms(2), of "pc_clock c"] assms(1) by (simp_all add: clock_ahead_def)
  have le: "cp_last_used e \<le> pc_clock c + 1" if "(k', e) \<in> set (pc_entries c)" for k' e
    using assms(1) that tick(2) by (fastforce simp: clock_ahead_def)
  have upd: "cp_last_used e \<le> pc_clock c + 1"
    if "(k', e) \<in> set (AList.update k (f\<lparr>cp_last_used := pc_clock c + 1\<rparr>) (pc_entries c))" for k' e f
    using subsetD [OF set_alist_update that] le by auto
  show ?thesis
    using tick(1) le upd by (auto simp: cache_get_def Let_def clock_ahead_def split: option.split)
qed

lemma inserted_clock:
  assumes "clock_ahead c n" "n < 2 ^ 64 - 1"
  shows "clock_ahead (inserted sz c ek k p force sp) (Suc n)"
    and "newest (inserted sz c ek k p force sp) k
      \<lparr>cp_plan = p, cp_force_host_adaptive = force, cp_estimated_bytes = insert_estimate sz ek k p,
       cp_last_used = pc_clock c + 1, cp_specialized_parameters = sp\<rparr>"
proof -
  have tick: "unat (pc_clock c + 1) \<le> Suc n" "pc_clock c < pc_clock c + 1"
    using clock_tick [OF _ assms(2), of "pc_clock c"] assms(1) by (simp_all add: clock_ahead_def)
  have less: "cp_last_used e < pc_clock c + 1" if "(k', e) \<in> set (AList.delete k (pc_entries c))" for k' e
    using assms(1) that tick(2) by (fastforce simp: clock_ahead_def AList.delete_eq)
  show "clock_ahead (inserted sz c ek k p force sp) (Suc n)"
    using tick(1) less by (auto simp: clock_ahead_def inserted_def intro: less_imp_le)
  show "newest (inserted sz c ek k p force sp) k
      \<lparr>cp_plan = p, cp_force_host_adaptive = force, cp_estimated_bytes = insert_estimate sz ek k p,
       cp_last_used = pc_clock c + 1, cp_specialized_parameters = sp\<rparr>"
    using less by (auto simp: newest_def inserted_def)
qed

lemma cache_step_clock_ahead:
  assumes "cache_ok c" "clock_ahead c n" "n < 2 ^ 64 - 1"
  shows "clock_ahead (cache_step sz eq c (l, a)) (Suc n)"
proof (cases a)
  case (GetEarly ek ps)
  then show ?thesis
    using assms(2) clock_ahead_mono [OF assms(2), of c "Suc n"] cache_get_clock_ahead [OF assms(2,3)]
    by (simp add: cache_step_eq cache_get_early_def split: option.split)
next
  case (Insert ek k p force sp)
  show ?thesis
    using clock_ahead_mono [OF assms(2), of c "Suc n"] Insert
      clock_ahead_mono [OF inserted_clock(1) [OF assms(2,3)] conjunct1 [OF evict_subset] evict_clock order_refl]
    by (simp add: cache_step_eq cache_insert_eq [OF assms(1)])
qed (use cache_get_clock_ahead [OF assms(2,3)] clock_ahead_mono [OF assms(2), of c "Suc n"] in \<open>simp add: cache_step_eq\<close>)

lemma cache_run_clock_ahead: "length ops < 2 ^ 64 \<Longrightarrow> clock_ahead (cache_run sz eq ops) (length ops)"
proof (induction ops rule: rev_induct)
  case Nil
  show ?case by (simp add: plan_cache_default_def clock_ahead_def)
next
  case (snoc a ops)
  then show ?case by (cases a) (simp del: cache_step.simps add: cache_step_clock_ahead cache_run_ok)
qed

text \<open>
  C39. A plan that fits into the cache is found right after it was stored, under its full key and under
  its raw source, whatever ran before: eviction makes room with the other plans. The count of operations
  keeps the 64-bit clock from wrapping.
\<close>

theorem plan_cache_keeps_newest:
  assumes "length ops < 2 ^ 64 - 1" "insert_estimate sz ek k p \<le> MAX_CACHE_BYTES" "specialized_for eq sp ps"
  shows "let c = cache_insert sz (cache_run sz eq ops) ek k p force sp in
    fst (cache_get eq c k ps) = Some (p, force) \<and> fst (cache_get_early eq c ek ps) = Some (p, force)"
proof -
  let ?c = "cache_run sz eq ops"
  let ?d = "inserted sz ?c ek k p force sp"
  let ?e = "\<lparr>cp_plan = p, cp_force_host_adaptive = force, cp_estimated_bytes = insert_estimate sz ek k p,
    cp_last_used = pc_clock ?c + 1, cp_specialized_parameters = sp\<rparr>"
  have ok: "cache_ok ?c" by (rule cache_run_ok)
  have ins: "cache_insert sz ?c ek k p force sp = evict ?d"
    using assms(2) by (simp add: cache_insert_eq [OF ok])
  have "(ek, k) \<in> set (pc_early ?d)"
    by (simp add: inserted_def map_of_SomeD AList.update_conv')
  then have kept: "newest (evict ?d) k ?e" "(ek, k) \<in> set (pc_early (evict ?d))"
    using evict_newest [OF inserted_consistent [OF ok] inserted_clock(2) [OF cache_run_clock_ahead assms(1)]] assms
    by simp_all
  have "cache_consistent (evict ?d)"
    using evict_ok [OF inserted_consistent [OF ok]] by (simp add: cache_ok_def)
  with kept have "map_of (pc_entries (evict ?d)) k = Some ?e" "map_of (pc_early (evict ?d)) ek = Some k"
    by (simp_all add: cache_consistent_def newest_def)
  with assms(3) show ?thesis
    unfolding Let_def ins by (simp add: cache_get_early_def cache_get_def Let_def)
qed

theorem plan_cache_keeps_newest_witness:
  "let p = \<lparr>operators = [7::nat], unions = [(True, [8])], plan_rest = ()\<rparr>;
       k = PlanCacheKey 1 [0, 65] [] [] [] 0 0 0 0 0 0 True 0 10;
       ek = EarlyPlanCacheKey 1 [65] [] [] [] 0 0 0 0 True 0 10;
       sz = \<lparr>key_size = 200, plan_size = 300, operator_size = 16000000\<rparr>;
       c = cache_insert sz (cache_run sz (=) [(Poisoned, Get k [([112], 3::nat)])]) ek k p True []
   in insert_estimate sz ek k p = 32001533 \<and> MAX_CACHE_BYTES < insert_estimate sz ek k p \<and>
      fst (cache_get (=) c k []) = None \<and>
      fst (cache_get_early (=) (cache_insert (sz\<lparr>operator_size := 8000000\<rparr>) c ek k p True []) ek []) = Some (p, True)"
proof -
  define p where "p = \<lparr>operators = [7::nat], unions = [(True, [8])], plan_rest = ()\<rparr>"
  define k where "k = PlanCacheKey 1 [0, 65] [] [] [] 0 0 0 0 0 0 True 0 10"
  define ek where "ek = EarlyPlanCacheKey 1 [65] [] [] [] 0 0 0 0 True 0 10"
  define sz where "sz = \<lparr>key_size = 200, plan_size = 300, operator_size = 16000000\<rparr>"
  define ops :: "(try_lock \<times> (nat, unit, nat) cache_op) list" where "ops = [(Poisoned, Get k [([112], 3)])]"
  have small: "insert_estimate (sz\<lparr>operator_size := 8000000\<rparr>) ek k p \<le> MAX_CACHE_BYTES"
    and big: "insert_estimate sz ek k p = 32001533" "MAX_CACHE_BYTES < insert_estimate sz ek k p"
    unfolding p_def k_def ek_def sz_def by code_simp+
  have same: "cache_insert sz (cache_run sz (=) ops) ek k p True [] = cache_run (sz\<lparr>operator_size := 8000000\<rparr>) (=) ops"
    using big(2) by (simp add: cache_insert_eq cache_run_ok) (simp add: ops_def cache_run_def)
  have miss: "fst (cache_get (=) (cache_run (sz\<lparr>operator_size := 8000000\<rparr>) (=) ops) k []) = None"
    unfolding p_def k_def ek_def sz_def ops_def by code_simp
  have "specialized_for (=) ([] :: (str \<times> nat) list) []" by (simp add: specialized_for_def)
  with plan_cache_keeps_newest [OF _ small, where ops = ops and eq = "(=)" and sp = "[]" and ps = "[]" and force = True]
    big same miss show ?thesis
    unfolding Let_def p_def [symmetric] k_def [symmetric] ek_def [symmetric] sz_def [symmetric] ops_def [symmetric]
    by (simp add: ops_def)
qed

end
