(* ===== verification/Spec2Isabelle.thy ===== *)
theory Spec2Isabelle
  imports Equality_Key Admission Paged_Vec Temporal_Laws Numeric_List Plan_Cache_Laws
begin

text \<open>
  IronGraph: a verification development for the value layer, the lexer and the plan cache, the write
  admission and the persistent collections of the graph database.

  \<^bold>\<open>The program.\<close> \<^verbatim>\<open>crates/types\<close> defines errors, scalar values and flat canonical documents that hold
  nested properties. \<^verbatim>\<open>crates/execution\<close> lifts them to result values, orders them totally, turns them
  into radix keys for sorting and evaluates temporal values. \<^verbatim>\<open>crates/cypher\<close> puts the three-valued
  semantics of the query language and its grouping keys on top; it lexes query texts and keeps the plans
  made from them in a bounded cache under keys computed from the tokens. \<^verbatim>\<open>crates/graph\<close> stores columns in
  persistent collections and shared views, and \<^verbatim>\<open>crates/storage\<close> admits writes under limits.

  \<^bold>\<open>Conventions.\<close> Fixed-width integers and float bit patterns are words; \<open>usize\<close> is a natural number
  below \<open>2 ^ 64\<close>; byte slices and strings are lists of bytes, and a query text, which the lexer reads by
  characters, is a list of code points. \<open>Result\<close> is a sum, \<open>?\<close> is \<open>and_then\<close>, and
  a panic is \<open>None\<close>. Unchecked additions of \<open>usize\<close> wrap, as in the release profile. Whether an
  allocation succeeds is an argument, \<open>allocator\<close>: the theorems on round trips, on the validator, on the
  encoding of documents and on the length of order keys assume of the reader or writer they name that
  it is granted memory (\<open>granting\<close>); the others hold for every outcome of the fallible reservations.

  \<^bold>\<open>The theories and the code they model.\<close>

  \<^item> \<open>Prelude\<close>: \<^verbatim>\<open>types/src/error.rs\<close>, results, orderings, ordered maps, loops that stop early.
  \<^item> \<open>Byte_Codec\<close>: integers as bytes, UTF-8, float classes. \<open>Scalar_Value\<close>: \<^verbatim>\<open>types/src/types.rs\<close>.
  \<^item> \<open>Document_Encode\<close>, \<open>Document_Decode\<close>: \<^verbatim>\<open>types/src/document.rs\<close>, the encoder, decoder and validator
    as loops over explicit stacks. \<open>Document_Canonical\<close>, \<open>Document_Roundtrip\<close> and \<open>Document_Validate\<close>
    show that the format is canonical, that decoding inverts encoding, and that the validator accepts
    and rejects exactly as the decoder does. \<open>Numeric_List\<close>: the reader of vector properties, which agrees
    with the decoder without building its tree.
  \<^item> \<open>Result_Value\<close>: \<^verbatim>\<open>execution/src/result.rs\<close>, with the round trip through stored properties, which
    opens the documents stored inside a value.
  \<^item> \<open>Ordered_Number\<close>, \<open>Total_Compare\<close>: \<^verbatim>\<open>execution/src/ordering.rs\<close>, the exact comparison of integers
    with floats and the total order of values.
  \<^item> \<open>Order_Codec\<close>, \<open>Order_Key\<close>: \<^verbatim>\<open>execution/src/order_key.rs\<close>. The locale \<open>order_codec\<close> states the one law
    of an order-preserving encoding; it is interpreted on every digit codec and on whole values, and
    gives order preservation, prefix freedom and the preorder laws.
  \<^item> \<open>Cypher_Value\<close>: \<^verbatim>\<open>cypher/src/value.rs\<close>, equality, ordering predicates and \<open>IN\<close>. \<open>Equality_Key\<close>:
    \<^verbatim>\<open>cypher/src/equality_key.rs\<close>, whose keys agree with equality, and decide it on readable values without
    null, NaN and paths.
  \<^item> \<open>Unicode_Text\<close>: characters, their UTF-8 form, and the parsing of numbers that the lexer uses.
    \<open>Lexer\<close>: \<^verbatim>\<open>cypher/src/lexer.rs\<close>. \<open>Lexer_Grammar\<close>: the layout and the spelling of tokens as predicates
    on texts, which the operations of the lexer meet. \<open>Lexer_Laws\<close>, \<open>Lexer_Text\<close>: the source is layout and
    spellings in turn, with each span at its spelling, quoted texts are read back exactly, and no token
    holds more text than the source.
  \<^item> \<open>Plan_Key\<close>, \<open>Plan_Cache\<close>, \<open>Plan_Cache_Laws\<close>: \<^verbatim>\<open>cypher/src/plan_cache.rs\<close>, the keys and the cache, with
    its bounds, the refinement of the map of stored plans, and the survival of the newest plan. The
    present theory composes lexer, keys and cache: a cached plan answers the query it is fetched for.
  \<^item> \<open>Temporal\<close>, \<open>Temporal_Laws\<close>: \<^verbatim>\<open>execution/src/temporal.rs\<close>, accessors, comparison, duration arithmetic
    and formatting, with the typing of accessors, the order that comparison induces and the exactness
    of the arithmetic.
  \<^item> \<open>Admission\<close>: \<^verbatim>\<open>storage/src/admission.rs\<close> as a step relation, with its accounting invariant, the
    control reserve, and the exact conditions and codes of refusal.
  \<^item> \<open>Persistent_Map\<close>, \<open>Radix_Refinement\<close>: the radix map of \<^verbatim>\<open>graph/src/persistent.rs\<close>. The locale
    \<open>dictionary\<close> is the contract of a finite map, interpreted on the radix map.
  \<^item> \<open>Shared_Flat\<close>: \<^verbatim>\<open>graph/src/shared.rs\<close>, with the bounds of every view. \<open>Paged_Vec\<close>: the paged vector of
    \<^verbatim>\<open>graph/src/persistent.rs\<close>, which refines a list.

  \<^bold>\<open>Bounds and termination.\<close> No definition uses fuel. The document loops end because every turn reads at
  least a tag byte, the radix recursion because the 32 digits of a key run out, the loop of month
  arithmetic because the day decreases, the loops of the lexer because each turn reads a character, and
  the eviction loop of the plan cache because each turn removes a plan.

  \<^bold>\<open>Parameters.\<close> \<open>chrono\<close> and \<open>chrono_tz\<close> are the record \<open>chrono\<close> of \<open>Temporal\<close>; a theorem that relies on
  the calendar has \<open>calendar_laws\<close> as a hypothesis, which holds of a Gregorian calendar. The float order
  of the \<open>ordered-float\<close> crate is a parameter of \<open>Total_Compare\<close> with \<open>ordered_float_law\<close>. The Unicode
  tables of alphabetic and numeric characters are the record \<open>char_tables\<close>. The hash of the \<open>blake3\<close> crate,
  the sizes of the compiled types, the outcome of \<open>try_lock\<close> and the equality of parameter values are
  arguments of the plan cache, on which its theorems assume nothing.

  \<^bold>\<open>Not modelled.\<close> The graph store, its indexes and its checkpoints, the query parser, binder, planner and
  executor, the CPU and GPU back ends, the server, the embedding models and the language bindings:
  they are I/O, calls into external crates and devices, or evaluation over the store. Of the modelled
  files: text rendering for debugging, \<open>serde\<close> visitors that only forward, and the byte statistics
  of \<^verbatim>\<open>graph/src/persistent.rs\<close>, which observe pointer identity and vector capacity.
\<close>

section \<open>From query text to cached plan\<close>

text \<open>The inputs from which the full key of a query is computed.\<close>

record query_input =
  qi_project :: u128
  qi_source :: text_str
  qi_schema_generation :: bytes
  qi_index_generation :: bytes
  qi_parameters :: "(str \<times> ResultValue) list"
  qi_statistics_revision :: u64
  qi_backend :: BackendKind
  qi_backend_bits :: u64
  qi_capabilities :: BindCapabilities
  qi_layer_bits :: u8
  qi_temporal_mode :: u8
  qi_checkpoint_eligible :: bool
  qi_scratch_budget :: nat
  qi_max_rows :: nat

definition query_key :: "(bytes \<Rightarrow> bytes) \<Rightarrow> char_tables \<Rightarrow> query_input \<Rightarrow> PlanCacheKey result" where
  "query_key hash t q =
     plan_cache_key_new hash t (qi_project q) (qi_source q) (qi_schema_generation q) (qi_index_generation q)
       (qi_parameters q) (qi_statistics_revision q) (qi_backend q) (qi_backend_bits q) (qi_capabilities q)
       (qi_layer_bits q) (qi_temporal_mode q) (qi_checkpoint_eligible q) (qi_scratch_budget q) (qi_max_rows q)"

definition query_early_key :: "(bytes \<Rightarrow> bytes) \<Rightarrow> query_input \<Rightarrow> EarlyPlanCacheKey result" where
  "query_early_key hash q =
     early_plan_cache_key_new hash (qi_project q) (qi_source q) (qi_schema_generation q) (qi_index_generation q)
       (qi_parameters q) (qi_statistics_revision q) (qi_backend q) (qi_backend_bits q) (qi_capabilities q)
       (qi_checkpoint_eligible q) (qi_scratch_budget q) (qi_max_rows q)"

text \<open>Two queries that planning cannot tell apart but by their parameter values.\<close>

definition same_question :: "(bytes \<Rightarrow> bytes) \<Rightarrow> char_tables \<Rightarrow> query_input \<Rightarrow> query_input \<Rightarrow> bool" where
  "same_question hash t q r \<longleftrightarrow>
     (\<exists>as bs. lex t (qi_source q) = Ok as \<and> lex t (qi_source r) = Ok bs \<and> map token_kind as = map token_kind bs) \<and>
     hash (parameter_shape (qi_parameters q)) = hash (parameter_shape (qi_parameters r)) \<and>
     q\<lparr>qi_source := [], qi_parameters := []\<rparr> = r\<lparr>qi_source := [], qi_parameters := []\<rparr>"

text \<open>
  The early key stands for the text itself, which determines the layers and the temporal mode.
\<close>

definition same_text :: "(bytes \<Rightarrow> bytes) \<Rightarrow> query_input \<Rightarrow> query_input \<Rightarrow> bool" where
  "same_text hash q r \<longleftrightarrow>
     hash (parameter_shape (qi_parameters q)) = hash (parameter_shape (qi_parameters r)) \<and>
     q\<lparr>qi_parameters := [], qi_layer_bits := 0, qi_temporal_mode := 0\<rparr> =
     r\<lparr>qi_parameters := [], qi_layer_bits := 0, qi_temporal_mode := 0\<rparr>"

definition well_formed_query :: "query_input \<Rightarrow> bool" where
  "well_formed_query q \<longleftrightarrow> list_all valid_char (qi_source q) \<and> utf8_len (qi_source q) < 2 ^ 64"

lemma backend_byte_inject: "backend_byte a = backend_byte b \<longleftrightarrow> a = b"
  by (cases a; cases b) simp_all

lemma bind_capability_bits_inject: "bind_capability_bits a = bind_capability_bits b \<longleftrightarrow> a = b"
proof
  assume eq: "bind_capability_bits a = bind_capability_bits b"
  have bits: "bit (bind_capability_bits c) 0 = cap_write c" "bit (bind_capability_bits c) 1 = cap_schema c"
    "bit (bind_capability_bits c) 2 = cap_knowledge_write c" "bit (bind_capability_bits c) 3 = cap_workspace_write c"
    "bit (bind_capability_bits c) 4 = cap_require_native_execution c" for c :: BindCapabilities
    by (simp_all add: bind_capability_bits_def bit_simps)
  show "a = b"
    using bits [of a, unfolded eq] bits [of b] by (cases a; cases b) simp
qed simp

lemma query_key_same:
  assumes "query_key hash t q = Ok k" "query_key hash t r = Ok k" "well_formed_query q" "well_formed_query r"
  shows "same_question hash t q r"
proof -
  obtain as bs where l: "lex t (qi_source q) = Ok as" "lex t (qi_source r) = Ok bs"
    using assms(1,2)
    by (auto simp: query_key_def plan_cache_key_new_def normalized_source_def and_then_eq_Inr_iff)
  have n: "normalized_source t (qi_source q) = normalized_source t (qi_source r)"
    using assms(1,2) by (auto simp: query_key_def plan_cache_key_new_def and_then_eq_Inr_iff)
  then have "map token_kind as = map token_kind bs"
    using normalized_source_inject [OF _ _ _ _ l] assms(3,4) by (simp add: well_formed_query_def)
  then show ?thesis
    using assms(1,2) l
    by (auto simp: same_question_def query_key_def plan_cache_key_new_def and_then_eq_Inr_iff backend_byte_inject
        bind_capability_bits_inject)
qed

lemma query_early_key_same:
  assumes "query_early_key hash q = Ok k" "query_early_key hash r = Ok k" "well_formed_query q" "well_formed_query r"
  shows "same_text hash q r"
proof -
  have "as_bytes (qi_source q) = as_bytes (qi_source r)"
    using assms(1,2) by (auto simp: query_early_key_def early_plan_cache_key_new_def)
  then have "qi_source q = qi_source r"
    using as_bytes_inject assms(3,4) by (simp add: well_formed_query_def)
  then show ?thesis
    using assms(1,2)
    by (auto simp: same_text_def query_early_key_def early_plan_cache_key_new_def backend_byte_inject
        bind_capability_bits_inject)
qed

text \<open>
  An insertion made for a query: both keys are computed from it, and the plan is one that planning gives
  for it when the parameters \<open>sp\<close> are folded in.
\<close>

fun inserted_for ::
  "(bytes \<Rightarrow> bytes) \<Rightarrow> char_tables \<Rightarrow> (query_input \<Rightarrow> ('op, 'rest) PhysicalPlan \<Rightarrow> (str \<times> ResultValue) list \<Rightarrow> bool) \<Rightarrow>
   try_lock \<times> ('op, 'rest, ResultValue) cache_op \<Rightarrow> bool" where
  "inserted_for hash t planned (l, Insert ek k p force sp) \<longleftrightarrow>
     (\<exists>q. well_formed_query q \<and> query_key hash t q = Ok k \<and> query_early_key hash q = Ok ek \<and> planned q p sp)"
| "inserted_for hash t planned _ \<longleftrightarrow> True"

lemma stored_inserted: "stored sz ops k = Some (ek, p, force, sp) \<Longrightarrow> \<exists>l. (l, Insert ek k p force sp) \<in> set ops"
proof (induction ops rule: rev_induct)
  case (snoc a ops)
  show ?case
  proof (cases "stored sz ops k = Some (ek, p, force, sp)")
    case True
    with snoc.IH show ?thesis by auto
  next
    case False
    obtain l b where a: "a = (l, b)" by (cases a)
    from snoc.prems False show ?thesis
      unfolding a by (cases b) (auto split: if_splits)
  qed
qed simp

text \<open>
  C40. A cached plan answers the query it is fetched for. If every plan was stored for the query that its
  keys were computed from, then a hit under the full key of a query is a plan made for a query with the
  same tokens and the same schema, statistics, capabilities and limits, and the parameter values folded
  into it are those of the query at hand; a hit under the early key was made for the very same text.
\<close>

theorem cached_plan_answers_query:
  assumes ops: "list_all (inserted_for hash t planned) ops" and wf: "well_formed_query r"
    and keys: "query_key hash t r = Ok k" "query_early_key hash r = Ok ek"
  shows "(fst (plan_cache_get eq l (cache_run sz eq ops) k (qi_parameters r)) = Some (p, force) \<longrightarrow>
      (\<exists>q sp. planned q p sp \<and> same_question hash t q r \<and> specialized_for eq sp (qi_parameters r))) \<and>
    (fst (plan_cache_get_early eq l (cache_run sz eq ops) ek (qi_parameters r)) = Some (p, force) \<longrightarrow>
      (\<exists>q sp. planned q p sp \<and> same_text hash q r \<and> specialized_for eq sp (qi_parameters r)))"
proof (intro conjI impI)
  have query: "\<exists>q. well_formed_query q \<and> query_key hash t q = Ok k' \<and> query_early_key hash q = Ok ek' \<and> planned q p sp"
    if "stored sz ops k' = Some (ek', p, force, sp)" for k' ek' sp
    using stored_inserted [OF that] ops by (fastforce simp: list_all_iff)
  assume "fst (plan_cache_get eq l (cache_run sz eq ops) k (qi_parameters r)) = Some (p, force)"
  then have "fst (cache_get eq (cache_run sz eq ops) k (qi_parameters r)) = Some (p, force)"
    by (simp add: plan_cache_get_def cache_eq split: if_splits)
  from cache_get_hit [OF cache_run_holds this] query
  show "\<exists>q sp. planned q p sp \<and> same_question hash t q r \<and> specialized_for eq sp (qi_parameters r)"
    using query_key_same [OF _ keys(1) _ wf] by metis
next
  have query: "\<exists>q. well_formed_query q \<and> query_key hash t q = Ok k' \<and> query_early_key hash q = Ok ek' \<and> planned q p sp"
    if "stored sz ops k' = Some (ek', p, force, sp)" for k' ek' sp
    using stored_inserted [OF that] ops by (fastforce simp: list_all_iff)
  assume "fst (plan_cache_get_early eq l (cache_run sz eq ops) ek (qi_parameters r)) = Some (p, force)"
  then have "fst (cache_get_early eq (cache_run sz eq ops) ek (qi_parameters r)) = Some (p, force)"
    by (simp add: plan_cache_get_early_def cache_eq split: if_splits)
  from cache_get_early_hit [OF cache_run_holds this] query
  show "\<exists>q sp. planned q p sp \<and> same_text hash q r \<and> specialized_for eq sp (qi_parameters r)"
    using query_early_key_same [OF _ keys(2) _ wf] by metis
qed

theorem cached_plan_answers_query_witness:
  "let caps = \<lparr>cap_write = False, cap_schema = False, cap_knowledge_write = False, cap_workspace_write = False,
         cap_require_native_execution = False\<rparr>;
       q = \<lparr>qi_project = 1, qi_source = [32, 97], qi_schema_generation = [5], qi_index_generation = [6],
         qi_parameters = [], qi_statistics_revision = 3, qi_backend = Cpu, qi_backend_bits = 0, qi_capabilities = caps,
         qi_layer_bits = 1, qi_temporal_mode = 0, qi_checkpoint_eligible = False, qi_scratch_budget = 9, qi_max_rows = 10\<rparr>;
       r = q\<lparr>qi_source := [97]\<rparr>;
       p = \<lparr>operators = [7::nat], unions = [], plan_rest = ()\<rparr>;
       sz = \<lparr>key_size = 200, plan_size = 300, operator_size = 100\<rparr>
   in \<exists>k ek kr. query_key id ascii_tables q = Ok k \<and> query_early_key id q = Ok ek \<and> query_key id ascii_tables r = Ok kr \<and>
        fst (plan_cache_get (=) Acquired (cache_run sz (=) [(Acquired, Insert ek k p True [])]) kr ([] :: (str \<times> ResultValue) list)) =
          Some (p, True) \<and>
        same_question id ascii_tables q r"
proof -
  define caps where "caps = \<lparr>cap_write = False, cap_schema = False, cap_knowledge_write = False, cap_workspace_write = False,
    cap_require_native_execution = False\<rparr>"
  define q where "q = \<lparr>qi_project = 1, qi_source = [32, 97], qi_schema_generation = [5], qi_index_generation = [6],
    qi_parameters = [], qi_statistics_revision = 3, qi_backend = Cpu, qi_backend_bits = 0, qi_capabilities = caps,
    qi_layer_bits = 1, qi_temporal_mode = 0, qi_checkpoint_eligible = False, qi_scratch_budget = 9, qi_max_rows = 10\<rparr>"
  define r where "r = q\<lparr>qi_source := [97]\<rparr>"
  define p where "p = \<lparr>operators = [7::nat], unions = [], plan_rest = ()\<rparr>"
  define sz where "sz = \<lparr>key_size = 200, plan_size = 300, operator_size = 100\<rparr>"
  let ?ns = "[0, 0, 0, 0, 0, 0, 0, 0, 1, 97, 6] :: bytes"
  let ?k = "PlanCacheKey 1 ?ns [5] [6] [] 3 0 0 0 1 0 False 9 10"
  let ?ek = "\<lambda>raw. EarlyPlanCacheKey 1 raw [5] [6] [] 3 0 0 0 False 9 10"
  let ?ops = "[(Acquired, Insert (?ek [32, 97]) ?k p True [])] :: (try_lock \<times> (nat, unit, ResultValue) cache_op) list"
  have ns: "normalized_source ascii_tables [32, 97] = Ok ?ns" "normalized_source ascii_tables [97] = Ok ?ns"
    by code_simp+
  have empty: "parameter_shape [] = []" "bind_capability_bits caps = 0"
    by (simp_all add: parameter_shape_def bind_capability_bits_def caps_def)
  have k: "query_key id ascii_tables q = Ok ?k" "query_key id ascii_tables r = Ok ?k"
    by (simp_all add: query_key_def q_def r_def plan_cache_key_new_def ns empty)
  have ek: "query_early_key id q = Ok (?ek [32, 97])" "query_early_key id r = Ok (?ek [97])"
    by (simp_all add: query_early_key_def q_def r_def early_plan_cache_key_new_def empty as_bytes_def utf8_char_def utf8_units_def)
  have wf: "well_formed_query q" "well_formed_query r"
    by (simp_all add: well_formed_query_def q_def r_def valid_char_def utf8_len_def len_utf8_def)
  have none: "qi_parameters r = []" by (simp add: r_def q_def)
  have hit: "fst (plan_cache_get (=) Acquired (cache_run sz (=) ?ops) ?k (qi_parameters r)) = Some (p, True)"
    unfolding none p_def sz_def by code_simp
  have "list_all (inserted_for id ascii_tables (\<lambda>a b _. a = q \<and> b = p)) ?ops"
    using k ek wf by simp
  from cached_plan_answers_query [OF this wf(2) k(2) ek(2)] hit have "same_question id ascii_tables q r"
    by blast
  with k ek(1) hit show ?thesis
    unfolding Let_def caps_def [symmetric] q_def [symmetric] r_def [symmetric] p_def [symmetric] sz_def [symmetric] none
    by blast
qed

end
